(* ===== verification/GoPrelude.thy ===== *)
theory GoPrelude
  imports Complex_Main "HOL-Library.Finite_Map" "HOL-Library.List_Lexorder" "HOL-Library.Char_ord"
    "HOL-Library.Word"
begin

text \<open>
  Shared vocabulary of the development: Go strings as byte strings, the functions of the Go
  package \<^verbatim>\<open>strings\<close> that the library calls, loops that stop at the first error, and the
  generic facts about finite maps that every component uses.

  A Go \<^verbatim>\<open>string\<close> is a sequence of bytes: here \<^typ>\<open>string\<close>, a list of 8-bit characters.
  A Go \<^verbatim>\<open>map[K]V\<close> is a finite map \<^typ>\<open>('k, 'v) fmap\<close>: a lookup of a missing key is
  \<^term>\<open>None\<close>, and a map is finite by its type.
\<close>

named_theorems frame \<open>parts of a state that an operation leaves unchanged\<close>
named_theorems outcome \<open>equations for the outcome of an operation, one per branch\<close>
named_theorems wf_intro \<open>preservation of the representation invariants\<close>

subsection \<open>Package strings\<close>

definition HasPrefix :: "string \<Rightarrow> string \<Rightarrow> bool" where
  "HasPrefix s p \<longleftrightarrow> take (length p) s = p"

definition TrimPrefix :: "string \<Rightarrow> string \<Rightarrow> string" where
  "TrimPrefix s p = (if HasPrefix s p then drop (length p) s else s)"

fun Contains :: "string \<Rightarrow> string \<Rightarrow> bool" where
  "Contains [] p \<longleftrightarrow> p = []"
| "Contains (c # s) p \<longleftrightarrow> HasPrefix (c # s) p \<or> Contains s p"

text \<open>
  The encodings of the runes that \<^verbatim>\<open>unicode.IsSpace\<close> accepts: the ASCII spaces, U+0085, U+00A0,
  U+1680, U+2000 to U+200A, U+2028, U+2029, U+202F, U+205F and U+3000, each in UTF-8. UTF-8 is
  self-synchronising, so removing one of these byte sequences from an end of the string is what
  decoding the rune at that end and testing it does.
\<close>

definition bytes :: "nat list \<Rightarrow> string" where
  "bytes ns = map char_of ns"

definition space_runes :: "string list" where
  "space_runes =
     map (\<lambda>b. bytes [b]) [9, 10, 11, 12, 13, 32]
     @ [bytes [0xC2, 0x85], bytes [0xC2, 0xA0], bytes [0xE1, 0x9A, 0x80]]
     @ map (\<lambda>b. bytes [0xE2, 0x80, b])
         [0x80, 0x81, 0x82, 0x83, 0x84, 0x85, 0x86, 0x87, 0x88, 0x89, 0x8A, 0xA8, 0xA9, 0xAF]
     @ [bytes [0xE2, 0x81, 0x9F], bytes [0xE3, 0x80, 0x80]]"

function trim_left :: "string list \<Rightarrow> string \<Rightarrow> string" where
  "trim_left seqs s =
     (case find (\<lambda>p. p \<noteq> [] \<and> HasPrefix s p) seqs of
        None \<Rightarrow> s
      | Some p \<Rightarrow> trim_left seqs (drop (length p) s))"
  by pat_completeness auto
termination
proof (relation "measure (\<lambda>(seqs, s). length s)", goal_cases)
  case (2 seqs s p)
  then have "p \<noteq> []" and "take (length p) s = p"
    by (auto simp: find_Some_iff HasPrefix_def)
  then show ?case by (cases s) auto
qed simp

definition TrimSpace :: "string \<Rightarrow> string" where
  "TrimSpace s = rev (trim_left (map rev space_runes) (rev (trim_left space_runes s)))"

definition blank :: "string \<Rightarrow> bool" where
  "blank s \<longleftrightarrow> TrimSpace s = []"

declare trim_left.simps [simp del]

lemma HasPrefix_iff: "HasPrefix s p \<longleftrightarrow> (\<exists>r. s = p @ r)"
  by (metis HasPrefix_def append_eq_conv_conj append_take_drop_id)

lemma HasPrefix_append [simp]: "HasPrefix (p @ r) p"
  by (simp add: HasPrefix_def)

lemma TrimPrefix_append [simp]: "TrimPrefix (p @ r) p = r"
  by (simp add: TrimPrefix_def)

lemma Contains_iff: "Contains s p \<longleftrightarrow> (\<exists>a b. s = a @ p @ b)"
proof (induction s)
  case Nil
  show ?case by auto
next
  case (Cons c s)
  show ?case
  proof
    assume "Contains (c # s) p"
    then consider b where "c # s = p @ b" | a b where "s = a @ p @ b"
      using Cons.IH by (auto simp: HasPrefix_iff)
    then show "\<exists>a b. c # s = a @ p @ b"
    proof cases
      case 1
      then show ?thesis by (metis append_Nil)
    next
      case 2
      then show ?thesis by (metis append_Cons)
    qed
  next
    assume "\<exists>a b. c # s = a @ p @ b"
    then obtain a b where ab: "c # s = a @ p @ b" by blast
    then show "Contains (c # s) p"
    proof (cases a)
      case Nil
      with ab have "HasPrefix (c # s) p" by (auto simp: HasPrefix_iff)
      then show ?thesis by simp
    next
      case (Cons d a')
      with ab Cons.IH show ?thesis by auto
    qed
  qed
qed

lemma trim_left_suffix: "\<exists>r. s = r @ trim_left seqs s"
proof (induction seqs s rule: trim_left.induct)
  case (1 seqs s)
  show ?case
  proof (cases "find (\<lambda>p. p \<noteq> [] \<and> HasPrefix s p) seqs")
    case None
    then show ?thesis by (simp add: trim_left.simps [of seqs s])
  next
    case (Some p)
    then obtain r where "drop (length p) s = r @ trim_left seqs (drop (length p) s)"
      using "1.IH" by blast
    then have "s = (take (length p) s @ r) @ trim_left seqs (drop (length p) s)"
      by (metis append.assoc append_take_drop_id)
    moreover have "trim_left seqs s = trim_left seqs (drop (length p) s)"
      using Some by (simp add: trim_left.simps [of seqs s])
    ultimately show ?thesis by metis
  qed
qed

lemma TrimSpace_infix: "\<exists>a b. s = a @ TrimSpace s @ b"
proof -
  obtain a where a: "s = a @ trim_left space_runes s"
    using trim_left_suffix by blast
  obtain b where "rev (trim_left space_runes s) =
      b @ trim_left (map rev space_runes) (rev (trim_left space_runes s))"
    using trim_left_suffix by blast
  then have "trim_left space_runes s = TrimSpace s @ rev b"
    unfolding TrimSpace_def by (metis rev_append rev_rev_ident)
  with a show ?thesis by metis
qed

lemma trim_left_Nil [simp]: "trim_left seqs [] = []"
  using trim_left_suffix [of "[]" seqs] by simp

lemma blank_Nil [simp]: "blank []"
  by (simp add: blank_def TrimSpace_def)

text \<open>Only space runes are trimmed, and all of them are.\<close>

lemma trim_left_stuck:
  "p \<in> set seqs \<Longrightarrow> p \<noteq> [] \<Longrightarrow> \<not> HasPrefix (trim_left seqs s) p"
proof (induction seqs s rule: trim_left.induct)
  case (1 seqs s)
  show ?case
  proof (cases "find (\<lambda>p. p \<noteq> [] \<and> HasPrefix s p) seqs")
    case None
    then have "trim_left seqs s = s" by (simp add: trim_left.simps [of seqs s])
    with None "1.prems" show ?thesis by (auto simp: find_None_iff)
  next
    case (Some q)
    with "1.IH" "1.prems" show ?thesis by (simp add: trim_left.simps [of seqs s])
  qed
qed

lemma trim_left_find:
  assumes "trim_left seqs s = []" and "s \<noteq> []"
  obtains p where "p \<in> set seqs" and "p \<noteq> []" and "HasPrefix s p"
proof (cases "find (\<lambda>p. p \<noteq> [] \<and> HasPrefix s p) seqs")
  case None
  then have "trim_left seqs s = s" by (simp add: trim_left.simps [of seqs s])
  with assms show thesis by simp
next
  case (Some p)
  then have "p \<in> set seqs" "p \<noteq> []" "HasPrefix s p" by (auto simp: find_Some_iff)
  then show thesis by (rule that)
qed

lemma trim_left_all:
  "trim_left seqs s = [] \<Longrightarrow> \<exists>ps. set ps \<subseteq> set seqs - {[]} \<and> s = concat ps"
proof (induction seqs s rule: trim_left.induct)
  case (1 seqs s)
  show ?case
  proof (cases "find (\<lambda>p. p \<noteq> [] \<and> HasPrefix s p) seqs")
    case None
    with "1.prems" have "s = concat []" by (simp add: trim_left.simps [of seqs s])
    then show ?thesis by (intro exI [of _ "[]"]) auto
  next
    case (Some p)
    with "1.prems" have "trim_left seqs (drop (length p) s) = []"
      by (simp add: trim_left.simps [of seqs s])
    with "1.IH" [OF Some] obtain ps where ps: "set ps \<subseteq> set seqs - {[]}"
      and s: "drop (length p) s = concat ps" by blast
    from Some have "p \<in> set seqs - {[]}" and "take (length p) s = p"
      by (auto simp: find_Some_iff HasPrefix_def)
    with ps s show ?thesis
      by (intro exI [of _ "p # ps"]) (metis append_take_drop_id concat.simps(2) insert_subset list.simps(15))
  qed
qed

lemma blank_iff: "blank s \<longleftrightarrow> trim_left space_runes s = []"
proof
  assume "trim_left space_runes s = []"
  then show "blank s" by (simp add: blank_def TrimSpace_def)
next
  let ?t = "trim_left space_runes s"
  assume "blank s"
  then have "trim_left (map rev space_runes) (rev ?t) = []"
    by (simp add: blank_def TrimSpace_def)
  from trim_left_all [OF this] obtain ps where
    ps: "set ps \<subseteq> set (map rev space_runes) - {[]}" and t: "rev ?t = concat ps" by blast
  have "?t = concat (rev (map rev ps))"
    using t by (metis rev_concat rev_map rev_rev_ident)
  moreover have "ps = []"
  proof (rule ccontr)
    assume "ps \<noteq> []"
    then obtain qs q where qs: "ps = qs @ [q]" by (metis rev_exhaust)
    with ps have q: "rev q \<in> set space_runes" "rev q \<noteq> []" by auto
    with qs \<open>?t = _\<close> have "HasPrefix ?t (rev q)" by simp
    with trim_left_stuck [OF q] show False by blast
  qed
  ultimately show "?t = []" by simp
qed

text \<open>For evaluation: a string whose first byte starts no space rune is not blank.\<close>

definition space_heads :: "char list" where
  "space_heads = [CHR 0x09, CHR 0x0A, CHR 0x0B, CHR 0x0C, CHR 0x0D, CHR 0x20, CHR 0xC2, CHR 0xE1,
     CHR 0xE2, CHR 0xE3]"

lemma space_runes_heads: "\<forall>p \<in> set space_runes. p \<noteq> [] \<and> hd p \<in> set space_heads"
  by code_simp

lemma blank_code [code]:
  "blank [] = True"
  "blank (c # s) = (if c \<in> set space_heads then trim_left space_runes (c # s) = [] else False)"
proof -
  show "blank (c # s) = (if c \<in> set space_heads then trim_left space_runes (c # s) = [] else False)"
  proof (cases "c \<in> set space_heads")
    case False
    have "trim_left space_runes (c # s) \<noteq> []"
    proof
      assume "trim_left space_runes (c # s) = []"
      then obtain p where "p \<in> set space_runes" and "HasPrefix (c # s) p" by (rule trim_left_find) simp
      with space_runes_heads have "hd p = c" and "hd p \<in> set space_heads"
        by (auto simp: HasPrefix_iff hd_append Cons_eq_append_conv)
      with False show False by simp
    qed
    with False show ?thesis by (simp add: blank_iff)
  qed (simp add: blank_iff)
qed simp

subsection \<open>Loops that stop at the first error\<close>

text \<open>
  The Go loop \<^verbatim>\<open>for _, x := range xs { if err := f(x); err != nil { return err } }\<close> over an
  accumulator that the body updates.
\<close>

fun forE :: "('a \<Rightarrow> 'b \<Rightarrow> 'e + 'b) \<Rightarrow> 'a list \<Rightarrow> 'b \<Rightarrow> 'e + 'b" where
  "forE f [] acc = Inr acc"
| "forE f (x # xs) acc = (case f x acc of Inl e \<Rightarrow> Inl e | Inr acc' \<Rightarrow> forE f xs acc')"

text \<open>The same loop where the body changes a state \<^typ>\<open>'s\<close> even when it fails.\<close>

fun forS :: "('a \<Rightarrow> 's \<Rightarrow> 's \<times> 'e option) \<Rightarrow> 'a list \<Rightarrow> 's \<Rightarrow> 's \<times> 'e option" where
  "forS f [] s = (s, None)"
| "forS f (x # xs) s = (case f x s of (s', Some e) \<Rightarrow> (s', Some e) | (s', None) \<Rightarrow> forS f xs s')"

text \<open>Sequencing two such actions: the second runs only when the first succeeds.\<close>

definition andS :: "('s \<Rightarrow> 's \<times> 'e option) \<Rightarrow> ('s \<Rightarrow> 's \<times> 'e option) \<Rightarrow> 's \<Rightarrow> 's \<times> 'e option" where
  "andS f g s = (case f s of (s', Some e) \<Rightarrow> (s', Some e) | (s', None) \<Rightarrow> g s')"

lemma forE_cong [fundef_cong]:
  assumes "xs = ys" and "a = b" and "\<And>x acc. x \<in> set ys \<Longrightarrow> f x acc = g x acc"
  shows "forE f xs a = forE g ys b"
  using assms
proof (induction ys arbitrary: xs a b)
  case Nil
  then show ?case by simp
next
  case (Cons y ys)
  then have "forE f ys acc = forE g ys acc" for acc by auto
  with Cons.prems show ?case by (auto split: sum.splits)
qed

lemma forE_append:
  "forE f (xs @ ys) a = (case forE f xs a of Inl e \<Rightarrow> Inl e | Inr b \<Rightarrow> forE f ys b)"
  by (induction xs arbitrary: a) (auto split: sum.splits)

text \<open>A loop whose body always succeeds is a fold.\<close>

lemma forE_fold:
  assumes "\<And>x acc. x \<in> set xs \<Longrightarrow> f x acc = Inr (h x acc)"
  shows "forE f xs a = Inr (fold h xs a)"
  using assms by (induction xs arbitrary: a) auto

lemma forE_Inl:
  "forE f xs a = Inl e \<Longrightarrow> \<exists>x \<in> set xs. \<exists>acc. f x acc = Inl e"
  by (induction xs arbitrary: a) (auto split: sum.splits)

lemma forE_Inr:
  "forE f xs a = Inr b \<Longrightarrow> x \<in> set xs \<Longrightarrow> \<exists>acc acc'. f x acc = Inr acc'"
  by (induction xs arbitrary: a) (auto split: sum.splits)

text \<open>A body that adds a set of facts to the accumulator adds their union over the loop.\<close>

lemma forE_union:
  assumes "\<And>x acc acc'. x \<in> set xs \<Longrightarrow> f x acc = Inr acc' \<Longrightarrow> Q acc' \<longleftrightarrow> R x \<or> Q acc"
    and "forE f xs a = Inr b"
  shows "Q b \<longleftrightarrow> (\<exists>x \<in> set xs. R x) \<or> Q a"
  using assms
proof (induction xs arbitrary: a)
  case Nil
  then show ?case by simp
next
  case (Cons x xs)
  from Cons.prems(2) obtain c where c: "f x a = Inr c" and rest: "forE f xs c = Inr b"
    by (auto split: sum.splits)
  have "Q b \<longleftrightarrow> (\<exists>y \<in> set xs. R y) \<or> Q c"
    using Cons.IH [OF _ rest] Cons.prems(1) by (meson list.set_intros(2))
  with Cons.prems(1) [OF _ c] show ?case by auto
qed

text \<open>Two loops whose bodies fail alike fail alike, whatever their accumulators.\<close>

definition error_of :: "'e + 'a \<Rightarrow> 'e option" where
  "error_of r = (case r of Inl e \<Rightarrow> Some e | Inr _ \<Rightarrow> None)"

lemma error_of_simps [simp]: "error_of (Inl e) = Some e" "error_of (Inr x) = None"
  by (simp_all add: error_of_def)

lemma error_of_None: "error_of r = None \<longleftrightarrow> (\<exists>x. r = Inr x)"
  by (cases r) auto

lemma forE_error_of:
  assumes "\<And>x a b. x \<in> set xs \<Longrightarrow> error_of (f x a) = error_of (g x b)"
  shows "error_of (forE f xs a) = error_of (forE g xs b)"
  using assms
proof (induction xs arbitrary: a b)
  case Nil
  then show ?case by simp
next
  case (Cons x xs)
  have IH: "error_of (forE f xs a') = error_of (forE g xs b')" for a' b'
    using Cons by simp
  have "error_of (f x a) = error_of (g x b)" using Cons.prems by simp
  then show ?case by (cases "f x a"; cases "g x b") (auto simp: IH)
qed

text \<open>
  \<open>keeps P f\<close>: the action \<open>f\<close> leads from states in \<open>P\<close> to states in \<open>P\<close>, whether or not it
  fails. The rules follow the shape of the code.
\<close>

definition keeps :: "('s \<Rightarrow> bool) \<Rightarrow> ('s \<Rightarrow> 's \<times> 'e option) \<Rightarrow> bool" where
  "keeps P f \<longleftrightarrow> (\<forall>s. P s \<longrightarrow> P (fst (f s)))"

lemma keepsI: "(\<And>s. P s \<Longrightarrow> P (fst (f s))) \<Longrightarrow> keeps P f"
  by (simp add: keeps_def)

lemma keepsD: "keeps P f \<Longrightarrow> P s \<Longrightarrow> P (fst (f s))"
  by (simp add: keeps_def)

lemma keeps_return [intro]: "keeps P (\<lambda>s. (s, e))"
  by (simp add: keeps_def)

lemma keeps_case_option:
  "(\<And>e. x = Some e \<Longrightarrow> keeps P (\<lambda>s. g e s)) \<Longrightarrow> (x = None \<Longrightarrow> keeps P f) \<Longrightarrow>
     keeps P (\<lambda>s. case x of None \<Rightarrow> f s | Some e \<Rightarrow> g e s)"
  by (cases x) auto

lemma keeps_forS [intro]:
  assumes "\<And>x. x \<in> set xs \<Longrightarrow> keeps P (f x)"
  shows "keeps P (forS f xs)"
proof (rule keepsI)
  fix s
  assume "P s"
  then show "P (fst (forS f xs s))"
    using assms
  proof (induction xs arbitrary: s)
    case Nil
    then show ?case by simp
  next
    case (Cons x xs)
    then have "P (fst (f x s))" by (auto dest: keepsD)
    with Cons show ?case by (auto split: prod.split option.split)
  qed
qed

lemma keeps_andS [intro]:
  assumes "keeps P f" and "keeps P g"
  shows "keeps P (andS f g)"
proof (rule keepsI)
  fix s
  assume "P s"
  then have "P (fst (f s))" using assms(1) by (rule keepsD [rotated])
  then show "P (fst (andS f g s))"
    using keepsD [OF assms(2)] by (auto simp: andS_def split: prod.split option.split)
qed

subsection \<open>Lists and finite maps\<close>

lemma map_fixD: "map f xs = xs \<Longrightarrow> x \<in> set xs \<Longrightarrow> f x = x"
  by (induction xs) auto

definition fmhas :: "('k, 'v) fmap \<Rightarrow> 'k \<Rightarrow> bool" where
  "fmhas m k \<longleftrightarrow> fmlookup m k \<noteq> None"

lemma fmhas_iff: "fmhas m k \<longleftrightarrow> k |\<in>| fmdom m"
  by (simp add: fmhas_def fmlookup_dom_iff)

declare fset_of_list_elem [simp]

lemma fmupd_same [simp]: "fmlookup m k = Some v \<Longrightarrow> fmupd k v m = m"
  by (rule fmap_ext) auto

lemma fmdrop_fresh [simp]: "fmlookup m k = None \<Longrightarrow> fmdrop k (fmupd k v m) = m"
  by (rule fmap_ext) simp

lemma fmupd_twice [simp]: "fmupd k v (fmupd k w m) = fmupd k v m"
  by (rule fmap_ext) simp

lemma fold_fmupd_Some:
  "distinct (map fst xs) \<Longrightarrow> fmlookup (fold (\<lambda>(k, v). fmupd k v) xs m) k = Some v \<longleftrightarrow>
     (k, v) \<in> set xs \<or> (k \<notin> fst ` set xs \<and> fmlookup m k = Some v)"
proof (induction xs arbitrary: m)
  case Nil
  then show ?case by simp
next
  case (Cons x xs)
  obtain k' v' where x: "x = (k', v')" by force
  have fresh: "k' \<notin> fst ` set xs" using Cons.prems x by simp
  then have "(k', w) \<notin> set xs" for w by force
  with Cons x fresh show ?case by auto
qed

lemma option_eqI: "(\<And>v. a = Some v \<longleftrightarrow> b = Some v) \<Longrightarrow> a = b"
  by (cases a; cases b) auto

end
