(* ===== verification/Model.thy ===== *)
theory Model
  imports GoPrelude
begin

text \<open>
  The data of the library: the sentinel errors of \<^verbatim>\<open>errors.go\<close>, \<^verbatim>\<open>policy.go\<close> and
  \<^verbatim>\<open>registry.go\<close>, the structs of \<^verbatim>\<open>model.go\<close>, the policy rules and attributes of
  \<^verbatim>\<open>policy.go\<close>, the batches of \<^verbatim>\<open>batch.go\<close>, and the part of a \<^verbatim>\<open>context.Context\<close>
  that the library reads.
\<close>

subsection \<open>Errors\<close>

text \<open>
  One constructor per sentinel error, the two errors of package \<^verbatim>\<open>context\<close>, \<open>ErrBackend\<close> for
  an error of a driver or client (its text), \<open>AuditWriteError\<close> for the struct of
  \<^verbatim>\<open>observability.go\<close> and \<open>Joined\<close> for the result of \<^verbatim>\<open>errors.Join\<close> on two errors.
\<close>

datatype err =
    ErrEnforcerClosed | ErrRoleNotFound | ErrRoleExists | ErrParentNotFound | ErrCycleDetected
  | ErrInvalidRole | ErrUserNotFound | ErrPermissionDenied | ErrRoleInUse | ErrUnsupported
  | ErrTenantRequired | ErrInvalidPolicy | ErrPolicyRulesDisabled
  | ErrRegistryClosed | ErrTenantCapacity | ErrTenantFactory
  | Canceled | DeadlineExceeded
  | ErrBackend string
  | ErrConfig string
  | AuditWriteError bool err
  | Joined err err

text \<open>\<^verbatim>\<open>errors.Is\<close>: the error itself, or one it wraps.\<close>

fun errors_Is :: "err \<Rightarrow> err \<Rightarrow> bool" where
  "errors_Is (AuditWriteError c e) t \<longleftrightarrow> AuditWriteError c e = t \<or> errors_Is e t"
| "errors_Is (Joined a b) t \<longleftrightarrow> Joined a b = t \<or> errors_Is a t \<or> errors_Is b t"
| "errors_Is e t \<longleftrightarrow> e = t"

text \<open>\<^verbatim>\<open>errors.Join(old, new)\<close>: a nil error is dropped.\<close>

definition errors_Join :: "err option \<Rightarrow> err \<Rightarrow> err" where
  "errors_Join old new = (case old of None \<Rightarrow> new | Some e \<Rightarrow> Joined e new)"

subsection \<open>Roles and users\<close>

record permission =
  perm_Resource :: string
  perm_Action :: string

record role =
  role_Name :: string
  role_Permissions :: "permission list"
  role_Parents :: "string list"

record user =
  user_ID :: string
  user_Roles :: "string list"

record permission_view =
  pv_UserID :: string
  pv_Roles :: "string list"
  pv_Permissions :: "(string, string list) fmap"
  pv_PolicyVersion :: "64 word"

text \<open>\<^verbatim>\<open>validRole\<close>: a role has a name, and every permission a resource and an action.\<close>

definition validRole :: "role \<Rightarrow> bool" where
  "validRole role \<longleftrightarrow>
     \<not> blank (role_Name role) \<and>
     list_all (\<lambda>p. \<not> blank (perm_Resource p) \<and> \<not> blank (perm_Action p)) (role_Permissions role)"

subsection \<open>Attributes and policy rules\<close>

text \<open>
  A Go value of type \<^verbatim>\<open>any\<close> enters a decision only through \<^verbatim>\<open>json.Marshal\<close>. It is the nil
  interface, a value with a JSON encoding, or a value that \<^verbatim>\<open>json.Marshal\<close> rejects (a channel, a
  function, NaN). A number keeps the literal the encoder writes for it (the decoders of the library
  use \<^verbatim>\<open>UseNumber\<close>); the fields of an object are in the order in which the encoder writes them.
\<close>

datatype json =
  JNull | JBool bool | JNum string | JStr string | JArr "json list" | JObj "(string \<times> json) list"

datatype gval = GNil | GVal json | GBad

type_synonym attributes = "(string, gval) fmap"

record condition =
  cond_Attribute :: string
  cond_Operator :: string
  cond_Value :: gval
  cond_OtherAttribute :: string

record policy_rule =
  rule_Effect :: string
  rule_Resource :: string
  rule_Action :: string
  rule_Conditions :: "condition list"

definition EffectAllow :: string where "EffectAllow = ''allow''"
definition EffectDeny :: string where "EffectDeny = ''deny''"

subsection \<open>Batches\<close>

record role_assignment =
  ra_UserID :: string
  ra_RoleName :: string

record policy_batch =
  pb_Register :: "role list"
  pb_Update :: "role list"
  pb_RuleUpdates :: "(string, policy_rule list) fmap"
  pb_MetadataUpdates :: "(string, (string, string) fmap) fmap"
  pb_Unassign :: "role_assignment list"
  pb_Assign :: "role_assignment list"
  pb_Delete :: "string list"

subsection \<open>The effective permission set\<close>

text \<open>\<^verbatim>\<open>permissionSet\<close>: resource to action to allowed. A missing entry reads as \<^verbatim>\<open>false\<close>.\<close>

type_synonym permissionSet = "(string, (string, bool) fmap) fmap"

definition ps_get :: "permissionSet \<Rightarrow> string \<Rightarrow> string \<Rightarrow> bool" where
  "ps_get ps resource action =
     (case fmlookup ps resource of
        None \<Rightarrow> False
      | Some acts \<Rightarrow> (case fmlookup acts action of None \<Rightarrow> False | Some b \<Rightarrow> b))"

text \<open>The loop body of \<^verbatim>\<open>collectEffective\<close> that enters one permission into the set.\<close>

definition ps_add :: "permission \<Rightarrow> permissionSet \<Rightarrow> permissionSet" where
  "ps_add p ps =
     (let acts = (case fmlookup ps (perm_Resource p) of None \<Rightarrow> fmempty | Some acts \<Rightarrow> acts)
      in fmupd (perm_Resource p) (fmupd (perm_Action p) True acts) ps)"

subsection \<open>Call contexts\<close>

text \<open>
  What a call finds in its \<^verbatim>\<open>context.Context\<close> and in the Go runtime: whether the context is done
  (\<^verbatim>\<open>ctx.Err()\<close>), the attributes and the audit actor stored in it, the readings of the clock and of
  \<^verbatim>\<open>rand.Text\<close> during the call, and the order in which the runtime happens to range over a map
  with the given keys. Go leaves that order open, so no theorem fixes it: \<open>fair_range\<close> says only
  that a range visits every key once.
\<close>

record ctx =
  cx_Err :: "err option"
  cx_attrs :: attributes
  cx_actor :: string
  cx_now :: int
  cx_elapsed :: "64 word"
  cx_rand :: string
  cx_range :: "string fset \<Rightarrow> string list"

definition fair_range :: "ctx \<Rightarrow> bool" where
  "fair_range cx \<longleftrightarrow> (\<forall>A. distinct (cx_range cx A) \<and> set (cx_range cx A) = fset A)"

text \<open>\<^verbatim>\<open>context.Background()\<close> on a runtime that happens to range in ascending order.\<close>

definition background :: ctx where
  "background = \<lparr>cx_Err = None, cx_attrs = fmempty, cx_actor = [], cx_now = 0, cx_elapsed = 0,
     cx_rand = [], cx_range = sorted_list_of_fset\<rparr>"

subsection \<open>Facts about the data\<close>

lemma ps_get_empty [simp]: "ps_get fmempty r a \<longleftrightarrow> False"
  by (simp add: ps_get_def)

lemma ps_get_add [simp]:
  "ps_get (ps_add p ps) r a \<longleftrightarrow> (r = perm_Resource p \<and> a = perm_Action p) \<or> ps_get ps r a"
  by (auto simp: ps_get_def ps_add_def Let_def split: option.splits)

lemma ps_get_fold_add:
  "ps_get (fold ps_add perms ps) r a \<longleftrightarrow>
     (\<exists>p \<in> set perms. perm_Resource p = r \<and> perm_Action p = a) \<or> ps_get ps r a"
  by (induction perms arbitrary: ps) auto

lemma fair_background [simp]: "fair_range background"
  by (simp add: fair_range_def background_def sorted_list_of_fset.rep_eq)

lemma background_Err [simp]: "cx_Err background = None"
  by (simp add: background_def)

lemma background_actor [simp]: "cx_actor background = []"
  by (simp add: background_def)

lemma errors_Is_refl [simp]: "errors_Is e e"
  by (cases e) auto

lemma validRole_perm:
  "validRole role \<Longrightarrow> p \<in> set (role_Permissions role) \<Longrightarrow> \<not> blank (perm_Action p)"
  by (auto simp: validRole_def list_all_iff)

end
