(* ===== verification/Hierarchy.thy ===== *)
theory Hierarchy
  imports Model
begin

text \<open>
  The traversals of the role graph: \<^verbatim>\<open>detectCycle\<close> (\<^verbatim>\<open>memory_store.go\<close>),
  \<^verbatim>\<open>collectEffective\<close> and \<^verbatim>\<open>collectRoleNames\<close> (\<^verbatim>\<open>enforcer.go\<close>). They terminate because a
  store holds finitely many roles and none is entered twice on a path, and they compute the cycle
  test and the closure that the graph defines.
\<close>

subsection \<open>The role graph\<close>

text \<open>
  What \<^verbatim>\<open>Store.GetRole\<close> answers for each name while the store does not change: an error, or the
  entry of a finite map.
\<close>

record getter =
  g_fail :: "string \<Rightarrow> err option"
  g_roles :: "(string, role) fmap"

definition GetRole :: "getter \<Rightarrow> string \<Rightarrow> err + role option" where
  "GetRole g name =
     (case g_fail g name of Some e \<Rightarrow> Inl e | None \<Rightarrow> Inr (fmlookup (g_roles g) name))"

definition parents_of :: "(string, role) fmap \<Rightarrow> string \<Rightarrow> string list" where
  "parents_of roles n = (case fmlookup roles n of None \<Rightarrow> [] | Some r \<Rightarrow> role_Parents r)"

definition parent :: "(string, role) fmap \<Rightarrow> string \<Rightarrow> string \<Rightarrow> bool" where
  "parent roles n p \<longleftrightarrow> p \<in> set (parents_of roles n)"

abbreviation ancestor :: "(string, role) fmap \<Rightarrow> string \<Rightarrow> string \<Rightarrow> bool" where
  "ancestor roles \<equiv> (parent roles)\<^sup>*\<^sup>*"

definition cycle_at :: "(string, role) fmap \<Rightarrow> string \<Rightarrow> bool" where
  "cycle_at roles n \<longleftrightarrow> (parent roles)\<^sup>+\<^sup>+ n n"

definition acyclic_roles :: "(string, role) fmap \<Rightarrow> bool" where
  "acyclic_roles roles \<longleftrightarrow> (\<forall>n. \<not> cycle_at roles n)"

text \<open>A permission that a role or one of its ancestors lists.\<close>

definition grants :: "(string, role) fmap \<Rightarrow> string \<Rightarrow> string \<Rightarrow> string \<Rightarrow> bool" where
  "grants roles n res act \<longleftrightarrow>
     (\<exists>x r. ancestor roles n x \<and> fmlookup roles x = Some r \<and>
        (\<exists>p \<in> set (role_Permissions r). perm_Resource p = res \<and> perm_Action p = act))"

subsection \<open>The traversals\<close>

text \<open>
  \<^verbatim>\<open>visiting\<close> is passed by value: Go keeps one map, but every call that returns without an error
  has reset the entry it set, and an error ends the whole traversal.
\<close>

function detectCycle :: "(string, role) fmap \<Rightarrow> string \<Rightarrow> string fset \<Rightarrow> err option" where
  "detectCycle roles roleName visiting =
     (if roleName |\<in>| visiting then Some ErrCycleDetected
      else case fmlookup roles roleName of
             None \<Rightarrow> None
           | Some role \<Rightarrow>
               (case forE (\<lambda>parent _. case detectCycle roles parent (finsert roleName visiting) of
                              Some e \<Rightarrow> Inl e | None \<Rightarrow> Inr ())
                  (role_Parents role) () of
                  Inl e \<Rightarrow> Some e
                | Inr _ \<Rightarrow> None))"
  by pat_completeness auto

function collectEffective ::
  "getter \<Rightarrow> string \<Rightarrow> permissionSet \<Rightarrow> string fset \<Rightarrow> err + permissionSet" where
  "collectEffective g roleName perm visiting =
     (if roleName |\<in>| visiting then Inl ErrCycleDetected
      else case GetRole g roleName of
             Inl e \<Rightarrow> Inl e
           | Inr None \<Rightarrow> Inr perm
           | Inr (Some role) \<Rightarrow>
               forE (\<lambda>parent perm. collectEffective g parent perm (finsert roleName visiting))
                 (role_Parents role) (fold ps_add (role_Permissions role) perm))"
  by pat_completeness auto

text \<open>
  \<^verbatim>\<open>collectRoleNames\<close> for each name of a list in turn: the loop of its callers over the assigned
  roles and its own loop over the parents. \<^verbatim>\<open>seen\<close> is shared by all calls, so it is threaded
  through.
\<close>

function (sequential) collectRoleNames ::
  "getter \<Rightarrow> string list \<Rightarrow> string fset \<Rightarrow> err + string fset" where
  "collectRoleNames g [] seen = Inr seen"
| "collectRoleNames g (roleName # names) seen =
     (if roleName |\<in>| seen then collectRoleNames g names seen
      else case GetRole g roleName of
             Inl e \<Rightarrow> Inl e
           | Inr None \<Rightarrow> collectRoleNames g names seen
           | Inr (Some role) \<Rightarrow>
               (case collectRoleNames g (role_Parents role) (finsert roleName seen) of
                  Inl e \<Rightarrow> Inl e
                | Inr seen' \<Rightarrow> collectRoleNames g names seen'))"
  by pat_completeness auto

subsection \<open>Termination\<close>

definition unvisited :: "(string, role) fmap \<Rightarrow> string fset \<Rightarrow> nat" where
  "unvisited roles v = fcard (fmdom roles |-| v)"

lemma unvisited_finsert:
  assumes "fmlookup roles n = Some r" and "n |\<notin>| v"
  shows "unvisited roles (finsert n v) < unvisited roles v"
  unfolding unvisited_def
  using assms by (intro pfsubset_fcard_mono) (auto intro: fmdomI)

lemma unvisited_mono: "v |\<subseteq>| w \<Longrightarrow> unvisited roles w \<le> unvisited roles v"
  unfolding unvisited_def by (intro fcard_mono) auto

lemma GetRole_Some: "GetRole g n = Inr (Some r) \<Longrightarrow> fmlookup (g_roles g) n = Some r"
  by (auto simp: GetRole_def split: option.splits)

termination detectCycle
  by (relation "measure (\<lambda>(roles, n, v). unvisited roles v)") (auto intro: unvisited_finsert)

termination collectEffective
  by (relation "measure (\<lambda>(g, n, pm, v). unvisited (g_roles g) v)")
    (auto intro: unvisited_finsert dest: GetRole_Some)

lemma collectRoleNames_grows_dom:
  "collectRoleNames_dom (g, names, seen) \<Longrightarrow> collectRoleNames g names seen = Inr seen' \<Longrightarrow>
     seen |\<subseteq>| seen'"
proof (induction arbitrary: seen' rule: collectRoleNames.pinduct)
  case (1 g seen)
  then show ?case by (simp add: collectRoleNames.psimps)
next
  case (2 g n names seen)
  note unfold = collectRoleNames.psimps(2) [OF "2.hyps"]
  show ?case
  proof (cases "n |\<in>| seen \<or> GetRole g n = Inr None")
    case True
    with "2.prems" unfold have "collectRoleNames g names seen = Inr seen'"
      by (auto split: if_splits)
    with True "2.IH" show ?thesis by (cases "n |\<in>| seen") auto
  next
    case False
    with "2.prems" unfold obtain r mid where r: "GetRole g n = Inr (Some r)"
      and mid: "collectRoleNames g (role_Parents r) (finsert n seen) = Inr mid"
      and rest: "collectRoleNames g names mid = Inr seen'"
      by (auto split: if_splits sum.splits option.splits)
    from False have n: "n |\<notin>| seen" by simp
    have "finsert n seen |\<subseteq>| mid" using "2.IH"(3) [OF n r refl mid] .
    moreover have "mid |\<subseteq>| seen'" using "2.IH"(4) [OF n r refl mid rest] .
    ultimately show ?thesis by blast
  qed
qed

termination collectRoleNames
proof (relation "inv_image (less_than <*lex*> less_than)
    (\<lambda>(g, names, seen). (unvisited (g_roles g) seen, length names))", goal_cases)
  case (4 g n names seen x r)
  then show ?case using unvisited_finsert [of "g_roles g" n] by (auto dest!: GetRole_Some)
next
  case (5 g n names seen x r seen')
  then have "finsert n seen |\<subseteq>| seen'" by (auto dest: collectRoleNames_grows_dom)
  then have "unvisited (g_roles g) seen' \<le> unvisited (g_roles g) (finsert n seen)"
    by (rule unvisited_mono)
  with 5 show ?case
    using unvisited_finsert [of "g_roles g" n r seen] by (auto dest!: GetRole_Some)
qed auto

declare detectCycle.simps [simp del] collectEffective.simps [simp del]


subsection \<open>Facts about the graph\<close>

lemma parents_of_Some [simp]: "fmlookup roles n = Some r \<Longrightarrow> parents_of roles n = role_Parents r"
  by (simp add: parents_of_def)

lemma parents_of_None [simp]: "fmlookup roles n = None \<Longrightarrow> parents_of roles n = []"
  by (simp add: parents_of_def)

lemma parent_exists: "parent roles n p \<Longrightarrow> fmhas roles n"
  by (cases "fmlookup roles n") (auto simp: parent_def fmhas_def)

lemma ancestor_unfold: "ancestor roles n x \<longleftrightarrow> x = n \<or> (\<exists>p. parent roles n p \<and> ancestor roles p x)"
  by (metis converse_rtranclpE converse_rtranclp_into_rtranclp rtranclp.rtrancl_refl)

lemma cycle_at_iff: "cycle_at roles n \<longleftrightarrow> (\<exists>p. parent roles n p \<and> ancestor roles p n)"
  unfolding cycle_at_def by (meson rtranclp_into_tranclp2 tranclpD)

lemma grants_unfold:
  "grants roles n res act \<longleftrightarrow>
     (\<exists>r. fmlookup roles n = Some r \<and>
        (\<exists>p \<in> set (role_Permissions r). perm_Resource p = res \<and> perm_Action p = act))
     \<or> (\<exists>q. parent roles n q \<and> grants roles q res act)"
  unfolding grants_def by (subst ancestor_unfold) blast

subsection \<open>collectEffective computes the granted permissions\<close>

definition never_fails :: "getter \<Rightarrow> bool" where
  "never_fails g \<longleftrightarrow> (\<forall>n. g_fail g n = None)"

lemma GetRole_never_fails: "never_fails g \<Longrightarrow> GetRole g n = Inr (fmlookup (g_roles g) n)"
  by (simp add: never_fails_def GetRole_def)

lemma GetRole_Inr: "GetRole g n = Inr x \<Longrightarrow> fmlookup (g_roles g) n = x"
  by (auto simp: GetRole_def split: option.splits)

lemma collectEffective_grants:
  "collectEffective g n perm v = Inr perm' \<Longrightarrow>
     ps_get perm' res act \<longleftrightarrow> grants (g_roles g) n res act \<or> ps_get perm res act"
proof (induction g n perm v arbitrary: perm' rule: collectEffective.induct)
  case (1 g n perm v)
  from "1.prems" have n: "n |\<notin>| v" by (auto simp: collectEffective.simps [of g n])
  show ?case
  proof (cases "GetRole g n")
    case (Inl e)
    with "1.prems" n show ?thesis by (simp add: collectEffective.simps [of g n])
  next
    case (Inr x)
    note lookup = GetRole_Inr [OF Inr]
    show ?thesis
    proof (cases x)
      case None
      with "1.prems" n Inr lookup show ?thesis
        by (subst grants_unfold) (auto simp: collectEffective.simps [of g n] parent_def)
    next
      case (Some role)
      let ?body = "\<lambda>q pm. collectEffective g q pm (finsert n v)"
      from "1.prems" n Inr Some have
        loop: "forE ?body (role_Parents role) (fold ps_add (role_Permissions role) perm) = Inr perm'"
        by (simp add: collectEffective.simps [of g n])
      have "ps_get perm' res act \<longleftrightarrow> (\<exists>q \<in> set (role_Parents role). grants (g_roles g) q res act)
          \<or> ps_get (fold ps_add (role_Permissions role) perm) res act"
        by (rule forE_union [where Q = "\<lambda>pm. ps_get pm res act", OF _ loop])
          (rule "1.IH" [OF n Inr Some])
      with Some lookup show ?thesis
        by (subst grants_unfold) (auto simp: ps_get_fold_add parent_def)
    qed
  qed
qed

lemma collectEffective_Inl:
  "collectEffective g n perm v = Inl e \<Longrightarrow> never_fails g \<Longrightarrow>
     e = ErrCycleDetected \<and>
     (\<exists>x. ancestor (g_roles g) n x \<and> (x |\<in>| v \<or> cycle_at (g_roles g) x))"
proof (induction g n perm v arbitrary: e rule: collectEffective.induct)
  case (1 g n perm v)
  show ?case
  proof (cases "n |\<in>| v")
    case True
    with "1.prems" show ?thesis by (auto simp: collectEffective.simps [of g n])
  next
    case n: False
    from "1.prems" n obtain role where role: "GetRole g n = Inr (Some role)"
      and loop: "forE (\<lambda>q pm. collectEffective g q pm (finsert n v)) (role_Parents role)
        (fold ps_add (role_Permissions role) perm) = Inl e"
      by (auto simp: collectEffective.simps [of g n] GetRole_never_fails split: option.splits)
    from forE_Inl [OF loop] obtain q pm where q: "q \<in> set (role_Parents role)"
      and fail: "collectEffective g q pm (finsert n v) = Inl e" by blast
    have edge: "parent (g_roles g) n q"
      using q GetRole_Inr [OF role] by (simp add: parent_def parents_of_def)
    have "e = ErrCycleDetected \<and> (\<exists>x. ancestor (g_roles g) q x \<and>
        (x |\<in>| finsert n v \<or> cycle_at (g_roles g) x))"
      using "1.IH" [OF n role refl q fail] "1.prems"(2) by blast
    then obtain x where e: "e = ErrCycleDetected" and x: "ancestor (g_roles g) q x"
      and "x = n \<or> x |\<in>| v \<or> cycle_at (g_roles g) x" by auto
    then consider "x = n" | "x |\<in>| v \<or> cycle_at (g_roles g) x" by blast
    then show ?thesis
    proof cases
      case 1
      with edge x have "cycle_at (g_roles g) n" by (auto simp: cycle_at_iff)
      with e show ?thesis by blast
    next
      case 2
      have "ancestor (g_roles g) n x" using edge x by (rule converse_rtranclp_into_rtranclp)
      with e 2 show ?thesis by blast
    qed
  qed
qed

lemma collectEffective_no_cycle:
  "collectEffective g n perm v = Inr perm' \<Longrightarrow> ancestor (g_roles g) n x \<Longrightarrow>
     x |\<notin>| v \<and> \<not> cycle_at (g_roles g) x"
proof (induction g n perm v arbitrary: perm' x rule: collectEffective.induct)
  case (1 g n perm v)
  from "1.prems" have n: "n |\<notin>| v" by (auto simp: collectEffective.simps [of g n])
  have below: "y |\<notin>| finsert n v \<and> \<not> cycle_at (g_roles g) y"
    if edge: "parent (g_roles g) n q" and y: "ancestor (g_roles g) q y" for q y
  proof -
    obtain role where role: "GetRole g n = Inr (Some role)"
    proof (cases "GetRole g n")
      case (Inl e)
      with "1.prems"(1) n show thesis by (simp add: collectEffective.simps [of g n])
    next
      case (Inr r)
      with edge that show thesis
        by (cases r) (auto simp: parent_def dest!: GetRole_Inr)
    qed
    then have q: "q \<in> set (role_Parents role)"
      using edge by (simp add: parent_def GetRole_Some)
    have "forE (\<lambda>q pm. collectEffective g q pm (finsert n v)) (role_Parents role)
        (fold ps_add (role_Permissions role) perm) = Inr perm'"
      using "1.prems"(1) n role by (simp add: collectEffective.simps [of g n])
    from forE_Inr [OF this q] obtain pm pm' where "collectEffective g q pm (finsert n v) = Inr pm'"
      by blast
    then show ?thesis using "1.IH" [OF n role refl q _ y] by blast
  qed
  from "1.prems"(2) consider "x = n" | q where "parent (g_roles g) n q" "ancestor (g_roles g) q x"
    by (subst (asm) ancestor_unfold) blast
  then show ?case
  proof cases
    case 1
    with n show ?thesis by (auto simp: cycle_at_iff dest: below)
  next
    case 2
    with below show ?thesis by blast
  qed
qed

text \<open>On a store that answers, the traversal fails exactly on a cycle, and with that error.\<close>

lemma collectEffective_total:
  assumes "never_fails g"
  shows "collectEffective g n perm {||} =
    (if \<exists>x. ancestor (g_roles g) n x \<and> cycle_at (g_roles g) x then Inl ErrCycleDetected
     else Inr (projr (collectEffective g n perm {||})))"
  using collectEffective_Inl [OF _ assms, of n perm "{||}"]
    collectEffective_no_cycle [of g n perm "{||}"]
  by (cases "collectEffective g n perm {||}") auto

lemma collectEffective_acyclic:
  assumes "never_fails g" and "acyclic_roles (g_roles g)"
  obtains perm' where "collectEffective g n perm {||} = Inr perm'"
  using collectEffective_Inl [OF _ assms(1), of n perm "{||}"] assms(2)
  by (cases "collectEffective g n perm {||}") (auto simp: acyclic_roles_def)

subsection \<open>detectCycle decides whether a cycle can be reached\<close>

lemma detectCycle_collect:
  "detectCycle roles n v =
     error_of (collectEffective \<lparr>g_fail = \<lambda>_. None, g_roles = roles\<rparr> n perm v)"
proof (induction roles n v arbitrary: perm rule: detectCycle.induct)
  case (1 roles n v)
  let ?g = "\<lparr>g_fail = \<lambda>_. None, g_roles = roles\<rparr>"
  show ?case
  proof (cases "n |\<in>| v \<or> fmlookup roles n = None")
    case True
    then show ?thesis
      by (auto simp: detectCycle.simps [of roles n] collectEffective.simps [of ?g n] GetRole_def)
  next
    case False
    then obtain role where role: "fmlookup roles n = Some role" by blast
    have "error_of (forE (\<lambda>q _. case detectCycle roles q (finsert n v) of
              Some e \<Rightarrow> Inl e | None \<Rightarrow> Inr ()) (role_Parents role) ())
        = error_of (forE (\<lambda>q pm. collectEffective ?g q pm (finsert n v)) (role_Parents role)
            (fold ps_add (role_Permissions role) perm))"
      using False role
      by (intro forE_error_of) (auto simp: "1.IH" [symmetric] split: option.splits)
    with False role show ?thesis
      by (auto simp: detectCycle.simps [of roles n] collectEffective.simps [of ?g n] GetRole_def
          error_of_def split: sum.splits)
  qed
qed

lemma detectCycle_iff:
  "detectCycle roles n {||} =
     (if \<exists>x. ancestor roles n x \<and> cycle_at roles x then Some ErrCycleDetected else None)"
  using collectEffective_total [of "\<lparr>g_fail = \<lambda>_. None, g_roles = roles\<rparr>" n fmempty]
  by (subst detectCycle_collect [of roles n "{||}" fmempty])
    (auto simp: never_fails_def error_of_def split: sum.splits if_splits)


subsection \<open>collectRoleNames computes the reachable roles\<close>

lemma collectRoleNames_answers:
  "never_fails g \<Longrightarrow> \<exists>seen'. collectRoleNames g names seen = Inr seen'"
  by (induction g names seen rule: collectRoleNames.induct)
    (auto simp: GetRole_never_fails split: option.splits)

text \<open>The three cases of a successful call on a non-empty list.\<close>

lemma collectRoleNames_Cons:
  assumes "collectRoleNames g (n # names) seen = Inr seen'"
  obtains (skip) "n |\<in>| seen \<or> GetRole g n = Inr None"
      and "collectRoleNames g names seen = Inr seen'"
    | (enter) r mid where "n |\<notin>| seen" and "GetRole g n = Inr (Some r)"
      and "collectRoleNames g (role_Parents r) (finsert n seen) = Inr mid"
      and "collectRoleNames g names mid = Inr seen'"
  using assms by (auto split: if_splits sum.splits option.splits)

lemma collectRoleNames_grows:
  "collectRoleNames g names seen = Inr seen' \<Longrightarrow> seen |\<subseteq>| seen'"
proof (induction g names seen arbitrary: seen' rule: collectRoleNames.induct)
  case (1 g seen)
  then show ?case by simp
next
  case (2 g n names seen)
  from "2.prems" show ?case
  proof (cases rule: collectRoleNames_Cons)
    case skip
    with "2.IH"(1,2) show ?thesis by (cases "n |\<in>| seen") auto
  next
    case (enter r mid)
    with "2.IH"(3,4) show ?thesis by fastforce
  qed
qed

lemma collectRoleNames_sound:
  "collectRoleNames g names seen = Inr seen' \<Longrightarrow> x |\<in>| seen' \<Longrightarrow>
     x |\<in>| seen \<or> (fmhas (g_roles g) x \<and> (\<exists>n \<in> set names. ancestor (g_roles g) n x))"
proof (induction g names seen arbitrary: seen' rule: collectRoleNames.induct)
  case (1 g seen)
  then show ?case by simp
next
  case (2 g n names seen)
  from "2.prems"(1) show ?case
  proof (cases rule: collectRoleNames_Cons)
    case skip
    with "2.IH"(1,2) "2.prems" show ?thesis
      by (cases "n |\<in>| seen") auto
  next
    case (enter r mid)
    have "x |\<in>| mid \<or> (fmhas (g_roles g) x \<and> (\<exists>n \<in> set names. ancestor (g_roles g) n x))"
      using "2.IH"(4) enter "2.prems"(2) by blast
    moreover have "x |\<in>| finsert n seen \<or>
        (fmhas (g_roles g) x \<and> (\<exists>q \<in> set (role_Parents r). ancestor (g_roles g) q x))"
      if "x |\<in>| mid"
      using "2.IH"(3) enter that by blast
    moreover have "ancestor (g_roles g) n x"
      if "q \<in> set (role_Parents r)" and "ancestor (g_roles g) q x" for q
      using that enter(2) by (auto simp: parent_def GetRole_Some intro: converse_rtranclp_into_rtranclp)
    ultimately show ?thesis
      using GetRole_Some [OF enter(2)] by (auto simp: fmhas_def)
  qed
qed

text \<open>
  Every role of the list is entered, and the roles entered are closed under existing parents.
\<close>

lemma collectRoleNames_closed:
  "collectRoleNames g names seen = Inr seen' \<Longrightarrow>
     (\<forall>n \<in> set names. fmhas (g_roles g) n \<longrightarrow> n |\<in>| seen') \<and>
     (\<forall>x p. x |\<in>| seen' \<longrightarrow> x |\<notin>| seen \<longrightarrow> parent (g_roles g) x p \<longrightarrow> fmhas (g_roles g) p \<longrightarrow> p |\<in>| seen')"
proof (induction g names seen arbitrary: seen' rule: collectRoleNames.induct)
  case (1 g seen)
  then show ?case by simp
next
  case (2 g n names seen)
  from "2.prems" show ?case
  proof (cases rule: collectRoleNames_Cons)
    case skip
    have IH: "(\<forall>m \<in> set names. fmhas (g_roles g) m \<longrightarrow> m |\<in>| seen') \<and>
        (\<forall>x p. x |\<in>| seen' \<longrightarrow> x |\<notin>| seen \<longrightarrow> parent (g_roles g) x p \<longrightarrow>
           fmhas (g_roles g) p \<longrightarrow> p |\<in>| seen')"
    proof (cases "n |\<in>| seen")
      case True
      then show ?thesis using "2.IH"(1) skip(2) by blast
    next
      case False
      with skip(1) have "GetRole g n = Inr None" by blast
      with False show ?thesis using "2.IH"(2) skip(2) by blast
    qed
    have "n |\<in>| seen'" if "fmhas (g_roles g) n"
      using that skip(1) collectRoleNames_grows [OF skip(2)]
      by (auto simp: fmhas_def dest: GetRole_Inr)
    with IH show ?thesis by (simp only: set_simps ball_simps) blast
  next
    case (enter r mid)
    note inner = "2.IH"(3) [OF enter(1,2) refl enter(3)]
    note outer = "2.IH"(4) [OF enter(1,2) refl enter(3,4)]
    have sub: "finsert n seen |\<subseteq>| mid" "mid |\<subseteq>| seen'"
      using collectRoleNames_grows enter(3,4) by blast+
    have top: "p |\<in>| mid" if "parent (g_roles g) n p" "fmhas (g_roles g) p" for p
      using that inner GetRole_Some [OF enter(2)] by (simp add: parent_def)
    have step: "p |\<in>| seen'" if x: "x |\<in>| seen'" "x |\<notin>| seen" and edge: "parent (g_roles g) x p"
      and p: "fmhas (g_roles g) p" for x p
    proof (cases "x |\<in>| mid")
      case True
      have "p |\<in>| mid"
      proof (cases "x = n")
        case True
        with edge p top show ?thesis by simp
      next
        case False
        with \<open>x |\<in>| mid\<close> x(2) edge p inner show ?thesis by auto
      qed
      with sub(2) show ?thesis by blast
    next
      case False
      with x(1) edge p outer show ?thesis by blast
    qed
    have "n |\<in>| seen'" using sub by blast
    with outer have "\<forall>m \<in> set (n # names). fmhas (g_roles g) m \<longrightarrow> m |\<in>| seen'" by simp
    with step show ?thesis by (intro conjI allI impI) blast+
  qed
qed

lemma collectRoleNames_complete:
  assumes run: "collectRoleNames g names {||} = Inr seen'"
    and "n \<in> set names" and "ancestor (g_roles g) n x" and "fmhas (g_roles g) x"
  shows "x |\<in>| seen'"
  using assms(3,4)
proof (induction rule: rtranclp_induct)
  case base
  with collectRoleNames_closed [OF run] assms(2) show ?case by blast
next
  case (step y z)
  then show ?case
    using collectRoleNames_closed [OF run] parent_exists [OF step.hyps(2)] by blast
qed

lemma collectRoleNames_iff:
  assumes "collectRoleNames g names {||} = Inr seen'"
  shows "x |\<in>| seen' \<longleftrightarrow>
    fmhas (g_roles g) x \<and> (\<exists>n \<in> set names. ancestor (g_roles g) n x)"
  using collectRoleNames_sound [OF assms, of x] collectRoleNames_complete [OF assms] by auto

end
