(* ===== verification/Policy.thy ===== *)
theory Policy
  imports Model
begin

text \<open>
  The pure part of \<^verbatim>\<open>policy.go\<close>: validation and cloning of rules, and the evaluation of attribute
  conditions in the three-valued logic of the code (a condition matches, does not match, or is not
  known). \<^verbatim>\<open>encoding/json\<close> and \<^verbatim>\<open>math/big\<close> are modelled as far as the code uses them: the
  repair of invalid UTF-8 by the encoder, the key order of a re-encoded object, and the reading of
  a JSON number as a rational.
\<close>

subsection \<open>encoding/json\<close>

definition byte :: "char \<Rightarrow> nat" where
  "byte c = of_char c"

definition cont :: "char \<Rightarrow> bool" where
  "cont c \<longleftrightarrow> 0x80 \<le> byte c \<and> byte c \<le> 0xBF"

text \<open>Length of the UTF-8 encoding of a rune at the head of a string, 0 if there is none.\<close>

fun rune_len :: "string \<Rightarrow> nat" where
  "rune_len [] = 0"
| "rune_len (a # s) =
     (if byte a < 0x80 then 1
      else if 0xC2 \<le> byte a \<and> byte a \<le> 0xDF then
        (case s of b # _ \<Rightarrow> if cont b then 2 else 0 | [] \<Rightarrow> 0)
      else if 0xE0 \<le> byte a \<and> byte a \<le> 0xEF then
        (case s of
           b # c # _ \<Rightarrow>
             if cont b \<and> (byte a = 0xE0 \<longrightarrow> 0xA0 \<le> byte b) \<and> (byte a = 0xED \<longrightarrow> byte b \<le> 0x9F)
                \<and> cont c
             then 3 else 0
         | _ \<Rightarrow> 0)
      else if 0xF0 \<le> byte a \<and> byte a \<le> 0xF4 then
        (case s of
           b # c # d # _ \<Rightarrow>
             if cont b \<and> (byte a = 0xF0 \<longrightarrow> 0x90 \<le> byte b) \<and> (byte a = 0xF4 \<longrightarrow> byte b \<le> 0x8F)
                \<and> cont c \<and> cont d
             then 4 else 0
         | _ \<Rightarrow> 0)
      else 0)"

text \<open>
  A string after \<^verbatim>\<open>json.Marshal\<close> and decoding: every byte that starts no valid rune has become
  U+FFFD; the escapes of the encoder are undone by the decoder.
\<close>

function utf8_fix :: "string \<Rightarrow> string" where
  "utf8_fix [] = []"
| "utf8_fix (c # s) =
     (let n = rune_len (c # s)
      in if n = 0 then bytes [0xEF, 0xBF, 0xBD] @ utf8_fix s
         else take n (c # s) @ utf8_fix (drop n (c # s)))"
  by pat_completeness auto
termination
  by (relation "measure length") auto

fun json_text :: "json \<Rightarrow> json" where
  "json_text JNull = JNull"
| "json_text (JBool b) = JBool b"
| "json_text (JNum t) = JNum t"
| "json_text (JStr s) = JStr (utf8_fix s)"
| "json_text (JArr xs) = JArr (map json_text xs)"
| "json_text (JObj kvs) = JObj (map (\<lambda>kv. (utf8_fix (fst kv), json_text (snd kv))) kvs)"

text \<open>
  \<^verbatim>\<open>json.Marshal\<close>: the JSON text of a value as a tree. Two encodings are the same text exactly
  when the trees are equal.
\<close>

definition Marshal :: "gval \<Rightarrow> json option" where
  "Marshal v = (case v of GNil \<Rightarrow> Some JNull | GVal j \<Rightarrow> Some (json_text j) | GBad \<Rightarrow> None)"

text \<open>
  Decoding an object into \<^verbatim>\<open>map[string]any\<close>: a later field replaces an earlier one of the same
  name, and the next encoding lists the keys in ascending order.
\<close>

fun obj_put :: "string \<Rightarrow> 'a \<Rightarrow> (string \<times> 'a) list \<Rightarrow> (string \<times> 'a) list" where
  "obj_put k v [] = [(k, v)]"
| "obj_put k v (kv # kvs) =
     (if fst kv < k then kv # obj_put k v kvs
      else if fst kv = k then (k, v) # kvs
      else (k, v) # kv # kvs)"

fun decoded :: "json \<Rightarrow> json" where
  "decoded (JArr xs) = JArr (map decoded xs)"
| "decoded (JObj kvs) =
     JObj (fold (\<lambda>kv. obj_put (fst kv) (snd kv)) (map (\<lambda>kv. (fst kv, decoded (snd kv))) kvs) [])"
| "decoded j = j"

definition Decode_any :: "json \<Rightarrow> gval" where
  "Decode_any j = (case j of JNull \<Rightarrow> GNil | _ \<Rightarrow> GVal (decoded j))"

subsection \<open>Numbers\<close>

definition digit :: "char \<Rightarrow> bool" where
  "digit c \<longleftrightarrow> 48 \<le> byte c \<and> byte c \<le> 57"

definition nat_of_digits :: "string \<Rightarrow> nat" where
  "nat_of_digits ds = foldl (\<lambda>n c. 10 * n + (byte c - 48)) 0 ds"

definition sign_split :: "string \<Rightarrow> bool \<times> string" where
  "sign_split s =
     (case s of [] \<Rightarrow> (False, [])
      | c # r \<Rightarrow> if c = CHR ''-'' then (True, r) else (False, s))"

definition exponent_of :: "string \<Rightarrow> int option" where
  "exponent_of s =
     (case s of [] \<Rightarrow> Some 0
      | c # r \<Rightarrow>
          if c = CHR ''e'' \<or> c = CHR ''E'' then
            (let (neg, ds) = (case r of [] \<Rightarrow> (False, [])
                 | d # ds \<Rightarrow> if d = CHR ''+'' then (False, ds) else sign_split r);
                 n = (if neg then - int (nat_of_digits ds) else int (nat_of_digits ds))
             in if ds = [] \<or> \<not> list_all digit ds \<or> n < - (2 ^ 63) \<or> 2 ^ 63 \<le> n then None else Some n)
          else None)"

text \<open>
  \<^verbatim>\<open>(*big.Rat).SetString\<close> on a JSON number. It refuses a number whose decimal exponent, less
  the digits of the fraction, is more than a million in absolute value.
\<close>

definition Rat_SetString :: "string \<Rightarrow> rat option" where
  "Rat_SetString s =
     (let (neg, r) = sign_split s;
          ip = takeWhile digit r; r = dropWhile digit r;
          (fp, r) = (case r of [] \<Rightarrow> ([], [])
             | c # q \<Rightarrow> if c = CHR ''.'' then (takeWhile digit q, dropWhile digit q) else ([], r));
          m = nat_of_digits (ip @ fp)
      in case exponent_of r of
           None \<Rightarrow> None
         | Some e \<Rightarrow>
             (let x = e - int (length fp)
              in if ip = [] then None
                 else if m = 0 then Some 0
                 else if 1000000 < \<bar>x\<bar> then None
                 else Some ((if neg then - of_nat m else of_nat m) *
                        (if 0 \<le> x then 10 ^ nat x else 1 / 10 ^ nat (- x)))))"

definition numeric :: "gval \<Rightarrow> rat option" where
  "numeric v = (case Marshal v of Some (JNum t) \<Rightarrow> Rat_SetString t | _ \<Rightarrow> None)"

definition equalAttribute :: "gval \<Rightarrow> gval \<Rightarrow> bool" where
  "equalAttribute a b =
     (case numeric a of
        Some x \<Rightarrow> (case numeric b of Some y \<Rightarrow> x = y | None \<Rightarrow> False)
      | None \<Rightarrow> (case (Marshal a, Marshal b) of (Some x, Some y) \<Rightarrow> x = y | _ \<Rightarrow> False))"

subsection \<open>Validation and cloning\<close>

definition value_is_list :: "gval \<Rightarrow> bool" where
  "value_is_list v = (case Marshal v of Some (JArr _) \<Rightarrow> True | _ \<Rightarrow> False)"

definition validCondition :: "condition \<Rightarrow> bool" where
  "validCondition c \<longleftrightarrow>
     \<not> blank (cond_Attribute c) \<and>
     \<not> (cond_OtherAttribute c \<noteq> [] \<and> cond_Value c \<noteq> GNil) \<and>
     (if cond_Operator c \<in> {''eq'', ''ne'', ''gt'', ''ge'', ''lt'', ''le''} then True
      else if cond_Operator c \<in> {''in'', ''not_in''} then
        (cond_OtherAttribute c = [] \<longrightarrow> value_is_list (cond_Value c))
      else if cond_Operator c \<in> {''exists'', ''not_exists''} then
        cond_Value c = GNil \<and> cond_OtherAttribute c = []
      else False) \<and>
     Marshal (cond_Value c) \<noteq> None"

definition validRule :: "policy_rule \<Rightarrow> bool" where
  "validRule rule \<longleftrightarrow>
     (rule_Effect rule = EffectAllow \<or> rule_Effect rule = EffectDeny) \<and>
     \<not> blank (rule_Resource rule) \<and> \<not> blank (rule_Action rule) \<and>
     list_all validCondition (rule_Conditions rule)"

definition validateRules :: "policy_rule list \<Rightarrow> err option" where
  "validateRules rules = (if list_all validRule rules then None else Some ErrInvalidPolicy)"

definition cloneCondition :: "condition \<Rightarrow> condition" where
  "cloneCondition c =
     \<lparr>cond_Attribute = utf8_fix (cond_Attribute c),
      cond_Operator = utf8_fix (cond_Operator c),
      cond_Value = (case Marshal (cond_Value c) of None \<Rightarrow> GBad | Some j \<Rightarrow> Decode_any j),
      cond_OtherAttribute = utf8_fix (cond_OtherAttribute c)\<rparr>"

definition cloneRule :: "policy_rule \<Rightarrow> policy_rule" where
  "cloneRule r =
     \<lparr>rule_Effect = utf8_fix (rule_Effect r),
      rule_Resource = utf8_fix (rule_Resource r),
      rule_Action = utf8_fix (rule_Action r),
      rule_Conditions = map cloneCondition (rule_Conditions r)\<rparr>"

text \<open>
  \<^verbatim>\<open>cloneRules\<close> encodes the list and decodes it again. After the validation every value has an
  encoding, so neither step fails (the \<open>GBad\<close> branch of \<open>cloneCondition\<close> is not reached).
\<close>

definition cloneRules :: "policy_rule list \<Rightarrow> err + policy_rule list" where
  "cloneRules rules =
     (case validateRules rules of Some e \<Rightarrow> Inl e | None \<Rightarrow> Inr (map cloneRule rules))"

subsection \<open>Evaluation of conditions\<close>

text \<open>The pair \<^verbatim>\<open>(match, known)\<close> of the code.\<close>

definition membership :: "gval \<Rightarrow> gval \<Rightarrow> (bool \<times> bool) \<Rightarrow> bool \<Rightarrow> bool \<times> bool" where
  "membership v expected unknown negate =
     (case Marshal expected of
        Some (JArr xs) \<Rightarrow>
          (let found = list_ex (\<lambda>j. equalAttribute v (Decode_any j)) xs
           in (if negate then \<not> found else found, True))
      | _ \<Rightarrow> unknown)"

definition comparison :: "gval \<Rightarrow> gval \<Rightarrow> (rat \<Rightarrow> rat \<Rightarrow> bool) \<Rightarrow> bool \<times> bool" where
  "comparison v expected cmp =
     (case (numeric v, numeric expected) of
        (Some x, Some y) \<Rightarrow> (cmp x y, True)
      | _ \<Rightarrow> (False, False))"

definition applyOperator :: "string \<Rightarrow> gval \<Rightarrow> gval \<Rightarrow> bool \<times> bool" where
  "applyOperator op v expected =
     (if op = ''eq'' then (equalAttribute v expected, True)
      else if op = ''ne'' then (\<not> equalAttribute v expected, True)
      else if op = ''in'' then membership v expected (False, False) False
      else if op = ''not_in'' then membership v expected (False, False) True
      else if op = ''gt'' then comparison v expected (\<lambda>x y. y < x)
      else if op = ''ge'' then comparison v expected (\<lambda>x y. y \<le> x)
      else if op = ''lt'' then comparison v expected (\<lambda>x y. x < y)
      else if op = ''le'' then comparison v expected (\<lambda>x y. x \<le> y)
      else (False, False))"

definition expectedValue :: "condition \<Rightarrow> attributes \<Rightarrow> gval option" where
  "expectedValue c attrs =
     (if cond_OtherAttribute c \<noteq> [] then fmlookup attrs (cond_OtherAttribute c)
      else Some (cond_Value c))"

definition conditionMatches :: "condition \<Rightarrow> attributes \<Rightarrow> bool \<times> bool" where
  "conditionMatches c attrs =
     (let found = fmlookup attrs (cond_Attribute c)
      in if (case found of Some v \<Rightarrow> Marshal v = None | None \<Rightarrow> False) then (False, False)
         else if cond_Operator c = ''exists'' then (found \<noteq> None, True)
         else if cond_Operator c = ''not_exists'' then (found = None, True)
         else (case found of
                 None \<Rightarrow> (False, False)
               | Some v \<Rightarrow>
                   (case expectedValue c attrs of
                      None \<Rightarrow> (False, False)
                    | Some expected \<Rightarrow>
                        if Marshal expected = None then (False, False)
                        else applyOperator (cond_Operator c) v expected)))"

text \<open>The loop of \<^verbatim>\<open>conditionsMatch\<close>, with its flag \<^verbatim>\<open>known\<close>.\<close>

fun conditionsLoop :: "condition list \<Rightarrow> attributes \<Rightarrow> bool \<Rightarrow> bool \<times> bool" where
  "conditionsLoop [] attrs known = (known, known)"
| "conditionsLoop (c # cs) attrs known =
     (let (match, certain) = conditionMatches c attrs
      in if certain \<and> \<not> match then (False, True)
         else conditionsLoop cs attrs (known \<and> certain))"

definition conditionsMatch :: "condition list \<Rightarrow> attributes \<Rightarrow> bool \<times> bool" where
  "conditionsMatch cs attrs = conditionsLoop cs attrs True"

subsection \<open>The decision of a condition list\<close>

text \<open>A condition that is not known does not match.\<close>

lemma applyOperator_known: "fst (applyOperator op v w) \<Longrightarrow> snd (applyOperator op v w)"
  by (auto simp: applyOperator_def membership_def comparison_def Let_def
      split: if_splits option.splits json.splits)

lemma conditionMatches_known:
  "fst (conditionMatches c attrs) \<Longrightarrow> snd (conditionMatches c attrs)"
  by (auto simp: conditionMatches_def Let_def dest: applyOperator_known
      split: if_splits option.splits)

lemma conditionsLoop_spec:
  "conditionsLoop cs attrs known =
     (if \<exists>c \<in> set cs. conditionMatches c attrs = (False, True) then (False, True)
      else let k = known \<and> (\<forall>c \<in> set cs. snd (conditionMatches c attrs)) in (k, k))"
proof (induction cs arbitrary: known)
  case Nil
  show ?case by simp
next
  case (Cons c cs)
  obtain m k where mk: "conditionMatches c attrs = (m, k)" by force
  then have "m \<Longrightarrow> k" using conditionMatches_known [of c attrs] by simp
  with mk show ?case by (auto simp: Cons.IH Let_def)
qed

lemma conditionsMatch_spec:
  "conditionsMatch cs attrs =
     (if \<exists>c \<in> set cs. conditionMatches c attrs = (False, True) then (False, True)
      else if \<forall>c \<in> set cs. snd (conditionMatches c attrs) then (True, True)
      else (False, False))"
  by (auto simp: conditionsMatch_def conditionsLoop_spec Let_def)

lemma conditionsMatch_True:
  "fst (conditionsMatch cs attrs) \<longleftrightarrow> (\<forall>c \<in> set cs. conditionMatches c attrs = (True, True))"
  by (auto simp: conditionsMatch_spec prod_eq_iff dest: conditionMatches_known)

text \<open>A missing fact is unknown to every operator but the two presence operators.\<close>

lemma conditionMatches_missing:
  assumes "fmlookup attrs (cond_Attribute c) = None"
  shows "conditionMatches c attrs =
    (if cond_Operator c = ''exists'' then (False, True)
     else if cond_Operator c = ''not_exists'' then (True, True) else (False, False))"
  using assms by (simp add: conditionMatches_def)

text \<open>So is a fact that has no JSON encoding, to every operator.\<close>

lemma conditionMatches_bad:
  assumes "fmlookup attrs (cond_Attribute c) = Some GBad"
  shows "conditionMatches c attrs = (False, False)"
  using assms by (simp add: conditionMatches_def Marshal_def)

subsection \<open>Equality of attribute values\<close>

lemma numeric_Marshal: "Marshal a = Marshal b \<Longrightarrow> numeric a = numeric b"
  by (simp add: numeric_def)

lemma numeric_Some: "numeric a = Some x \<Longrightarrow> Marshal a \<noteq> None"
  by (auto simp: numeric_def split: option.splits)

text \<open>
  \<^verbatim>\<open>equalAttribute\<close> is equality of a normal form: the rational a number denotes, the encoding of
  any other value.
\<close>

definition attribute_key :: "gval \<Rightarrow> (rat + json) option" where
  "attribute_key v =
     (case numeric v of Some x \<Rightarrow> Some (Inl x) | None \<Rightarrow> map_option Inr (Marshal v))"

lemma equalAttribute_key:
  "equalAttribute a b \<longleftrightarrow> attribute_key a \<noteq> None \<and> attribute_key a = attribute_key b"
proof (cases "numeric a")
  case None
  then show ?thesis
    using numeric_Marshal [of a b]
    by (auto simp: equalAttribute_def attribute_key_def split: option.splits)
next
  case (Some x)
  then show ?thesis
    by (cases "numeric b"; cases "Marshal b") (auto simp: equalAttribute_def attribute_key_def)
qed

lemma equalAttribute_refl: "Marshal a \<noteq> None \<Longrightarrow> equalAttribute a a"
  by (auto simp: equalAttribute_key attribute_key_def split: option.splits)

lemma equalAttribute_sym: "equalAttribute a b \<Longrightarrow> equalAttribute b a"
  by (metis equalAttribute_key)

lemma equalAttribute_trans: "equalAttribute a b \<Longrightarrow> equalAttribute b c \<Longrightarrow> equalAttribute a c"
  by (metis equalAttribute_key)

subsection \<open>Repaired strings\<close>

lemma rune_len_le: "rune_len s \<le> length s"
  by (induction s rule: rune_len.induct) (auto split: list.splits if_splits)

lemma rune_len_take:
  "0 < rune_len s \<Longrightarrow> rune_len (take (rune_len s) s @ t) = rune_len s"
  by (cases s rule: rune_len.cases) (auto split: list.splits if_splits)

lemma utf8_fix_rune:
  assumes "0 < rune_len s"
  shows "utf8_fix (take (rune_len s) s @ t) = take (rune_len s) s @ utf8_fix t"
proof -
  let ?n = "rune_len s"
  have len: "length (take ?n s) = ?n" using rune_len_le [of s] by simp
  have n: "rune_len (take ?n s @ t) = ?n" using assms by (rule rune_len_take)
  obtain c u where cu: "take ?n s @ t = c # u"
    using assms len by (cases "take ?n s @ t") auto
  have "utf8_fix (c # u) = take ?n (c # u) @ utf8_fix (drop ?n (c # u))"
    using n cu assms by (simp add: Let_def)
  moreover have "take ?n (c # u) = take ?n s" and "drop ?n (c # u) = t"
    using len unfolding cu [symmetric] by simp_all
  ultimately show ?thesis by (simp add: cu)
qed

lemma utf8_fix_replacement: "utf8_fix (bytes [0xEF, 0xBF, 0xBD] @ t) = bytes [0xEF, 0xBF, 0xBD] @ utf8_fix t"
proof -
  have "rune_len (bytes [0xEF, 0xBF, 0xBD]) = 3" by code_simp
  then show ?thesis
    using utf8_fix_rune [of "bytes [0xEF, 0xBF, 0xBD]" t] by (simp add: bytes_def)
qed

lemma utf8_fix_idem [simp]: "utf8_fix (utf8_fix s) = utf8_fix s"
proof (induction s rule: utf8_fix.induct)
  case 1
  show ?case by simp
next
  case (2 c s)
  show ?case
  proof (cases "rune_len (c # s) = 0")
    case True
    with 2 show ?thesis by (simp add: Let_def utf8_fix_replacement)
  next
    case False
    let ?n = "rune_len (c # s)"
    have "utf8_fix (c # s) = take ?n (c # s) @ utf8_fix (drop ?n (c # s))"
      using False by (simp add: Let_def)
    moreover have "utf8_fix (utf8_fix (drop ?n (c # s))) = utf8_fix (drop ?n (c # s))"
      using "2.IH"(2) [OF refl False] by simp
    ultimately show ?thesis
      using False utf8_fix_rune [of "c # s" "utf8_fix (drop ?n (c # s))"] by simp
  qed
qed

lemma utf8_fix_Nil_iff [simp]: "utf8_fix s = [] \<longleftrightarrow> s = []"
  by (cases s) (auto simp: Let_def bytes_def)


text \<open>The repair neither creates nor removes white space at the ends.\<close>

lemma space_runes_start: "\<forall>p \<in> set space_runes. p \<noteq> [] \<and> hd p \<noteq> char_of (0xEF :: nat)"
  by code_simp

lemma space_runes_len: "\<forall>p \<in> set space_runes. rune_len p = length p"
  by code_simp

lemma rune_len_space:
  assumes "p \<in> set space_runes"
  shows "rune_len (p @ t) = length p" and "0 < length p"
  using assms space_runes_start space_runes_len rune_len_take [of p t] by auto

lemma find_space:
  assumes "x \<in> set space_runes"
  shows "find (\<lambda>p. p \<noteq> [] \<and> HasPrefix (x @ t) p) space_runes = Some x"
proof -
  let ?P = "\<lambda>p. p \<noteq> [] \<and> HasPrefix (x @ t) p"
  have "find ?P space_runes \<noteq> None"
    using assms rune_len_space(2) [OF assms] by (auto simp: find_None_iff)
  then obtain p where p: "find ?P space_runes = Some p" by blast
  then have mem: "p \<in> set space_runes" and "?P p"
    by (auto simp: find_Some_iff)
  then obtain r where r: "x @ t = p @ r" by (auto simp: HasPrefix_iff)
  then have "length p = length x"
    using rune_len_space(1) [OF assms, of t] rune_len_space(1) [OF mem, of r] by simp
  with r p show ?thesis by (metis append_eq_append_conv)
qed

lemma trim_left_space:
  "x \<in> set space_runes \<Longrightarrow> trim_left space_runes (x @ t) = trim_left space_runes t"
  by (simp add: trim_left.simps [of space_runes "x @ t"] find_space)

lemma blank_utf8_fix: "blank (utf8_fix s) \<Longrightarrow> blank s"
proof (induction s rule: utf8_fix.induct)
  case 1
  show ?case by simp
next
  case (2 c s)
  let ?n = "rune_len (c # s)"
  let ?x = "take ?n (c # s)"
  show ?case
  proof (cases "?n = 0")
    case True
    let ?t = "bytes [0xEF, 0xBF, 0xBD] @ utf8_fix s"
    have "find (\<lambda>p. p \<noteq> [] \<and> HasPrefix ?t p) space_runes = None"
      using space_runes_start by (auto simp: find_None_iff HasPrefix_def bytes_def take_Cons'
          neq_Nil_conv split: if_splits)
    then have "trim_left space_runes ?t = ?t"
      by (simp add: trim_left.simps [of space_runes ?t])
    with "2.prems" True show ?thesis by (simp add: Let_def blank_iff bytes_def)
  next
    case False
    let ?t = "utf8_fix (drop ?n (c # s))"
    have repaired: "utf8_fix (c # s) = ?x @ ?t" using False by (simp add: Let_def)
    have len: "length ?x = ?n" using rune_len_le [of "c # s"] by simp
    have "trim_left space_runes (?x @ ?t) = []"
      using "2.prems" repaired by (simp add: blank_iff)
    moreover have "?x @ ?t \<noteq> []" using False by simp
    ultimately obtain p where p: "p \<in> set space_runes" and "HasPrefix (?x @ ?t) p"
      by (rule trim_left_find)
    then obtain r where r: "?x @ ?t = p @ r" by (auto simp: HasPrefix_iff)
    have "length p = ?n"
      using rune_len_space(1) [OF p, of r] rune_len_take [of "c # s" ?t] False r by simp
    with r len have "p = ?x" by (metis append_eq_append_conv)
    with p have x: "?x \<in> set space_runes" by simp
    have "blank ?t" using "2.prems" repaired trim_left_space [OF x, of ?t] by (simp add: blank_iff)
    then have "blank (drop ?n (c # s))" using "2.IH"(2) [OF refl False] by blast
    then show ?thesis
      using trim_left_space [OF x, of "drop ?n (c # s)"] by (simp add: blank_iff)
  qed
qed


subsection \<open>A cloned rule list is valid and is its own clone\<close>

lemma json_text_idem [simp]: "json_text (json_text j) = json_text j"
  by (induction j) auto

lemma set_obj_put: "set (obj_put k v kvs) \<subseteq> insert (k, v) (set kvs)"
  by (induction kvs) auto

lemma set_fold_obj_put:
  "set (fold (\<lambda>kv. obj_put (fst kv) (snd kv)) kvs acc) \<subseteq> set kvs \<union> set acc"
proof (induction kvs arbitrary: acc)
  case Nil
  then show ?case by simp
next
  case (Cons kv kvs)
  then show ?case using set_obj_put [of "fst kv" "snd kv" acc] by fastforce
qed

lemma fold_obj_put_in:
  "x \<in> set (fold (\<lambda>kv. obj_put (fst kv) (snd kv)) kvs []) \<Longrightarrow> x \<in> set kvs"
  using set_fold_obj_put [of kvs "[]"] by auto

lemma obj_put_keys: "fst ` set (obj_put k v kvs) = insert k (fst ` set kvs)"
  by (induction kvs) auto

lemma sorted_obj_put:
  "sorted_wrt (<) (map fst kvs) \<Longrightarrow> sorted_wrt (<) (map fst (obj_put k v kvs))"
proof (induction kvs)
  case Nil
  then show ?case by simp
next
  case (Cons kv kvs)
  have "\<forall>x \<in> set (obj_put k v kvs). fst kv < fst x" if "fst kv < k"
    using that Cons.prems set_obj_put [of k v kvs] by fastforce
  with Cons show ?case by (auto intro: less_trans)
qed

lemma sorted_fold_obj_put:
  "sorted_wrt (<) (map fst acc) \<Longrightarrow>
     sorted_wrt (<) (map fst (fold (\<lambda>kv. obj_put (fst kv) (snd kv)) kvs acc))"
  by (induction kvs arbitrary: acc) (auto simp: sorted_obj_put)

lemma obj_put_last: "\<forall>x \<in> set kvs. fst x < k \<Longrightarrow> obj_put k v kvs = kvs @ [(k, v)]"
  by (induction kvs) auto

lemma fold_obj_put_sorted:
  "sorted_wrt (<) (map fst (acc @ kvs)) \<Longrightarrow>
     fold (\<lambda>kv. obj_put (fst kv) (snd kv)) kvs acc = acc @ kvs"
proof (induction kvs arbitrary: acc)
  case Nil
  then show ?case by simp
next
  case (Cons kv kvs)
  then have "obj_put (fst kv) (snd kv) acc = acc @ [kv]"
    by (subst obj_put_last) (auto simp: sorted_wrt_append)
  with Cons show ?case by simp
qed

lemma json_text_decoded: "json_text j = j \<Longrightarrow> json_text (decoded j) = decoded j"
proof (induction j)
  case (JArr xs)
  then show ?case by (auto simp: list_eq_iff_nth_eq)
next
  case (JObj kvs)
  let ?vs = "map (\<lambda>kv. (fst kv, decoded (snd kv))) kvs"
  let ?ws = "fold (\<lambda>kv. obj_put (fst kv) (snd kv)) ?vs []"
  have fixed: "(utf8_fix (fst x), json_text (snd x)) = x" if "x \<in> set kvs" for x
    using JObj.prems that map_fixD [of "\<lambda>kv. (utf8_fix (fst kv), json_text (snd kv))" kvs] by simp
  have "(utf8_fix (fst x), json_text (snd x)) = x" if "x \<in> set ?vs" for x
  proof -
    from that obtain kv where kv: "kv \<in> set kvs" and x: "x = (fst kv, decoded (snd kv))" by auto
    have "utf8_fix (fst kv) = fst kv" and "json_text (snd kv) = snd kv"
      using fixed [OF kv] by (simp_all add: prod_eq_iff)
    moreover have "json_text (snd kv) = snd kv \<Longrightarrow> json_text (decoded (snd kv)) = decoded (snd kv)"
      using JObj.IH kv by (metis prod_set_simps(2) prod.collapse singletonI snds.intros)
    ultimately show ?thesis by (simp add: x)
  qed
  then have "map (\<lambda>x. (utf8_fix (fst x), json_text (snd x))) ?ws = ?ws"
    by (intro map_idI) (blast dest: fold_obj_put_in)
  then show ?case by simp
qed auto

lemma decoded_idem: "decoded (decoded j) = decoded j"
proof (induction j)
  case (JObj kvs)
  let ?vs = "map (\<lambda>kv. (fst kv, decoded (snd kv))) kvs"
  let ?ws = "fold (\<lambda>kv. obj_put (fst kv) (snd kv)) ?vs []"
  have "(fst x, decoded (snd x)) = x" if "x \<in> set ?vs" for x
  proof -
    from that obtain kv where kv: "kv \<in> set kvs" and x: "x = (fst kv, decoded (snd kv))" by auto
    have "decoded (decoded (snd kv)) = decoded (snd kv)"
      using JObj.IH kv by (metis prod_set_simps(2) prod.collapse singletonI snds.intros)
    then show ?thesis by (simp add: x)
  qed
  then have "map (\<lambda>x. (fst x, decoded (snd x))) ?ws = ?ws"
    by (intro map_idI) (blast dest: fold_obj_put_in)
  moreover have "fold (\<lambda>kv. obj_put (fst kv) (snd kv)) ?ws [] = ?ws"
    using fold_obj_put_sorted [of "[]" ?ws] sorted_fold_obj_put [of "[]" ?vs] by simp
  ultimately show ?case by simp
qed auto

lemma Marshal_Decode_any: "Marshal v = Some j \<Longrightarrow> Marshal (Decode_any j) = Some (decoded j)"
proof -
  assume "Marshal v = Some j"
  then have "json_text j = j" by (auto simp: Marshal_def split: gval.splits)
  then show ?thesis
    using json_text_decoded [of j] by (cases j) (auto simp: Decode_any_def Marshal_def)
qed

lemma Decode_any_eq: "Decode_any j = (if j = JNull then GNil else GVal (decoded j))"
  by (cases j) (simp_all add: Decode_any_def)

lemma decoded_JNull: "decoded j = JNull \<longleftrightarrow> j = JNull"
  by (cases j) simp_all

lemma Decode_any_decoded: "Decode_any (decoded j) = Decode_any j"
  by (simp only: Decode_any_eq decoded_JNull decoded_idem)

lemma cloneCondition_idem:
  "Marshal (cond_Value c) \<noteq> None \<Longrightarrow> cloneCondition (cloneCondition c) = cloneCondition c"
  by (auto simp: cloneCondition_def Marshal_Decode_any Decode_any_decoded)

definition policy_words :: "string list" where
  "policy_words = [''eq'', ''ne'', ''gt'', ''ge'', ''lt'', ''le'', ''in'', ''not_in'', ''exists'',
     ''not_exists'', ''allow'', ''deny'']"

lemma utf8_fix_ascii: "list_all (\<lambda>c. byte c < 0x80) s \<Longrightarrow> utf8_fix s = s"
  by (induction s) (auto simp: Let_def)

lemma policy_words_ascii: "\<forall>op \<in> set policy_words. list_all (\<lambda>c. byte c < 0x80) op"
  unfolding policy_words_def by (simp add: byte_def)

lemma policy_words_fix: "\<forall>op \<in> set policy_words. utf8_fix op = op"
  using policy_words_ascii utf8_fix_ascii by blast

lemma operator_fix: "op \<in> set policy_words \<Longrightarrow> utf8_fix op = op"
  using policy_words_fix by (rule bspec)

lemma effect_fix [simp]: "utf8_fix EffectAllow = EffectAllow" "utf8_fix EffectDeny = EffectDeny"
proof -
  have "EffectAllow \<in> set policy_words" "EffectDeny \<in> set policy_words"
    by (simp_all add: policy_words_def EffectAllow_def EffectDeny_def)
  then show "utf8_fix EffectAllow = EffectAllow" "utf8_fix EffectDeny = EffectDeny"
    by (simp_all only: operator_fix)
qed

lemma validCondition_clone: "validCondition c \<Longrightarrow> validCondition (cloneCondition c)"
proof -
  assume valid: "validCondition c"
  then obtain j where j: "Marshal (cond_Value c) = Some j" by (auto simp: validCondition_def)
  have op: "utf8_fix (cond_Operator c) = cond_Operator c"
    using valid by (intro operator_fix) (auto simp: validCondition_def policy_words_def split: if_splits)
  have val: "cond_Value (cloneCondition c) = Decode_any j"
    using j by (simp add: cloneCondition_def)
  have nil: "cond_Value c = GNil \<Longrightarrow> Decode_any j = GNil"
    using j by (auto simp: Marshal_def Decode_any_def)
  have lst: "value_is_list (cond_Value c) \<Longrightarrow> value_is_list (Decode_any j)"
    using j Marshal_Decode_any [OF j] by (auto simp: value_is_list_def split: json.splits)
  show ?thesis
    using valid op nil lst Marshal_Decode_any [OF j] blank_utf8_fix [of "cond_Attribute c"]
    by (auto simp: validCondition_def cloneCondition_def j split: if_splits)
qed

lemma validRule_clone: "validRule r \<Longrightarrow> validRule (cloneRule r)"
  by (auto simp: validRule_def cloneRule_def list_all_iff validCondition_clone dest: blank_utf8_fix)

lemma cloneRule_idem: "validRule r \<Longrightarrow> cloneRule (cloneRule r) = cloneRule r"
  by (auto simp: cloneRule_def validRule_def validCondition_def list_all_iff cloneCondition_idem)

lemma cloneRules_Inr:
  "cloneRules rules = Inr c \<longleftrightarrow> list_all validRule rules \<and> c = map cloneRule rules"
  by (auto simp: cloneRules_def validateRules_def)

lemma cloneRules_stable:
  assumes "cloneRules rules = Inr c"
  shows "list_all validRule c" and "cloneRules c = Inr c"
proof -
  show "list_all validRule c"
    using assms by (auto simp: cloneRules_Inr list_all_iff validRule_clone)
  then show "cloneRules c = Inr c"
    using assms by (auto simp: cloneRules_Inr list_all_iff cloneRule_idem)
qed

end
