(* ===== verification/Store.thy ===== *)
theory Store
  imports Hierarchy Policy
begin

text \<open>
  The interfaces of \<^verbatim>\<open>store.go\<close>, \<^verbatim>\<open>policy.go\<close> and \<^verbatim>\<open>batch.go\<close> that a persistence backend
  implements: \<^verbatim>\<open>Store\<close>, and the optional interfaces an Enforcer finds by a type assertion. A
  backend with state \<^typ>\<open>'s\<close> is a record of operations; an optional interface that it does not
  implement is \<^term>\<open>None\<close>.
\<close>

type_synonym 's mutation = "'s \<Rightarrow> 's \<times> err option"

record 's rule_store =
  rs_SetRoleRules :: "ctx \<Rightarrow> string \<Rightarrow> policy_rule list \<Rightarrow> 's mutation"
  rs_GetRoleRules :: "ctx \<Rightarrow> string \<Rightarrow> 's \<Rightarrow> err + policy_rule list"

record 's metadata_store =
  md_SetRoleMetadata :: "ctx \<Rightarrow> string \<Rightarrow> (string, string) fmap \<Rightarrow> 's mutation"
  md_GetRoleMetadata :: "ctx \<Rightarrow> string \<Rightarrow> 's \<Rightarrow> err + (string, string) fmap"

record 's policy_versioner =
  pv_Current :: "ctx \<Rightarrow> 's \<Rightarrow> err + 64 word"
  pv_Next :: "ctx \<Rightarrow> 's \<Rightarrow> 's \<times> (err + 64 word)"

record 's store_ops =
  so_AddRole :: "ctx \<Rightarrow> role \<Rightarrow> 's mutation"
  so_Getter :: "ctx \<Rightarrow> 's \<Rightarrow> getter"
  so_AssignRole :: "ctx \<Rightarrow> string \<Rightarrow> string \<Rightarrow> 's mutation"
  so_GetRoles :: "ctx \<Rightarrow> string \<Rightarrow> 's \<Rightarrow> err + string list"
  so_DeleteRole :: "(ctx \<Rightarrow> string \<Rightarrow> 's mutation) option"
  so_UnassignRole :: "(ctx \<Rightarrow> string \<Rightarrow> string \<Rightarrow> 's mutation) option"
  so_ListRoles :: "(ctx \<Rightarrow> 's \<Rightarrow> err + role list) option"
  so_ListRolesByPrefix :: "(ctx \<Rightarrow> string \<Rightarrow> 's \<Rightarrow> err + role list) option"
  so_UpdateRole :: "(ctx \<Rightarrow> role \<Rightarrow> 's mutation) option"
  so_RuleStore :: "'s rule_store option"
  so_MetadataStore :: "'s metadata_store option"
  so_ApplyPolicyBatch :: "(ctx \<Rightarrow> policy_batch \<Rightarrow> 's mutation) option"
  so_PolicyVersioner :: "'s policy_versioner option"

subsection \<open>Batches over a store\<close>

definition validateBatch :: "ctx \<Rightarrow> policy_batch \<Rightarrow> err option" where
  "validateBatch cx batch =
     (if \<not> list_all validRole (pb_Register batch @ pb_Update batch) then Some ErrInvalidRole
      else case forE (\<lambda>name _. case fmlookup (pb_RuleUpdates batch) name of
                     None \<Rightarrow> Inr ()
                   | Some rules \<Rightarrow>
                       (case validateRules rules of Some e \<Rightarrow> Inl e | None \<Rightarrow> Inr ()))
                 (cx_range cx (fmdom (pb_RuleUpdates batch))) () of
             Inl e \<Rightarrow> Some e
           | Inr _ \<Rightarrow> None)"

text \<open>A type assertion on an optional interface, and the loop over the entries that need it.\<close>

definition with_interface ::
  "'i option \<Rightarrow> ('i \<Rightarrow> 'a \<Rightarrow> 's mutation) \<Rightarrow> 'a list \<Rightarrow> 's mutation" where
  "with_interface i f xs s =
     (if xs = [] then (s, None)
      else case i of None \<Rightarrow> (s, Some ErrUnsupported) | Some ops \<Rightarrow> forS (f ops) xs s)"

text \<open>
  \<^verbatim>\<open>for name, value := range m\<close>: the entries in the order the runtime picks.
\<close>

definition ranged :: "ctx \<Rightarrow> (string, 'v) fmap \<Rightarrow> (string \<times> 'v) list" where
  "ranged cx m = List.map_filter
     (\<lambda>k. map_option (Pair k) (fmlookup m k)) (cx_range cx (fmdom m))"

definition applyBatch :: "'s store_ops \<Rightarrow> ctx \<Rightarrow> policy_batch \<Rightarrow> 's mutation" where
  "applyBatch ops cx batch s =
     (case validateBatch cx batch of Some e \<Rightarrow> (s, Some e) | None \<Rightarrow>
     (case cx_Err cx of Some e \<Rightarrow> (s, Some e) | None \<Rightarrow>
       andS (forS (so_AddRole ops cx) (pb_Register batch)) (
       andS (with_interface (so_UpdateRole ops) (\<lambda>u. u cx) (pb_Update batch)) (
       andS (with_interface (so_RuleStore ops)
               (\<lambda>rs (name, value). rs_SetRoleRules rs cx name value) (ranged cx (pb_RuleUpdates batch))) (
       andS (with_interface (so_MetadataStore ops)
               (\<lambda>md (name, value). md_SetRoleMetadata md cx name value) (ranged cx (pb_MetadataUpdates batch))) (
       andS (with_interface (so_UnassignRole ops)
               (\<lambda>u ra. u cx (ra_UserID ra) (ra_RoleName ra)) (pb_Unassign batch)) (
       andS (forS (\<lambda>ra. so_AssignRole ops cx (ra_UserID ra) (ra_RoleName ra)) (pb_Assign batch)) (
       andS (with_interface (so_DeleteRole ops) (\<lambda>d. d cx) (pb_Delete batch))
         (\<lambda>s. (s, cx_Err cx))))))))
       s))"

subsection \<open>Facts\<close>

lemma set_ranged:
  assumes "fair_range cx"
  shows "set (ranged cx m) = {(k, v). fmlookup m k = Some v}"
  using assms
  by (force simp: ranged_def fair_range_def List.map_filter_def fmlookup_dom_iff image_iff)

lemma validateBatch_None:
  assumes "fair_range cx" and "validateBatch cx batch = None"
  shows "role \<in> set (pb_Register batch) \<union> set (pb_Update batch) \<Longrightarrow> validRole role"
    and "fmlookup (pb_RuleUpdates batch) name = Some rules \<Longrightarrow> validateRules rules = None"
proof -
  show "validRole role" if "role \<in> set (pb_Register batch) \<union> set (pb_Update batch)"
    using assms that by (auto simp: validateBatch_def list_all_iff split: if_splits)
  show "validateRules rules = None" if rules: "fmlookup (pb_RuleUpdates batch) name = Some rules"
  proof -
    have "name \<in> set (cx_range cx (fmdom (pb_RuleUpdates batch)))"
      using assms(1) rules by (auto simp: fair_range_def intro: fmdomI)
    then show ?thesis
      using assms(2) rules forE_Inr
      by (fastforce simp: validateBatch_def split: if_splits sum.splits option.splits)
  qed
qed

text \<open>A predicate that every operation of a batch keeps is kept by the batch.\<close>

lemma keeps_with_interface [intro]:
  assumes "\<And>ops x. i = Some ops \<Longrightarrow> x \<in> set xs \<Longrightarrow> keeps P (f ops x)"
  shows "keeps P (with_interface i f xs)"
proof (cases "xs = [] \<or> i = None")
  case True
  then show ?thesis by (auto simp: with_interface_def keeps_def)
next
  case False
  then obtain ops where i: "i = Some ops" and "with_interface i f xs = forS (f ops) xs"
    by (auto simp: with_interface_def fun_eq_iff)
  with assms [OF i] show ?thesis by auto
qed

lemma keeps_applyBatch:
  assumes "\<And>r. keeps P (so_AddRole ops cx r)"
    and "\<And>u r. so_UpdateRole ops = Some u \<Longrightarrow> keeps P (u cx r)"
    and "\<And>rs n v. so_RuleStore ops = Some rs \<Longrightarrow> keeps P (rs_SetRoleRules rs cx n v)"
    and "\<And>md n v. so_MetadataStore ops = Some md \<Longrightarrow> keeps P (md_SetRoleMetadata md cx n v)"
    and "\<And>u x r. so_UnassignRole ops = Some u \<Longrightarrow> keeps P (u cx x r)"
    and "\<And>u r. keeps P (so_AssignRole ops cx u r)"
    and "\<And>d n. so_DeleteRole ops = Some d \<Longrightarrow> keeps P (d cx n)"
  shows "keeps P (applyBatch ops cx batch)"
  unfolding applyBatch_def
  by (intro keeps_case_option keeps_return keeps_andS keeps_forS keeps_with_interface)
    (auto intro: assms)

end
