(* ===== verification/Cache.thy ===== *)
theory Cache
  imports Policy
begin

text \<open>
  The lookup cache: the interfaces \<^verbatim>\<open>CacheBackend\<close> and \<^verbatim>\<open>GenerationCacheBackend\<close> of
  \<^verbatim>\<open>cache.go\<close>, what a client relies on, and the in-memory LRU cache. The LRU cache takes its mutex
  in every method, so a method is one step on its state.
\<close>

subsection \<open>The interfaces\<close>

text \<open>A cached value of type \<^verbatim>\<open>any\<close>: a permission set, or something another client stored.\<close>

datatype cache_value = Permissions permissionSet | OtherValue json

record 'c generations =
  cg_Generation :: "ctx \<Rightarrow> string \<Rightarrow> 'c \<Rightarrow> 'c \<times> string option"
  cg_SetIfGeneration :: "ctx \<Rightarrow> string \<Rightarrow> cache_value \<Rightarrow> string \<Rightarrow> 'c \<Rightarrow> 'c"

record 'c cache_ops =
  ca_Get :: "ctx \<Rightarrow> string \<Rightarrow> 'c \<Rightarrow> 'c \<times> cache_value option"
  ca_Set :: "ctx \<Rightarrow> string \<Rightarrow> cache_value \<Rightarrow> 'c \<Rightarrow> 'c"
  ca_Delete :: "ctx \<Rightarrow> string \<Rightarrow> 'c \<Rightarrow> 'c"
  ca_Flush :: "ctx \<Rightarrow> 'c \<Rightarrow> 'c"
  ca_FlushContext :: "('c \<Rightarrow> 'c \<times> err option) option"
  ca_Generations :: "'c generations option"

text \<open>
  What a client relies on. \<open>holds c k v\<close> bounds from above what the cache may answer: an entry may
  vanish at any time, but it never appears or changes unless a client set it, and it is gone after
  its key is deleted or the cache is flushed. A client sets permission sets only. A token is valid for a key until the next
  invalidation that covers the key.
\<close>

locale cache_backend =
  fixes ops :: "'c cache_ops"
    and fit :: "'c \<Rightarrow> bool"
    and holds :: "'c \<Rightarrow> string \<Rightarrow> cache_value \<Rightarrow> bool"
    and valid :: "'c \<Rightarrow> string \<Rightarrow> string \<Rightarrow> bool"
  assumes get_held: "fit c \<Longrightarrow> ca_Get ops cx k c = (c', Some v) \<Longrightarrow> holds c k v"
    and get_old: "fit c \<Longrightarrow> holds (fst (ca_Get ops cx k c)) k' v \<Longrightarrow> holds c k' v"
    and set_old: "fit c \<Longrightarrow> holds (ca_Set ops cx k (Permissions ps) c) k' v' \<Longrightarrow>
      (if k' = k then v' = Permissions ps else holds c k' v')"
    and delete_old: "fit c \<Longrightarrow> holds (ca_Delete ops cx k c) k' v \<Longrightarrow> k' \<noteq> k \<and> holds c k' v"
    and flush_all: "fit c \<Longrightarrow> \<not> holds (ca_Flush ops cx c) k v"
    and flush_context: "fit c \<Longrightarrow> ca_FlushContext ops = Some f \<Longrightarrow> \<not> holds (fst (f c)) k v"
    and token_old: "fit c \<Longrightarrow> ca_Generations ops = Some g \<Longrightarrow>
      holds (fst (cg_Generation g cx k c)) k' v \<Longrightarrow> holds c k' v"
    and token_valid: "fit c \<Longrightarrow> ca_Generations ops = Some g \<Longrightarrow>
      cg_Generation g cx k c = (c', Some t) \<Longrightarrow> valid c' k t"
    and set_if_old: "fit c \<Longrightarrow> ca_Generations ops = Some g \<Longrightarrow>
      holds (cg_SetIfGeneration g cx k (Permissions ps) t c) k' v' \<Longrightarrow>
      holds c k' v' \<or> (k' = k \<and> v' = Permissions ps \<and> valid c k t)"
    and delete_token: "fit c \<Longrightarrow> valid c k t \<Longrightarrow> \<not> valid (ca_Delete ops cx k c) k t"
    and flush_token: "fit c \<Longrightarrow> valid c k t \<Longrightarrow> \<not> valid (ca_Flush ops cx c) k t"
    and keeps_fit: "fit c \<Longrightarrow> fit (fst (ca_Get ops cx k c))" "fit c \<Longrightarrow> fit (ca_Set ops cx k v c)"
      "fit c \<Longrightarrow> fit (ca_Delete ops cx k c)" "fit c \<Longrightarrow> fit (ca_Flush ops cx c)"
      "fit c \<Longrightarrow> ca_FlushContext ops = Some f \<Longrightarrow> fit (fst (f c))"
      "fit c \<Longrightarrow> ca_Generations ops = Some g \<Longrightarrow> fit (fst (cg_Generation g cx k c))"
      "fit c \<Longrightarrow> ca_Generations ops = Some g \<Longrightarrow> fit (cg_SetIfGeneration g cx k v t c)"

subsection \<open>strconv.FormatUint\<close>

fun decimal :: "nat \<Rightarrow> string" where
  "decimal n = (if n < 10 then [char_of (48 + n)] else decimal (n div 10) @ [char_of (48 + n mod 10)])"

declare decimal.simps [simp del]

definition FormatUint :: "64 word \<Rightarrow> string" where
  "FormatUint w = decimal (unat w)"

lemma nat_of_decimal: "nat_of_digits (decimal n) = n"
proof (induction n rule: decimal.induct)
  case (1 n)
  have snoc: "nat_of_digits (ds @ [c]) = 10 * nat_of_digits ds + (byte c - 48)" for ds c
    by (simp add: nat_of_digits_def)
  have "byte (char_of (48 + d)) - 48 = d" if "d < 10" for d
    using that by (simp add: byte_def)
  then show ?case
    using "1.IH" by (subst decimal.simps) (simp add: snoc, simp add: nat_of_digits_def)
qed

lemma FormatUint_inject [simp]: "FormatUint v = FormatUint w \<longleftrightarrow> v = w"
  by (metis FormatUint_def nat_of_decimal unsigned_word_eqI)

subsection \<open>The in-memory LRU cache\<close>

text \<open>
  \<^verbatim>\<open>container/list\<close> with one element per entry: here \<open>order\<close> lists the entries from the front, and
  an element is known by its number. \<open>next_el\<close> is the next unused number.
\<close>

record lru_entry =
  le_key :: string
  le_value :: cache_value
  le_expires :: int

record lru =
  lru_generation :: "64 word"
  lru_cap :: int
  lru_ttl :: int
  lru_order :: "(nat \<times> lru_entry) list"
  lru_items :: "(string, nat) fmap"
  lru_next :: nat

definition five_minutes :: int where
  "five_minutes = 5 * 60 * 1000000000"

definition NewMemoryLRU :: "int \<Rightarrow> int \<Rightarrow> lru" where
  "NewMemoryLRU capacity ttl =
     \<lparr>lru_generation = 0, lru_cap = (if capacity \<le> 0 then 1024 else capacity),
      lru_ttl = (if ttl \<le> 0 then five_minutes else ttl),
      lru_order = [], lru_items = fmempty, lru_next = 0\<rparr>"

definition removeElement :: "nat option \<Rightarrow> lru \<Rightarrow> lru" where
  "removeElement el c =
     (case el of None \<Rightarrow> c
      | Some i \<Rightarrow>
          (case map_of (lru_order c) i of None \<Rightarrow> c
           | Some entry \<Rightarrow>
               c\<lparr>lru_order := filter (\<lambda>x. fst x \<noteq> i) (lru_order c),
                 lru_items := fmdrop (le_key entry) (lru_items c)\<rparr>))"

definition MoveToFront :: "nat \<Rightarrow> lru_entry \<Rightarrow> lru \<Rightarrow> lru" where
  "MoveToFront i entry c =
     c\<lparr>lru_order := (i, entry) # filter (\<lambda>x. fst x \<noteq> i) (lru_order c)\<rparr>"

definition lru_find :: "string \<Rightarrow> lru \<Rightarrow> (nat \<times> lru_entry) option" where
  "lru_find key c =
     (case fmlookup (lru_items c) key of None \<Rightarrow> None
      | Some i \<Rightarrow> map_option (Pair i) (map_of (lru_order c) i))"

definition lru_Get :: "ctx \<Rightarrow> string \<Rightarrow> lru \<Rightarrow> lru \<times> cache_value option" where
  "lru_Get cx key c =
     (case lru_find key c of None \<Rightarrow> (c, None)
      | Some (i, entry) \<Rightarrow>
          if cx_now cx > le_expires entry then (removeElement (Some i) c, None)
          else (MoveToFront i entry c, Some (le_value entry)))"

definition setLocked :: "ctx \<Rightarrow> string \<Rightarrow> cache_value \<Rightarrow> lru \<Rightarrow> lru" where
  "setLocked cx key value c =
     (case lru_find key c of
        Some (i, entry) \<Rightarrow>
          MoveToFront i (entry\<lparr>le_value := value, le_expires := cx_now cx + lru_ttl c\<rparr>) c
      | None \<Rightarrow>
          let i = lru_next c;
              c' = c\<lparr>lru_order := (i, \<lparr>le_key = key, le_value = value, le_expires = cx_now cx + lru_ttl c\<rparr>)
                                   # lru_order c,
                     lru_items := fmupd key i (lru_items c), lru_next := Suc i\<rparr>
          in if int (length (lru_order c')) > lru_cap c'
             then removeElement (Some (fst (last (lru_order c')))) c' else c')"

definition lru_Set :: "ctx \<Rightarrow> string \<Rightarrow> cache_value \<Rightarrow> lru \<Rightarrow> lru" where
  "lru_Set = setLocked"

definition lru_Delete :: "ctx \<Rightarrow> string \<Rightarrow> lru \<Rightarrow> lru" where
  "lru_Delete cx key c =
     (let c' = c\<lparr>lru_generation := lru_generation c + 1\<rparr>
      in case lru_find key c' of None \<Rightarrow> c' | Some (i, _) \<Rightarrow> removeElement (Some i) c')"

definition lru_Flush :: "ctx \<Rightarrow> lru \<Rightarrow> lru" where
  "lru_Flush cx c =
     c\<lparr>lru_generation := lru_generation c + 1, lru_order := [], lru_items := fmempty\<rparr>"

definition lru_Generation :: "ctx \<Rightarrow> string \<Rightarrow> lru \<Rightarrow> lru \<times> string option" where
  "lru_Generation cx key c = (c, Some (FormatUint (lru_generation c)))"

definition lru_SetIfGeneration :: "ctx \<Rightarrow> string \<Rightarrow> cache_value \<Rightarrow> string \<Rightarrow> lru \<Rightarrow> lru" where
  "lru_SetIfGeneration cx key value generation c =
     (if generation = FormatUint (lru_generation c) then setLocked cx key value c else c)"

definition lru_ops :: "lru cache_ops" where
  "lru_ops = \<lparr>ca_Get = lru_Get, ca_Set = lru_Set, ca_Delete = lru_Delete, ca_Flush = lru_Flush,
     ca_FlushContext = None,
     ca_Generations = Some \<lparr>cg_Generation = lru_Generation, cg_SetIfGeneration = lru_SetIfGeneration\<rparr>\<rparr>"

subsection \<open>The LRU cache as a list of entries\<close>

text \<open>
  The reference: a list of entries, most recently used first. Keys and element numbers are unique,
  \<^verbatim>\<open>items\<close> is the index of the list, and the list never exceeds the capacity.
\<close>

definition entries :: "lru \<Rightarrow> lru_entry list" where
  "entries c = map snd (lru_order c)"

definition indexed :: "lru \<Rightarrow> bool" where
  "indexed c \<longleftrightarrow>
     distinct (map fst (lru_order c)) \<and> (\<forall>x \<in> set (lru_order c). fst x < lru_next c) \<and>
     distinct (map le_key (entries c)) \<and>
     (\<forall>k i. fmlookup (lru_items c) k = Some i \<longleftrightarrow> (\<exists>e. (i, e) \<in> set (lru_order c) \<and> le_key e = k))"

definition lru_ok :: "lru \<Rightarrow> bool" where
  "lru_ok c \<longleftrightarrow> indexed c \<and> 0 < lru_cap c \<and> int (length (entries c)) \<le> lru_cap c"

definition without :: "string \<Rightarrow> lru_entry list \<Rightarrow> lru_entry list" where
  "without k es = filter (\<lambda>e. le_key e \<noteq> k) es"

definition entry_of :: "string \<Rightarrow> lru_entry list \<Rightarrow> lru_entry option" where
  "entry_of k es = find (\<lambda>e. le_key e = k) es"

lemma without_simps [simp]:
  "without k [] = []" "without k (e # es) = (if le_key e = k then without k es else e # without k es)"
  by (simp_all add: without_def)

lemma without_fresh: "k \<notin> le_key ` set es \<Longrightarrow> without k es = es"
  by (induction es) auto

lemma set_without [simp]: "set (without k es) = {e \<in> set es. le_key e \<noteq> k}"
  by (simp add: without_def)

lemma length_without: "length (without k es) \<le> length es"
  by (simp add: without_def)

lemma entry_of_Some: "entry_of k es = Some e \<Longrightarrow> e \<in> set es \<and> le_key e = k"
  by (auto simp: entry_of_def find_Some_iff)

lemma entry_of_None: "entry_of k es = None \<longleftrightarrow> k \<notin> le_key ` set es"
  by (auto simp: entry_of_def find_None_iff)

lemma entry_of_unique:
  "distinct (map le_key es) \<Longrightarrow> e \<in> set es \<Longrightarrow> entry_of (le_key e) es = Some e"
  by (induction es) (auto simp: entry_of_def)

lemma length_without_entry:
  "entry_of k es = Some e \<Longrightarrow> length (without k es) < length es"
  using length_filter_less [of e es] by (auto simp: without_def dest: entry_of_Some)

lemma indexedD:
  assumes "indexed c"
  shows "distinct (map fst (lru_order c))" "distinct (map le_key (entries c))"
    "x \<in> set (lru_order c) \<Longrightarrow> fst x < lru_next c"
    "fmlookup (lru_items c) k = Some i \<longleftrightarrow> (\<exists>e. (i, e) \<in> set (lru_order c) \<and> le_key e = k)"
  using assms unfolding indexed_def by blast+

text \<open>Two elements of the list are the same when their numbers or their keys are.\<close>

lemma indexed_same:
  assumes "indexed c" and "(i, e) \<in> set (lru_order c)" and "(j, f) \<in> set (lru_order c)"
  shows "i = j \<longleftrightarrow> le_key e = le_key f" and "i = j \<Longrightarrow> e = f"
proof -
  have inj: "inj_on fst (set (lru_order c))" "inj_on (le_key \<circ> snd) (set (lru_order c))"
    using indexedD(1,2) [OF assms(1)] by (auto simp: entries_def distinct_map)
  show "i = j \<longleftrightarrow> le_key e = le_key f"
    using inj_onD [OF inj(1) _ assms(2,3)] inj_onD [OF inj(2) _ assms(2,3)] by auto
  show "i = j \<Longrightarrow> e = f" using inj_onD [OF inj(1) _ assms(2,3)] by auto
qed

lemma map_of_order:
  "indexed c \<Longrightarrow> (i, e) \<in> set (lru_order c) \<Longrightarrow> map_of (lru_order c) i = Some e"
  by (rule map_of_is_SomeI [OF indexedD(1)])

lemma lru_find_iff:
  assumes "indexed c"
  shows "lru_find k c = Some (i, e) \<longleftrightarrow> (i, e) \<in> set (lru_order c) \<and> le_key e = k"
proof
  assume "lru_find k c = Some (i, e)"
  then have "fmlookup (lru_items c) k = Some i" and of: "map_of (lru_order c) i = Some e"
    by (auto simp: lru_find_def split: option.splits)
  then obtain f where f: "(i, f) \<in> set (lru_order c)" "le_key f = k"
    using indexedD(4) [OF assms] by blast
  with map_of_order [OF assms f(1)] of show "(i, e) \<in> set (lru_order c) \<and> le_key e = k" by simp
next
  assume e: "(i, e) \<in> set (lru_order c) \<and> le_key e = k"
  then have "fmlookup (lru_items c) k = Some i" using indexedD(4) [OF assms] by blast
  with e map_of_order [OF assms] show "lru_find k c = Some (i, e)" by (simp add: lru_find_def)
qed

lemma lru_find_entry:
  assumes "indexed c"
  shows "map_option snd (lru_find k c) = entry_of k (entries c)"
proof (cases "lru_find k c")
  case None
  then have "\<not> (\<exists>i e. (i, e) \<in> set (lru_order c) \<and> le_key e = k)"
    by (metis lru_find_iff [OF assms] option.distinct(1))
  then have "entry_of k (entries c) = None" by (force simp: entry_of_None entries_def)
  with None show ?thesis by simp
next
  case (Some ie)
  obtain i e where ie: "ie = (i, e)" by force
  with Some lru_find_iff [OF assms] have "e \<in> set (entries c)" and "le_key e = k"
    by (force simp: entries_def)+
  with entry_of_unique [OF indexedD(2) [OF assms]] Some ie show ?thesis by auto
qed

lemma filter_order:
  assumes "indexed c" and "(i, e) \<in> set (lru_order c)"
  shows "map snd (filter (\<lambda>x. fst x \<noteq> i) (lru_order c)) = without (le_key e) (entries c)"
proof -
  have "filter (\<lambda>x. fst x \<noteq> i) (lru_order c) = filter (\<lambda>x. le_key (snd x) \<noteq> le_key e) (lru_order c)"
    using indexed_same(1) [OF assms(1) _ assms(2)] by (intro filter_cong) auto
  then show ?thesis by (simp add: without_def entries_def filter_map comp_def)
qed

lemma removeElement_spec:
  assumes c: "indexed c" and e: "(i, e) \<in> set (lru_order c)"
  shows "indexed (removeElement (Some i) c)"
    and "entries (removeElement (Some i) c) = without (le_key e) (entries c)"
proof -
  have run: "removeElement (Some i) c = c\<lparr>lru_order := filter (\<lambda>x. fst x \<noteq> i) (lru_order c),
      lru_items := fmdrop (le_key e) (lru_items c)\<rparr>"
    by (simp add: removeElement_def map_of_order [OF c e])
  then show es: "entries (removeElement (Some i) c) = without (le_key e) (entries c)"
    using filter_order [OF c e] by (simp add: entries_def)
  have "distinct (map le_key (without k (entries c)))" for k
    using indexedD(2) [OF c] by (simp add: without_def distinct_map_filter)
  moreover have "fmlookup (fmdrop (le_key e) (lru_items c)) k = Some j \<longleftrightarrow>
      (\<exists>f. (j, f) \<in> set (filter (\<lambda>x. fst x \<noteq> i) (lru_order c)) \<and> le_key f = k)" for k j
    using indexedD(4) [OF c, of k j] indexed_same(1) [OF c _ e] by auto
  ultimately show "indexed (removeElement (Some i) c)"
    using c unfolding indexed_def es by (auto simp: run distinct_map_filter)
qed

lemma MoveToFront_spec:
  assumes c: "indexed c" and e: "(i, e) \<in> set (lru_order c)" and key: "le_key f = le_key e"
  shows "indexed (MoveToFront i f c)" and "entries (MoveToFront i f c) = f # without (le_key e) (entries c)"
proof -
  show es: "entries (MoveToFront i f c) = f # without (le_key e) (entries c)"
    using filter_order [OF c e] by (simp add: entries_def MoveToFront_def)
  have "distinct (map le_key (f # without (le_key e) (entries c)))"
    using indexedD(2) [OF c] key by (auto simp: without_def distinct_map_filter)
  moreover have "fmlookup (lru_items c) k = Some j \<longleftrightarrow>
      (\<exists>g. (j, g) \<in> set ((i, f) # filter (\<lambda>x. fst x \<noteq> i) (lru_order c)) \<and> le_key g = k)" for k j
  proof (cases "j = i")
    case True
    have "g = e" if "(i, g) \<in> set (lru_order c)" for g
      using indexed_same(2) [OF c that e] by simp
    with e have "(\<exists>g. (i, g) \<in> set (lru_order c) \<and> le_key g = k) \<longleftrightarrow> le_key e = k" by blast
    with True key indexedD(4) [OF c, of k i] show ?thesis by auto
  next
    case False
    with indexedD(4) [OF c, of k j] show ?thesis by auto
  qed
  ultimately show "indexed (MoveToFront i f c)"
    using c e unfolding indexed_def es
    by (auto simp: MoveToFront_def distinct_map_filter dest: indexedD(3) [OF c])
qed

text \<open>
  A new entry that exceeds the capacity evicts the last entry of the list, the least recently used.
\<close>

definition insert_new :: "string \<Rightarrow> cache_value \<Rightarrow> int \<Rightarrow> lru \<Rightarrow> lru" where
  "insert_new k v t c =
     c\<lparr>lru_order := (lru_next c, \<lparr>le_key = k, le_value = v, le_expires = t\<rparr>) # lru_order c,
       lru_items := fmupd k (lru_next c) (lru_items c), lru_next := Suc (lru_next c)\<rparr>"

lemma insert_new_spec:
  assumes c: "indexed c" and fresh: "k \<notin> le_key ` set (entries c)"
  shows "indexed (insert_new k v t c)"
    and "entries (insert_new k v t c) = \<lparr>le_key = k, le_value = v, le_expires = t\<rparr> # entries c"
proof -
  show es: "entries (insert_new k v t c) = \<lparr>le_key = k, le_value = v, le_expires = t\<rparr> # entries c"
    by (simp add: entries_def insert_new_def)
  have order: "lru_order (insert_new k v t c) = (lru_next c, \<lparr>le_key = k, le_value = v, le_expires = t\<rparr>) # lru_order c"
    and items: "lru_items (insert_new k v t c) = fmupd k (lru_next c) (lru_items c)"
    and nxt: "lru_next (insert_new k v t c) = Suc (lru_next c)"
    by (simp_all add: insert_new_def)
  have new: "(lru_next c, e) \<notin> set (lru_order c)" for e
    using indexedD(3) [OF c] by force
  have keys: "(i, e) \<in> set (lru_order c) \<Longrightarrow> le_key e \<noteq> k" for i e
    using fresh by (force simp: entries_def)
  have "fmlookup (fmupd k (lru_next c) (lru_items c)) k' = Some i \<longleftrightarrow>
      (\<exists>e. (i, e) \<in> set (lru_order (insert_new k v t c)) \<and> le_key e = k')" for k' i
    using indexedD(4) [OF c, of k' i] new keys by (auto simp: order)
  moreover have "distinct (map fst (lru_order (insert_new k v t c)))"
    using indexedD(1) [OF c] new by (auto simp: order)
  moreover have "distinct (map le_key (entries (insert_new k v t c)))"
    using indexedD(2) [OF c] fresh by (auto simp: es)
  moreover have "\<forall>x \<in> set (lru_order (insert_new k v t c)). fst x < Suc (lru_next c)"
    using indexedD(3) [OF c] by (auto simp: order less_Suc_eq)
  ultimately show "indexed (insert_new k v t c)"
    unfolding indexed_def items nxt by blast
qed

lemma without_last:
  assumes "distinct (map le_key es)" and "es \<noteq> []"
  shows "without (le_key (last es)) es = butlast es"
proof -
  from assms(2) obtain xs x where es: "es = xs @ [x]" by (metis rev_exhaust)
  with assms(1) have "without (le_key x) xs = xs" by (intro without_fresh) auto
  then show ?thesis by (simp add: es without_def)
qed

lemma lru_find_entries:
  assumes "indexed c" and "lru_find k c = Some (i, e)"
  shows "(i, e) \<in> set (lru_order c)" and "le_key e = k" and "entry_of k (entries c) = Some e"
  using lru_find_iff [OF assms(1)] lru_find_entry [OF assms(1), of k] assms(2) by auto

lemma setLocked_spec:
  assumes ok: "lru_ok c"
  shows "lru_ok (setLocked cx k v c)"
    and "entries (setLocked cx k v c) =
      take (nat (lru_cap c)) (\<lparr>le_key = k, le_value = v, le_expires = cx_now cx + lru_ttl c\<rparr> # without k (entries c))"
proof -
  let ?e = "\<lparr>le_key = k, le_value = v, le_expires = cx_now cx + lru_ttl c\<rparr>"
  let ?n = "nat (lru_cap c)"
  have c: "indexed c" and cap: "0 < lru_cap c" and len: "length (entries c) \<le> ?n"
    using ok by (auto simp: lru_ok_def)
  have "lru_ok (setLocked cx k v c) \<and> entries (setLocked cx k v c) = take ?n (?e # without k (entries c))"
  proof (cases "lru_find k c")
    case (Some ie)
    obtain i e where ie: "ie = (i, e)" by force
    note found = lru_find_entries [OF c Some [unfolded ie]]
    have "e\<lparr>le_value := v, le_expires := cx_now cx + lru_ttl c\<rparr> = ?e"
      using found(2) by (cases e) simp
    with Some ie have run: "setLocked cx k v c = MoveToFront i ?e c" by (simp add: setLocked_def)
    have "length (without k (entries c)) < length (entries c)"
      using length_without_entry [OF found(3)] .
    with MoveToFront_spec [OF c found(1), of ?e] found(2) len cap run show ?thesis
      by (auto simp: lru_ok_def MoveToFront_def)
  next
    case None
    then have fresh: "k \<notin> le_key ` set (entries c)"
      using lru_find_entry [OF c, of k] by (simp flip: entry_of_None)
    let ?c = "insert_new k v (cx_now cx + lru_ttl c) c"
    note new = insert_new_spec [OF c fresh, of v "cx_now cx + lru_ttl c"]
    have caps: "lru_cap ?c = lru_cap c" by (simp add: insert_new_def)
    have size: "length (lru_order ?c) = length (entries ?c)" by (simp add: entries_def)
    have run: "setLocked cx k v c =
        (if int (length (entries ?c)) > lru_cap c then removeElement (Some (fst (last (lru_order ?c)))) ?c else ?c)"
      using None by (simp add: setLocked_def Let_def insert_new_def entries_def)
    show ?thesis
    proof (cases "int (length (entries ?c)) > lru_cap c")
      case False
      with run new caps cap show ?thesis
        by (auto simp: lru_ok_def without_fresh [OF fresh] take_Cons')
    next
      case True
      let ?x = "last (lru_order ?c)"
      have x: "(fst ?x, snd ?x) \<in> set (lru_order ?c)" by (simp add: insert_new_def)
      have last: "snd ?x = last (entries ?c)" by (simp add: entries_def insert_new_def last_map)
      note gone = removeElement_spec [OF new(1) x]
      have "entries (setLocked cx k v c) = butlast (entries ?c)"
        using True run gone(2) without_last [OF indexedD(2) [OF new(1)]] new(2) last by simp
      also have "\<dots> = take ?n (entries ?c)"
      proof -
        have "?n = length (entries c)" using True len new(2) by simp
        then show ?thesis using new(2) by (simp add: butlast_conv_take)
      qed
      finally have es: "entries (setLocked cx k v c) = take ?n (?e # without k (entries c))"
        using new(2) by (simp add: without_fresh [OF fresh])
      have "lru_cap (setLocked cx k v c) = lru_cap c"
        by (auto simp: run removeElement_def caps split: option.splits)
      with es gone(1) True run cap show ?thesis by (auto simp: lru_ok_def)
    qed
  qed
  then show "lru_ok (setLocked cx k v c)" and "entries (setLocked cx k v c) = take ?n (?e # without k (entries c))"
    by simp_all
qed

lemma lru_Get_spec:
  assumes ok: "lru_ok c"
  shows "lru_ok (fst (lru_Get cx k c))"
    and "entries (fst (lru_Get cx k c)) =
      (case entry_of k (entries c) of None \<Rightarrow> entries c
       | Some e \<Rightarrow> if cx_now cx > le_expires e then without k (entries c) else e # without k (entries c))"
    and "snd (lru_Get cx k c) =
      (case entry_of k (entries c) of None \<Rightarrow> None
       | Some e \<Rightarrow> if cx_now cx > le_expires e then None else Some (le_value e))"
proof -
  have c: "indexed c" using ok by (simp add: lru_ok_def)
  let ?r = "lru_Get cx k c"
  let ?es = "case entry_of k (entries c) of None \<Rightarrow> entries c
       | Some e \<Rightarrow> if cx_now cx > le_expires e then without k (entries c) else e # without k (entries c)"
  let ?v = "case entry_of k (entries c) of None \<Rightarrow> None
       | Some e \<Rightarrow> if cx_now cx > le_expires e then None else Some (le_value e)"
  have "indexed (fst ?r) \<and> lru_cap (fst ?r) = lru_cap c \<and> entries (fst ?r) = ?es \<and> snd ?r = ?v \<and>
      length ?es \<le> length (entries c)"
  proof (cases "lru_find k c")
    case None
    then have "entry_of k (entries c) = None" using lru_find_entry [OF c, of k] by simp
    with None c show ?thesis by (simp add: lru_Get_def)
  next
    case (Some ie)
    obtain i e where ie: "ie = (i, e)" by force
    note found = lru_find_entries [OF c Some [unfolded ie]]
    have "lru_cap (removeElement (Some i) c) = lru_cap c"
      by (simp add: removeElement_def split: option.split)
    with Some ie removeElement_spec [OF c found(1)] MoveToFront_spec [OF c found(1) refl] found(2,3)
      length_without_entry [OF found(3)]
    show ?thesis by (auto simp: lru_Get_def MoveToFront_def)
  qed
  with ok show "lru_ok (fst ?r)" and "entries (fst ?r) = ?es" and "snd ?r = ?v"
    by (simp_all add: lru_ok_def)
qed

lemma lru_Delete_spec:
  assumes ok: "lru_ok c"
  shows "lru_ok (lru_Delete cx k c)"
    and "entries (lru_Delete cx k c) = without k (entries c)"
    and "lru_generation (lru_Delete cx k c) = lru_generation c + 1"
proof -
  let ?c = "c\<lparr>lru_generation := lru_generation c + 1\<rparr>"
  have c: "indexed ?c" and es: "entries ?c = entries c"
    using ok by (simp_all add: lru_ok_def indexed_def entries_def)
  let ?r = "lru_Delete cx k c"
  have "indexed ?r \<and> lru_cap ?r = lru_cap c \<and> entries ?r = without k (entries c) \<and>
      lru_generation ?r = lru_generation c + 1"
  proof (cases "lru_find k ?c")
    case None
    then have "entry_of k (entries c) = None" using lru_find_entry [OF c, of k] es by simp
    then have "without k (entries c) = entries c" by (intro without_fresh) (simp add: entry_of_None)
    with None c es show ?thesis by (simp add: lru_Delete_def)
  next
    case (Some ie)
    obtain i e where ie: "ie = (i, e)" by force
    note found = lru_find_entries [OF c Some [unfolded ie]]
    have "lru_cap (removeElement (Some i) ?c) = lru_cap c \<and>
        lru_generation (removeElement (Some i) ?c) = lru_generation c + 1"
      by (simp add: removeElement_def split: option.split)
    with Some ie removeElement_spec [OF c found(1)] found(2) es show ?thesis
      by (simp add: lru_Delete_def)
  qed
  with ok length_without [of k "entries c"]
  show "lru_ok ?r" and "entries ?r = without k (entries c)" and "lru_generation ?r = lru_generation c + 1"
    by (auto simp: lru_ok_def)
qed

lemma lru_Flush_spec:
  "lru_ok c \<Longrightarrow> lru_ok (lru_Flush cx c)" "entries (lru_Flush cx c) = []"
  "lru_generation (lru_Flush cx c) = lru_generation c + 1"
  by (auto simp: lru_ok_def indexed_def entries_def lru_Flush_def)

subsection \<open>The LRU cache is a cache backend\<close>

definition lru_holds :: "lru \<Rightarrow> string \<Rightarrow> cache_value \<Rightarrow> bool" where
  "lru_holds c k v \<longleftrightarrow> (\<exists>e \<in> set (entries c). le_key e = k \<and> le_value e = v)"

definition lru_valid :: "lru \<Rightarrow> string \<Rightarrow> string \<Rightarrow> bool" where
  "lru_valid c k token \<longleftrightarrow> token = FormatUint (lru_generation c)"

lemma lru_ops_sel [simp]:
  "ca_Get lru_ops = lru_Get" "ca_Set lru_ops = setLocked" "ca_Delete lru_ops = lru_Delete"
  "ca_Flush lru_ops = lru_Flush" "ca_FlushContext lru_ops = None"
  "ca_Generations lru_ops =
     Some \<lparr>cg_Generation = lru_Generation, cg_SetIfGeneration = lru_SetIfGeneration\<rparr>"
  by (simp_all add: lru_ops_def lru_Set_def)

lemma setLocked_holds:
  assumes "lru_ok c" and "lru_holds (setLocked cx k v c) k' v'"
  shows "if k' = k then v' = v else lru_holds c k' v'"
proof -
  from assms obtain e where "le_key e = k'" "le_value e = v'"
    and "e \<in> set (take (nat (lru_cap c))
      (\<lparr>le_key = k, le_value = v, le_expires = cx_now cx + lru_ttl c\<rparr> # without k (entries c)))"
    unfolding lru_holds_def setLocked_spec(2) [OF assms(1)] by blast
  then show ?thesis by (cases e) (force simp: lru_holds_def dest!: in_set_takeD)
qed

lemma lru_Get_holds:
  assumes "lru_ok c"
  shows "lru_holds (fst (lru_Get cx k c)) k' v \<Longrightarrow> lru_holds c k' v"
    and "lru_Get cx k c = (c', Some v) \<Longrightarrow> lru_holds c k v"
  using lru_Get_spec(2,3) [OF assms, of cx k]
  by (auto simp: lru_holds_def dest: entry_of_Some split: option.splits if_splits)

lemma word_succ_neq: "(w :: 64 word) + 1 \<noteq> w"
  by simp

interpretation lru: cache_backend lru_ops lru_ok lru_holds lru_valid
proof unfold_locales
  show "lru_ok c \<Longrightarrow> lru_holds (ca_Set lru_ops cx k (Permissions ps) c) k' v' \<Longrightarrow>
      if k' = k then v' = Permissions ps else lru_holds c k' v'" for c cx k ps k' v'
    using setLocked_holds by simp
  show "lru_ok c \<Longrightarrow> lru_holds (ca_Delete lru_ops cx k c) k' v \<Longrightarrow> k' \<noteq> k \<and> lru_holds c k' v" for c cx k k' v
    by (auto simp: lru_holds_def lru_Delete_spec(2))
  show "lru_ok c \<Longrightarrow> ca_Generations lru_ops = Some g \<Longrightarrow>
      lru_holds (cg_SetIfGeneration g cx k (Permissions ps) t c) k' v' \<Longrightarrow>
      lru_holds c k' v' \<or> (k' = k \<and> v' = Permissions ps \<and> lru_valid c k t)" for c cx k ps k' v' t g
    using setLocked_holds [of c cx k "Permissions ps" k' v']
    by (auto simp: lru_SetIfGeneration_def lru_valid_def split: if_splits)
  show "lru_ok c \<Longrightarrow> ca_Generations lru_ops = Some g \<Longrightarrow> lru_ok (cg_SetIfGeneration g cx k v t c)" for c cx k v t g
    by (auto simp: lru_SetIfGeneration_def setLocked_spec(1))
  show "lru_ok c \<Longrightarrow> \<not> lru_holds (ca_Flush lru_ops cx c) k v" for c cx k v
    by (simp add: lru_holds_def lru_Flush_spec)
qed (auto simp: lru_Get_holds lru_Get_spec(1) lru_Flush_spec lru_Generation_def lru_valid_def
    lru_Delete_spec(1,3) setLocked_spec(1))

lemma NewMemoryLRU_ok: "lru_ok (NewMemoryLRU capacity ttl)" "\<not> lru_holds (NewMemoryLRU capacity ttl) k v"
  by (auto simp: NewMemoryLRU_def lru_ok_def indexed_def entries_def lru_holds_def)

end
