(* ===== verification/Observability.thy ===== *)
theory Observability
  imports Store Cache
begin

text \<open>
  The Enforcer as a value: its configuration (\<^verbatim>\<open>enforcer.go\<close>, \<^verbatim>\<open>options.go\<close>), the state its
  calls change, and the bookkeeping of \<^verbatim>\<open>observability.go\<close> and \<^verbatim>\<open>logger.go\<close> that every
  decision and mutation runs: counters, audit events and warnings.

  The store has states \<^typ>\<open>'s\<close>, the cache \<^typ>\<open>'c\<close>, and everything else the Enforcer talks to
  (the audit sink, the policy-version source, the invalidator) shares a state \<^typ>\<open>'x\<close>.
\<close>

record metrics =
  mt_decisions :: "64 word"
  mt_allowed :: "64 word"
  mt_denied :: "64 word"
  mt_errors :: "64 word"
  mt_cacheHits :: "64 word"
  mt_cacheMisses :: "64 word"
  mt_mutations :: "64 word"
  mt_auditErrors :: "64 word"
  mt_invalidationErrors :: "64 word"
  mt_policyVersionErrors :: "64 word"
  mt_decisionNanoseconds :: "64 word"

text \<open>The text of an error is represented by the error itself; \<^term>\<open>None\<close> is the empty text.\<close>

record audit_event =
  ae_ID :: string
  ae_Time :: int
  ae_Tenant :: string
  ae_Operation :: string
  ae_ActorID :: string
  ae_TargetUserID :: string
  ae_RoleName :: string
  ae_Resource :: string
  ae_Action :: string
  ae_Allowed :: bool
  ae_Error :: "err option"

record invalidation_event =
  ev_Kind :: string
  ev_User :: string

definition InvalidateFlush :: string where "InvalidateFlush = ''flush''"
definition InvalidateDrop :: string where "InvalidateDrop = ''drop''"

record ('s, 'c, 'x) enforcer =
  en_store :: "'s store_ops"
  en_cache :: "'c cache_ops option"
  en_logger :: bool
  en_metrics :: bool
  en_audit :: "(ctx \<Rightarrow> audit_event \<Rightarrow> 'x mutation) option"
  en_wildcards :: bool
  en_rulesEnabled :: bool
  en_tenant :: string
  en_manageRes :: string
  en_manageAct :: string
  en_policySource :: "'x policy_versioner option"
  en_publish :: "(ctx \<Rightarrow> invalidation_event \<Rightarrow> 'x mutation) option"

record ('s, 'c, 'x) state =
  st_store :: 's
  st_cache :: 'c
  st_ext :: 'x
  st_cacheGeneration :: "64 word"
  st_policyVersion :: "64 word"
  st_subscribed :: bool
  st_shutdown :: bool
  st_metrics :: metrics
  st_log :: "(string \<times> err) list"

type_synonym ('s, 'c, 'x) action = "('s, 'c, 'x) state \<Rightarrow> ('s, 'c, 'x) state \<times> err option"

subsection \<open>Counters and warnings\<close>

text \<open>\<^verbatim>\<open>if e.metrics != nil { e.metrics.f.Add(n) }\<close>\<close>

definition metric :: "('s, 'c, 'x) enforcer \<Rightarrow> (metrics \<Rightarrow> metrics) \<Rightarrow> ('s, 'c, 'x) state \<Rightarrow> ('s, 'c, 'x) state" where
  "metric e f st = (if en_metrics e then st\<lparr>st_metrics := f (st_metrics st)\<rparr> else st)"

definition logError :: "('s, 'c, 'x) enforcer \<Rightarrow> string \<Rightarrow> err \<Rightarrow> ('s, 'c, 'x) state \<Rightarrow> ('s, 'c, 'x) state" where
  "logError e message err st = (if en_logger e then st\<lparr>st_log := st_log st @ [(message, err)]\<rparr> else st)"

subsection \<open>Audit events\<close>

definition blank_event :: audit_event where
  "blank_event = \<lparr>ae_ID = [], ae_Time = 0, ae_Tenant = [], ae_Operation = [], ae_ActorID = [],
     ae_TargetUserID = [], ae_RoleName = [], ae_Resource = [], ae_Action = [], ae_Allowed = False,
     ae_Error = None\<rparr>"

definition emitAudit :: "('s, 'c, 'x) enforcer \<Rightarrow> ctx \<Rightarrow> audit_event \<Rightarrow> ('s, 'c, 'x) action" where
  "emitAudit e cx event st =
     (case en_audit e of
        None \<Rightarrow> (st, None)
      | Some emit \<Rightarrow>
          let event = event\<lparr>ae_ID := cx_rand cx, ae_Time := cx_now cx, ae_Tenant := en_tenant e\<rparr>;
              (x, err) = emit cx event (st_ext st);
              st = st\<lparr>st_ext := x\<rparr>
          in case err of
               None \<Rightarrow> (st, None)
             | Some er \<Rightarrow>
                 (logError e ''audit persistence failed'' er
                    (metric e (\<lambda>m. m\<lparr>mt_auditErrors := mt_auditErrors m + 1\<rparr>) st), Some er))"

definition withAuditActor :: "ctx \<Rightarrow> string \<Rightarrow> ctx" where
  "withAuditActor cx actor = cx\<lparr>cx_actor := actor\<rparr>"

definition recordMutation ::
  "('s, 'c, 'x) enforcer \<Rightarrow> ctx \<Rightarrow> string \<Rightarrow> string \<Rightarrow> string \<Rightarrow> string \<Rightarrow> ('s, 'c, 'x) action" where
  "recordMutation e cx operation actorID targetUserID roleName st =
     (let st = metric e (\<lambda>m. m\<lparr>mt_mutations := mt_mutations m + 1\<rparr>) st;
          actorID = (if actorID = [] then cx_actor cx else actorID);
          (st, err) = emitAudit e cx (blank_event\<lparr>ae_Operation := operation, ae_ActorID := actorID,
            ae_TargetUserID := targetUserID, ae_RoleName := roleName\<rparr>) st
      in (st, map_option (AuditWriteError True) err))"

text \<open>
  The deferred call at the end of every decision. It may change the result: an event that could not
  be written turns the decision into a denial with an error.
\<close>

definition recordDecision ::
  "('s, 'c, 'x) enforcer \<Rightarrow> ctx \<Rightarrow> string \<Rightarrow> string \<Rightarrow> string \<Rightarrow> string \<Rightarrow>
     ('s, 'c, 'x) state \<times> bool \<times> err option \<Rightarrow> ('s, 'c, 'x) state \<times> bool \<times> err option" where
  "recordDecision e cx operation userID resource action res =
     (let (st, allowed, err) = res;
          event = blank_event\<lparr>ae_Operation := operation, ae_ActorID := userID, ae_Resource := resource,
            ae_Action := action, ae_Allowed := (allowed \<and> err = None), ae_Error := err\<rparr>;
          (st, auditErr) = emitAudit e cx event st;
          (allowed, err) = (case auditErr of
              None \<Rightarrow> (allowed, err)
            | Some a \<Rightarrow> (False, Some (errors_Join err (AuditWriteError False a))));
          st = metric e (\<lambda>m. m\<lparr>mt_decisions := mt_decisions m + 1,
                 mt_decisionNanoseconds := mt_decisionNanoseconds m + cx_elapsed cx\<rparr>) st;
          st = (if err \<noteq> None then metric e (\<lambda>m. m\<lparr>mt_errors := mt_errors m + 1\<rparr>) st else st);
          st = (if allowed \<and> err = None
                then metric e (\<lambda>m. m\<lparr>mt_allowed := mt_allowed m + 1\<rparr>) st
                else metric e (\<lambda>m. m\<lparr>mt_denied := mt_denied m + 1\<rparr>) st)
      in (st, allowed, err))"

subsection \<open>What the bookkeeping leaves alone\<close>

text \<open>
  \<open>same_policy\<close>: the two states agree on everything a decision reads; they may differ in counters,
  warnings and the outside world.
\<close>

definition same_policy :: "('s, 'c, 'x) state \<Rightarrow> ('s, 'c, 'x) state \<Rightarrow> bool" where
  "same_policy st st' \<longleftrightarrow>
     st_store st' = st_store st \<and> st_cache st' = st_cache st \<and>
     st_cacheGeneration st' = st_cacheGeneration st \<and> st_shutdown st' = st_shutdown st \<and>
     st_subscribed st' = st_subscribed st"

lemma same_policy_refl [simp]: "same_policy st st"
  by (simp add: same_policy_def)

lemma same_policy_trans: "same_policy a b \<Longrightarrow> same_policy b c \<Longrightarrow> same_policy a c"
  by (simp add: same_policy_def)

lemma same_policyD:
  assumes "same_policy st st'"
  shows "st_store st' = st_store st" "st_cache st' = st_cache st"
    "st_cacheGeneration st' = st_cacheGeneration st" "st_shutdown st' = st_shutdown st"
    "st_subscribed st' = st_subscribed st"
  using assms by (simp_all add: same_policy_def)

lemma metric_same [frame]: "same_policy st (metric e f st)"
  by (simp add: same_policy_def metric_def)

lemma logError_same [frame]: "same_policy st (logError e m er st)"
  by (simp add: same_policy_def logError_def)

lemma metric_frame [simp]:
  "st_store (metric e f st) = st_store st" "st_cache (metric e f st) = st_cache st"
  "st_cacheGeneration (metric e f st) = st_cacheGeneration st"
  "st_shutdown (metric e f st) = st_shutdown st" "st_ext (metric e f st) = st_ext st"
  "st_policyVersion (metric e f st) = st_policyVersion st" "st_log (metric e f st) = st_log st"
  "st_subscribed (metric e f st) = st_subscribed st"
  by (simp_all add: metric_def)

lemma logError_frame [simp]:
  "st_store (logError e m er st) = st_store st" "st_cache (logError e m er st) = st_cache st"
  "st_cacheGeneration (logError e m er st) = st_cacheGeneration st"
  "st_shutdown (logError e m er st) = st_shutdown st" "st_ext (logError e m er st) = st_ext st"
  "st_policyVersion (logError e m er st) = st_policyVersion st"
  "st_metrics (logError e m er st) = st_metrics st"
  "st_subscribed (logError e m er st) = st_subscribed st"
  by (simp_all add: logError_def)

lemma emitAudit_same [frame]: "same_policy st (fst (emitAudit e cx ev st))"
  by (simp add: emitAudit_def same_policy_def Let_def split: option.split prod.split)

lemma recordMutation_same [frame]: "same_policy st (fst (recordMutation e cx op a t r st))"
proof -
  let ?st = "metric e (\<lambda>m. m\<lparr>mt_mutations := mt_mutations m + 1\<rparr>) st"
  let ?ev = "blank_event\<lparr>ae_Operation := op, ae_ActorID := if a = [] then cx_actor cx else a,
      ae_TargetUserID := t, ae_RoleName := r\<rparr>"
  have "fst (recordMutation e cx op a t r st) = fst (emitAudit e cx ?ev ?st)"
    by (simp add: recordMutation_def Let_def split_beta)
  then show ?thesis
    by (simp only:) (rule same_policy_trans [OF metric_same emitAudit_same])
qed

lemma recordDecision_same [frame]: "same_policy st (fst (recordDecision e cx op u r a (st, allowed, err)))"
proof -
  obtain st1 er where run: "emitAudit e cx (blank_event\<lparr>ae_Operation := op, ae_ActorID := u,
      ae_Resource := r, ae_Action := a, ae_Allowed := (allowed \<and> err = None), ae_Error := err\<rparr>) st = (st1, er)"
    by force
  then have "same_policy st st1" using emitAudit_same by (metis fst_conv)
  then show ?thesis
    by (cases er) (auto simp: recordDecision_def run same_policy_def Let_def)
qed

text \<open>The result of a decision after its audit event.\<close>

lemma recordDecision_result:
  "snd (recordDecision e cx op u r a (st, allowed, err)) =
     (case snd (emitAudit e cx (blank_event\<lparr>ae_Operation := op, ae_ActorID := u, ae_Resource := r,
         ae_Action := a, ae_Allowed := (allowed \<and> err = None), ae_Error := err\<rparr>) st) of
        None \<Rightarrow> (allowed, err)
      | Some er \<Rightarrow> (False, Some (errors_Join err (AuditWriteError False er))))"
  by (auto simp: recordDecision_def Let_def split: prod.splits option.splits)

lemma emitAudit_off [simp]: "en_audit e = None \<Longrightarrow> emitAudit e cx ev st = (st, None)"
  by (simp add: emitAudit_def)

lemma recordDecision_off:
  "en_audit e = None \<Longrightarrow> snd (recordDecision e cx op u r a (st, allowed, err)) = (allowed, err)"
  by (simp add: recordDecision_result)

lemma recordMutation_off:
  "en_audit e = None \<Longrightarrow> snd (recordMutation e cx op a t r st) = None"
  by (simp add: recordMutation_def Let_def)

end
