(* ===== verification/Enforcer.thy ===== *)
theory Enforcer
  imports Observability
begin

text \<open>
  The Enforcer of \<^verbatim>\<open>enforcer.go\<close>, \<^verbatim>\<open>policy.go\<close>, \<^verbatim>\<open>admin.go\<close>, \<^verbatim>\<open>batch.go\<close> and
  \<^verbatim>\<open>shutdown.go\<close>: every exported method as a function of the configuration and the state. A call
  is one step here; the interleaving of the parts of a lookup with mutations is the subject of
  theory \<open>CacheCoherence\<close>, which reuses the parts.
\<close>

subsection \<open>Scoped names\<close>

definition tenantSep :: string where "tenantSep = ''::''"

definition roleKey :: "('s, 'c, 'x) enforcer \<Rightarrow> string \<Rightarrow> string" where
  "roleKey e name = en_tenant e @ tenantSep @ name"

definition userKey :: "('s, 'c, 'x) enforcer \<Rightarrow> string \<Rightarrow> string" where
  "userKey e userID = en_tenant e @ tenantSep @ userID"

definition cacheKey :: "('s, 'c, 'x) enforcer \<Rightarrow> string \<Rightarrow> string" where
  "cacheKey e userID = userKey e (''user:'' @ userID)"

definition scopeRole :: "('s, 'c, 'x) enforcer \<Rightarrow> role \<Rightarrow> role" where
  "scopeRole e role =
     role\<lparr>role_Name := roleKey e (role_Name role), role_Parents := map (roleKey e) (role_Parents role)\<rparr>"

definition unscopeRoles :: "('s, 'c, 'x) enforcer \<Rightarrow> string list \<Rightarrow> string list" where
  "unscopeRoles e names = map (\<lambda>n. TrimPrefix n (en_tenant e @ tenantSep)) names"

subsection \<open>Policy versions\<close>

text \<open>
  \<^verbatim>\<open>versionSource\<close>: the configured source, else the store's, else none. The two functions are its
  methods lifted to the Enforcer's state.
\<close>

definition nextVersion ::
  "('s, 'c, 'x) enforcer \<Rightarrow> (ctx \<Rightarrow> ('s, 'c, 'x) state \<Rightarrow> ('s, 'c, 'x) state \<times> (err + 64 word)) option" where
  "nextVersion e =
     (case en_policySource e of
        Some p \<Rightarrow> Some (\<lambda>cx st. case pv_Next p cx (st_ext st) of (x, r) \<Rightarrow> (st\<lparr>st_ext := x\<rparr>, r))
      | None \<Rightarrow>
          (case so_PolicyVersioner (en_store e) of
             Some p \<Rightarrow> Some (\<lambda>cx st. case pv_Next p cx (st_store st) of (s, r) \<Rightarrow> (st\<lparr>st_store := s\<rparr>, r))
           | None \<Rightarrow> None))"

definition currentVersion ::
  "('s, 'c, 'x) enforcer \<Rightarrow> (ctx \<Rightarrow> ('s, 'c, 'x) state \<Rightarrow> err + 64 word) option" where
  "currentVersion e =
     (case en_policySource e of
        Some p \<Rightarrow> Some (\<lambda>cx st. pv_Current p cx (st_ext st))
      | None \<Rightarrow>
          (case so_PolicyVersioner (en_store e) of
             Some p \<Rightarrow> Some (\<lambda>cx st. pv_Current p cx (st_store st))
           | None \<Rightarrow> None))"

definition bumpPolicyVersion :: "('s, 'c, 'x) enforcer \<Rightarrow> ctx \<Rightarrow> ('s, 'c, 'x) state \<Rightarrow> ('s, 'c, 'x) state" where
  "bumpPolicyVersion e cx st =
     (let st = st\<lparr>st_policyVersion := st_policyVersion st + 1\<rparr>
      in case nextVersion e of
           None \<Rightarrow> st
         | Some next_version \<Rightarrow>
             (case next_version cx st of
                (st, Inr v) \<Rightarrow> st\<lparr>st_policyVersion := v\<rparr>
              | (st, Inl er) \<Rightarrow>
                  logError e ''policy version increment failed; using local counter'' er
                    (metric e (\<lambda>m. m\<lparr>mt_policyVersionErrors := mt_policyVersionErrors m + 1\<rparr>) st)))"

definition currentPolicyVersion ::
  "('s, 'c, 'x) enforcer \<Rightarrow> ctx \<Rightarrow> ('s, 'c, 'x) state \<Rightarrow> ('s, 'c, 'x) state \<times> 64 word" where
  "currentPolicyVersion e cx st =
     (case currentVersion e of
        None \<Rightarrow> (st, st_policyVersion st)
      | Some current \<Rightarrow>
          (case current cx st of
             Inr v \<Rightarrow> (st\<lparr>st_policyVersion := v\<rparr>, v)
           | Inl er \<Rightarrow>
               let st = logError e ''policy version read failed; using local counter'' er
                          (metric e (\<lambda>m. m\<lparr>mt_policyVersionErrors := mt_policyVersionErrors m + 1\<rparr>) st)
               in (st, st_policyVersion st)))"

subsection \<open>Cache invalidation\<close>

definition flushCache :: "('s, 'c, 'x) enforcer \<Rightarrow> ctx \<Rightarrow> ('s, 'c, 'x) state \<Rightarrow> ('s, 'c, 'x) state" where
  "flushCache e cx st =
     (let st = st\<lparr>st_cacheGeneration := st_cacheGeneration st + 1\<rparr>
      in case en_cache e of
           None \<Rightarrow> st
         | Some ops \<Rightarrow>
             (case ca_FlushContext ops of
                None \<Rightarrow> st\<lparr>st_cache := ca_Flush ops cx (st_cache st)\<rparr>
              | Some flush \<Rightarrow>
                  (case flush (st_cache st) of
                     (c, None) \<Rightarrow> st\<lparr>st_cache := c\<rparr>
                   | (c, Some er) \<Rightarrow>
                       logError e ''cache flush failed'' er
                         (metric e (\<lambda>m. m\<lparr>mt_invalidationErrors := mt_invalidationErrors m + 1\<rparr>)
                            (st\<lparr>st_cache := c\<rparr>)))))"

definition dropCacheKey ::
  "('s, 'c, 'x) enforcer \<Rightarrow> ctx \<Rightarrow> string \<Rightarrow> ('s, 'c, 'x) state \<Rightarrow> ('s, 'c, 'x) state" where
  "dropCacheKey e cx key st =
     (let st = st\<lparr>st_cacheGeneration := st_cacheGeneration st + 1\<rparr>
      in case en_cache e of
           None \<Rightarrow> st
         | Some ops \<Rightarrow> st\<lparr>st_cache := ca_Delete ops cx key (st_cache st)\<rparr>)"

definition dropCache ::
  "('s, 'c, 'x) enforcer \<Rightarrow> ctx \<Rightarrow> string \<Rightarrow> ('s, 'c, 'x) state \<Rightarrow> ('s, 'c, 'x) state" where
  "dropCache e cx userID = dropCacheKey e cx (cacheKey e userID)"

definition publish ::
  "('s, 'c, 'x) enforcer \<Rightarrow> ctx \<Rightarrow> invalidation_event \<Rightarrow> ('s, 'c, 'x) state \<Rightarrow> ('s, 'c, 'x) state" where
  "publish e cx ev st =
     (case en_publish e of
        None \<Rightarrow> st
      | Some pub \<Rightarrow>
          (case pub cx ev (st_ext st) of
             (x, None) \<Rightarrow> st\<lparr>st_ext := x\<rparr>
           | (x, Some er) \<Rightarrow>
               logError e ''cache invalidation publish failed'' er
                 (metric e (\<lambda>m. m\<lparr>mt_invalidationErrors := mt_invalidationErrors m + 1\<rparr>)
                    (st\<lparr>st_ext := x\<rparr>))))"

definition invalidateAll :: "('s, 'c, 'x) enforcer \<Rightarrow> ctx \<Rightarrow> ('s, 'c, 'x) state \<Rightarrow> ('s, 'c, 'x) state" where
  "invalidateAll e cx = publish e cx \<lparr>ev_Kind = InvalidateFlush, ev_User = []\<rparr>"

definition invalidateUser ::
  "('s, 'c, 'x) enforcer \<Rightarrow> ctx \<Rightarrow> string \<Rightarrow> ('s, 'c, 'x) state \<Rightarrow> ('s, 'c, 'x) state" where
  "invalidateUser e cx userID = publish e cx \<lparr>ev_Kind = InvalidateDrop, ev_User = cacheKey e userID\<rparr>"

text \<open>One event taken from the invalidator's channel by the subscriber loop.\<close>

definition applyInvalidation ::
  "('s, 'c, 'x) enforcer \<Rightarrow> ctx \<Rightarrow> invalidation_event \<Rightarrow> ('s, 'c, 'x) state \<Rightarrow> ('s, 'c, 'x) state" where
  "applyInvalidation e cx ev st =
     (if ev_Kind ev = InvalidateFlush then flushCache e cx st
      else if ev_Kind ev = InvalidateDrop \<and> ev_User ev \<noteq> [] then dropCacheKey e cx (ev_User ev) st
      else st)"

definition invalidationStep ::
  "('s, 'c, 'x) enforcer \<Rightarrow> ctx \<Rightarrow> invalidation_event \<Rightarrow> ('s, 'c, 'x) state \<Rightarrow> ('s, 'c, 'x) state" where
  "invalidationStep e cx ev st = (if st_subscribed st then applyInvalidation e cx ev st else st)"

subsection \<open>Effective permissions\<close>

text \<open>\<^verbatim>\<open>permissionsFor\<close> in its four parts: the cache, the cache token, the store, the fill.\<close>

definition cacheLookup ::
  "('s, 'c, 'x) enforcer \<Rightarrow> ctx \<Rightarrow> string \<Rightarrow> ('s, 'c, 'x) state \<Rightarrow> ('s, 'c, 'x) state \<times> permissionSet option" where
  "cacheLookup e cx userID st =
     (case en_cache e of
        None \<Rightarrow> (metric e (\<lambda>m. m\<lparr>mt_cacheMisses := mt_cacheMisses m + 1\<rparr>) st, None)
      | Some ops \<Rightarrow>
          let (c, found) = ca_Get ops cx (cacheKey e userID) (st_cache st);
              st = st\<lparr>st_cache := c\<rparr>
          in case found of
               Some (Permissions ps) \<Rightarrow>
                 (metric e (\<lambda>m. m\<lparr>mt_cacheHits := mt_cacheHits m + 1\<rparr>) st, Some ps)
             | _ \<Rightarrow> (metric e (\<lambda>m. m\<lparr>mt_cacheMisses := mt_cacheMisses m + 1\<rparr>) st, None))"

definition generations_of :: "('s, 'c, 'x) enforcer \<Rightarrow> 'c generations option" where
  "generations_of e = (case en_cache e of None \<Rightarrow> None | Some ops \<Rightarrow> ca_Generations ops)"

definition cacheToken ::
  "('s, 'c, 'x) enforcer \<Rightarrow> ctx \<Rightarrow> string \<Rightarrow> ('s, 'c, 'x) state \<Rightarrow> ('s, 'c, 'x) state \<times> string option" where
  "cacheToken e cx userID st =
     (case generations_of e of
        None \<Rightarrow> (st, None)
      | Some g \<Rightarrow>
          let (c, token) = cg_Generation g cx (cacheKey e userID) (st_cache st)
          in (st\<lparr>st_cache := c\<rparr>, token))"

definition loadPermissions ::
  "('s, 'c, 'x) enforcer \<Rightarrow> ctx \<Rightarrow> string \<Rightarrow> 's \<Rightarrow> err + permissionSet" where
  "loadPermissions e cx userID s =
     (case so_GetRoles (en_store e) cx (userKey e userID) s of
        Inl er \<Rightarrow> Inl er
      | Inr roles \<Rightarrow>
          forE (\<lambda>name ps. collectEffective (so_Getter (en_store e) cx s) name ps {||}) roles fmempty)"

definition cacheFill ::
  "('s, 'c, 'x) enforcer \<Rightarrow> ctx \<Rightarrow> string \<Rightarrow> permissionSet \<Rightarrow> 64 word \<Rightarrow> string option \<Rightarrow>
     ('s, 'c, 'x) state \<Rightarrow> ('s, 'c, 'x) state" where
  "cacheFill e cx userID ps generation token st =
     (case en_cache e of
        None \<Rightarrow> st
      | Some ops \<Rightarrow>
          if generation \<noteq> st_cacheGeneration st then st
          else case ca_Generations ops of
                 Some g \<Rightarrow>
                   (case token of
                      None \<Rightarrow> st
                    | Some t \<Rightarrow>
                        st\<lparr>st_cache := cg_SetIfGeneration g cx (cacheKey e userID) (Permissions ps) t (st_cache st)\<rparr>)
               | None \<Rightarrow> st\<lparr>st_cache := ca_Set ops cx (cacheKey e userID) (Permissions ps) (st_cache st)\<rparr>)"

definition permissionsFor ::
  "('s, 'c, 'x) enforcer \<Rightarrow> ctx \<Rightarrow> string \<Rightarrow> ('s, 'c, 'x) state \<Rightarrow>
     ('s, 'c, 'x) state \<times> (err + permissionSet)" where
  "permissionsFor e cx userID st =
     (if st_shutdown st then (st, Inl ErrEnforcerClosed)
      else let generation = st_cacheGeneration st;
               (st, hit) = cacheLookup e cx userID st
           in case hit of
                Some ps \<Rightarrow> (st, Inr ps)
              | None \<Rightarrow>
                  let (st, token) = cacheToken e cx userID st
                  in case loadPermissions e cx userID (st_store st) of
                       Inl er \<Rightarrow> (st, Inl er)
                     | Inr ps \<Rightarrow> (cacheFill e cx userID ps generation token st, Inr ps))"

subsection \<open>Rules\<close>

definition matchPermission :: "('s, 'c, 'x) enforcer \<Rightarrow> permissionSet \<Rightarrow> string \<Rightarrow> string \<Rightarrow> bool" where
  "matchPermission e ps resource action \<longleftrightarrow>
     ps_get ps resource action \<or>
     (en_wildcards e \<and> (ps_get ps resource ''*'' \<or> ps_get ps ''*'' action \<or> ps_get ps ''*'' ''*''))"

definition ruleMatches :: "('s, 'c, 'x) enforcer \<Rightarrow> policy_rule \<Rightarrow> string \<Rightarrow> string \<Rightarrow> bool" where
  "ruleMatches e rule resource action \<longleftrightarrow>
     (rule_Resource rule = resource \<or> en_wildcards e \<and> rule_Resource rule = ''*'') \<and>
     (rule_Action rule = action \<or> en_wildcards e \<and> rule_Action rule = ''*'')"

text \<open>The rules of one role: \<^term>\<open>None\<close> is the early return that denies.\<close>

fun rulesLoop ::
  "('s, 'c, 'x) enforcer \<Rightarrow> string \<Rightarrow> string \<Rightarrow> attributes \<Rightarrow> policy_rule list \<Rightarrow> bool \<Rightarrow> bool option" where
  "rulesLoop e resource action facts [] allowed = Some allowed"
| "rulesLoop e resource action facts (rule # rules) allowed =
     (if \<not> ruleMatches e rule resource action then rulesLoop e resource action facts rules allowed
      else let (match, known) = conditionsMatch (rule_Conditions rule) facts
           in if rule_Effect rule = EffectDeny \<and> (match \<or> \<not> known) then None
              else rulesLoop e resource action facts rules
                     (if rule_Effect rule = EffectAllow \<and> match then True else allowed))"

fun rolesLoop ::
  "('s, 'c, 'x) enforcer \<Rightarrow> (string \<Rightarrow> err + policy_rule list) \<Rightarrow> string \<Rightarrow> string \<Rightarrow> attributes \<Rightarrow>
     string list \<Rightarrow> bool \<Rightarrow> err + bool" where
  "rolesLoop e get resource action facts [] allowed = Inr allowed"
| "rolesLoop e get resource action facts (name # names) allowed =
     (case get name of
        Inl er \<Rightarrow> Inl er
      | Inr rules \<Rightarrow>
          (case validateRules rules of
             Some er \<Rightarrow> Inl er
           | None \<Rightarrow>
               (case rulesLoop e resource action facts rules allowed of
                  None \<Rightarrow> Inr False
                | Some allowed' \<Rightarrow> rolesLoop e get resource action facts names allowed')))"

definition add_facts :: "('s, 'c, 'x) enforcer \<Rightarrow> string \<Rightarrow> attributes \<Rightarrow> attributes" where
  "add_facts e userID attrs =
     fmupd ''tenant.id'' (GVal (JStr (en_tenant e))) (fmupd ''subject.id'' (GVal (JStr userID)) attrs)"

definition evaluateRules ::
  "('s, 'c, 'x) enforcer \<Rightarrow> ctx \<Rightarrow> string \<Rightarrow> string \<Rightarrow> string \<Rightarrow> bool \<Rightarrow> attributes \<Rightarrow> 's \<Rightarrow> err + bool" where
  "evaluateRules e cx userID resource action allowed attrs s =
     (if \<not> en_rulesEnabled e then Inr allowed
      else case so_RuleStore (en_store e) of
        None \<Rightarrow> Inl ErrUnsupported
      | Some rs \<Rightarrow>
          (case so_GetRoles (en_store e) cx (userKey e userID) s of
             Inl er \<Rightarrow> Inl er
           | Inr names \<Rightarrow>
               (case collectRoleNames (so_Getter (en_store e) cx s) names {||} of
                  Inl er \<Rightarrow> Inl er
                | Inr seen \<Rightarrow>
                    rolesLoop e (\<lambda>name. rs_GetRoleRules rs cx name s) resource action
                      (add_facts e userID attrs) (cx_range cx seen) allowed)))"

subsection \<open>Decisions\<close>

text \<open>\<^verbatim>\<open>allowed\<close> and \<^verbatim>\<open>err\<close> are named results, so the deferred \<^verbatim>\<open>recordDecision\<close> sees both.\<close>

definition decided :: "'st \<Rightarrow> err + bool \<Rightarrow> 'st \<times> bool \<times> err option" where
  "decided st r = (case r of Inl er \<Rightarrow> (st, False, Some er) | Inr b \<Rightarrow> (st, b, None))"

definition EnforceCtx ::
  "('s, 'c, 'x) enforcer \<Rightarrow> ctx \<Rightarrow> string \<Rightarrow> string \<Rightarrow> string \<Rightarrow> ('s, 'c, 'x) state \<Rightarrow>
     ('s, 'c, 'x) state \<times> bool \<times> err option" where
  "EnforceCtx e cx userID resource action st =
     recordDecision e cx ''enforce'' userID resource action
       (case permissionsFor e cx userID st of
          (st, Inl er) \<Rightarrow> (logError e ''permission lookup failed'' er st, False, Some er)
        | (st, Inr perms) \<Rightarrow>
            decided st (evaluateRules e cx userID resource action
              (matchPermission e perms resource action) (cx_attrs cx) (st_store st)))"

definition Enforce ::
  "('s, 'c, 'x) enforcer \<Rightarrow> ctx \<Rightarrow> string \<Rightarrow> string \<Rightarrow> string \<Rightarrow> ('s, 'c, 'x) state \<Rightarrow>
     ('s, 'c, 'x) state \<times> bool" where
  "Enforce e cx userID resource action st =
     (let (st, ok, err) = EnforceCtx e cx userID resource action st in (st, err = None \<and> ok))"

definition ownedMatch ::
  "('s, 'c, 'x) enforcer \<Rightarrow> permissionSet \<Rightarrow> string \<Rightarrow> string \<Rightarrow> string \<Rightarrow> string \<Rightarrow> string \<Rightarrow> bool" where
  "ownedMatch e perms userID owner grp resource action \<longleftrightarrow>
     matchPermission e perms resource action \<or>
     matchPermission e perms resource (action @ '':any'') \<or>
     (matchPermission e perms resource (action @ '':self'') \<and> (owner = userID \<or> action = ''create'')) \<or>
     (grp \<noteq> [] \<and> matchPermission e perms resource (action @ '':grp:'' @ grp))"

definition EnforceOwnedCtx ::
  "('s, 'c, 'x) enforcer \<Rightarrow> ctx \<Rightarrow> string \<Rightarrow> string \<Rightarrow> string \<Rightarrow> string \<Rightarrow> string \<Rightarrow>
     ('s, 'c, 'x) state \<Rightarrow> ('s, 'c, 'x) state \<times> bool \<times> err option" where
  "EnforceOwnedCtx e cx userID owner grp resource action st =
     recordDecision e cx ''enforce_owned'' userID resource action
       (case permissionsFor e cx userID st of
          (st, Inl er) \<Rightarrow> (logError e ''permission lookup failed'' er st, False, Some er)
        | (st, Inr perms) \<Rightarrow>
            let allowed = ownedMatch e perms userID owner grp resource action
            in if \<not> en_rulesEnabled e then (st, allowed, None)
               else decided st (evaluateRules e cx userID resource action allowed
                 (fmupd ''resource.group'' (GVal (JStr grp))
                   (fmupd ''resource.owner'' (GVal (JStr owner)) (cx_attrs cx))) (st_store st)))"

definition EnforceOwned ::
  "('s, 'c, 'x) enforcer \<Rightarrow> ctx \<Rightarrow> string \<Rightarrow> string \<Rightarrow> string \<Rightarrow> string \<Rightarrow> string \<Rightarrow>
     ('s, 'c, 'x) state \<Rightarrow> ('s, 'c, 'x) state \<times> bool" where
  "EnforceOwned e cx userID owner grp resource action st =
     (let (st, ok, err) = EnforceOwnedCtx e cx userID owner grp resource action st
      in (st, err = None \<and> ok))"

definition WithAttributes :: "ctx \<Rightarrow> attributes \<Rightarrow> ctx" where
  "WithAttributes cx attrs = cx\<lparr>cx_attrs := attrs\<rparr>"

definition EnforceAttributesCtx ::
  "('s, 'c, 'x) enforcer \<Rightarrow> ctx \<Rightarrow> string \<Rightarrow> string \<Rightarrow> string \<Rightarrow> attributes \<Rightarrow> ('s, 'c, 'x) state \<Rightarrow>
     ('s, 'c, 'x) state \<times> bool \<times> err option" where
  "EnforceAttributesCtx e cx userID resource action attrs st =
     (if \<not> en_rulesEnabled e then (st, False, Some ErrPolicyRulesDisabled)
      else EnforceCtx e (WithAttributes cx attrs) userID resource action st)"

definition EnforceAttributes ::
  "('s, 'c, 'x) enforcer \<Rightarrow> ctx \<Rightarrow> string \<Rightarrow> string \<Rightarrow> string \<Rightarrow> attributes \<Rightarrow> ('s, 'c, 'x) state \<Rightarrow>
     ('s, 'c, 'x) state \<times> bool" where
  "EnforceAttributes e cx userID resource action attrs st =
     (let (st, ok, err) = EnforceAttributesCtx e cx userID resource action attrs st
      in (st, err = None \<and> ok))"

definition requireManagement :: "('s, 'c, 'x) enforcer \<Rightarrow> ctx \<Rightarrow> string \<Rightarrow> ('s, 'c, 'x) action" where
  "requireManagement e cx userID st =
     (let (st, ok, err) = EnforceCtx e cx userID (en_manageRes e) (en_manageAct e) st
      in case err of
           Some er \<Rightarrow> (st, Some er)
         | None \<Rightarrow> if \<not> ok then (st, Some ErrPermissionDenied) else (st, None))"

subsection \<open>Queries\<close>

definition PermissionView ::
  "('s, 'c, 'x) enforcer \<Rightarrow> ctx \<Rightarrow> string \<Rightarrow> ('s, 'c, 'x) state \<Rightarrow>
     ('s, 'c, 'x) state \<times> (err + permission_view)" where
  "PermissionView e cx userID st =
     (if st_shutdown st then (st, Inl ErrEnforcerClosed)
      else case so_GetRoles (en_store e) cx (userKey e userID) (st_store st) of
        Inl er \<Rightarrow> (st, Inl er)
      | Inr roles \<Rightarrow>
          (case permissionsFor e cx userID st of
             (st, Inl er) \<Rightarrow> (st, Inl er)
           | (st, Inr ps) \<Rightarrow>
               let perms = fmmap (\<lambda>actions. sort (map fst (filter snd (ranged cx actions)))) ps;
                   (st, version) = currentPolicyVersion e cx st
               in (st, Inr \<lparr>pv_UserID = userID, pv_Roles = sort (unscopeRoles e roles),
                            pv_Permissions = perms, pv_PolicyVersion = version\<rparr>)))"

definition HasRole ::
  "('s, 'c, 'x) enforcer \<Rightarrow> ctx \<Rightarrow> string \<Rightarrow> string \<Rightarrow> ('s, 'c, 'x) state \<Rightarrow> err + bool" where
  "HasRole e cx userID roleName st =
     (if st_shutdown st then Inl ErrEnforcerClosed
      else case so_GetRoles (en_store e) cx (userKey e userID) (st_store st) of
        Inl er \<Rightarrow> Inl er
      | Inr roles \<Rightarrow>
          (case collectRoleNames (so_Getter (en_store e) cx (st_store st)) roles {||} of
             Inl er \<Rightarrow> Inl er
           | Inr seen \<Rightarrow> Inr (roleKey e roleName |\<in>| seen)))"

definition unscopeRole :: "('s, 'c, 'x) enforcer \<Rightarrow> role \<Rightarrow> role" where
  "unscopeRole e r =
     r\<lparr>role_Name := TrimPrefix (role_Name r) (en_tenant e @ tenantSep),
       role_Parents := map (\<lambda>p. TrimPrefix p (en_tenant e @ tenantSep)) (role_Parents r)\<rparr>"

definition ListRoles ::
  "('s, 'c, 'x) enforcer \<Rightarrow> ctx \<Rightarrow> ('s, 'c, 'x) state \<Rightarrow> err + role list" where
  "ListRoles e cx st =
     (if st_shutdown st then Inl ErrEnforcerClosed
      else let prefix = en_tenant e @ tenantSep;
               found = (case so_ListRolesByPrefix (en_store e) of
                   Some lp \<Rightarrow> lp cx prefix (st_store st)
                 | None \<Rightarrow>
                     (case so_ListRoles (en_store e) of
                        None \<Rightarrow> Inl ErrUnsupported
                      | Some l \<Rightarrow>
                          (case l cx (st_store st) of
                             Inl er \<Rightarrow> Inl er
                           | Inr roles \<Rightarrow> Inr (filter (\<lambda>r. HasPrefix (role_Name r) prefix) roles))))
           in case found of
                Inl er \<Rightarrow> Inl er
              | Inr roles \<Rightarrow> Inr (sort_key role_Name (map (unscopeRole e) roles)))"

end
