(* ===== verification/Admin.thy ===== *)
theory Admin
  imports Enforcer
begin

text \<open>
  The operations that change the policy: the trusted provisioning calls, the calls that check the
  role-management capability of an actor, and the batch. Every one of them ends in the same
  bookkeeping: the policy version, the local cache, the other instances, the audit event.
\<close>

text \<open>The step on the store inside a call.\<close>

definition on_store :: "'s mutation \<Rightarrow> ('s, 'c, 'x) action" where
  "on_store f st = (let (s, err) = f (st_store st) in (st\<lparr>st_store := s\<rparr>, err))"

text \<open>
  The calls after a committed change: of a role, which may affect every user; of one user's
  assignments; of metadata, which affects no decision.
\<close>

definition afterRoleChange ::
  "('s, 'c, 'x) enforcer \<Rightarrow> ctx \<Rightarrow> string \<Rightarrow> string \<Rightarrow> string \<Rightarrow> ('s, 'c, 'x) action" where
  "afterRoleChange e cx operation actorID roleName st =
     recordMutation e cx operation actorID [] roleName
       (invalidateAll e cx (flushCache e cx (bumpPolicyVersion e cx st)))"

definition afterUserChange ::
  "('s, 'c, 'x) enforcer \<Rightarrow> ctx \<Rightarrow> string \<Rightarrow> string \<Rightarrow> string \<Rightarrow> string \<Rightarrow> ('s, 'c, 'x) action" where
  "afterUserChange e cx operation actorID userID roleName st =
     recordMutation e cx operation actorID userID roleName
       (invalidateUser e cx userID (dropCache e cx userID (bumpPolicyVersion e cx st)))"

subsection \<open>Trusted calls\<close>

definition RegisterRole :: "('s, 'c, 'x) enforcer \<Rightarrow> ctx \<Rightarrow> role \<Rightarrow> ('s, 'c, 'x) action" where
  "RegisterRole e cx role st =
     (if st_shutdown st then (st, Some ErrEnforcerClosed)
      else if \<not> validRole role then (st, Some ErrInvalidRole)
      else andS (on_store (so_AddRole (en_store e) cx (scopeRole e role)))
             (afterRoleChange e cx ''register_role'' [] (role_Name role)) st)"

definition RegisterRoles :: "('s, 'c, 'x) enforcer \<Rightarrow> ctx \<Rightarrow> role list \<Rightarrow> ('s, 'c, 'x) action" where
  "RegisterRoles e cx roles st =
     (if st_shutdown st then (st, Some ErrEnforcerClosed) else forS (RegisterRole e cx) roles st)"

definition AssignRole :: "('s, 'c, 'x) enforcer \<Rightarrow> ctx \<Rightarrow> string \<Rightarrow> string \<Rightarrow> ('s, 'c, 'x) action" where
  "AssignRole e cx userID roleName st =
     (if st_shutdown st then (st, Some ErrEnforcerClosed)
      else andS (on_store (so_AssignRole (en_store e) cx (userKey e userID) (roleKey e roleName)))
             (afterUserChange e cx ''assign_role'' [] userID roleName) st)"

subsection \<open>Calls on behalf of an actor\<close>

text \<open>A call behind the capability check, and a call on an optional interface of the store.\<close>

definition guarded :: "('s, 'c, 'x) enforcer \<Rightarrow> ctx \<Rightarrow> string \<Rightarrow> ('s, 'c, 'x) action \<Rightarrow> ('s, 'c, 'x) action" where
  "guarded e cx actorID = andS (requireManagement e cx actorID)"

definition supported :: "'i option \<Rightarrow> ('i \<Rightarrow> ('s, 'c, 'x) action) \<Rightarrow> ('s, 'c, 'x) action" where
  "supported i f st = (case i of None \<Rightarrow> (st, Some ErrUnsupported) | Some ops \<Rightarrow> f ops st)"

definition DeleteRole :: "('s, 'c, 'x) enforcer \<Rightarrow> ctx \<Rightarrow> string \<Rightarrow> string \<Rightarrow> ('s, 'c, 'x) action" where
  "DeleteRole e cx userID roleName =
     guarded e cx userID
       (supported (so_DeleteRole (en_store e)) (\<lambda>d.
          andS (on_store (d cx (roleKey e roleName)))
            (afterRoleChange e cx ''delete_role'' userID roleName)))"

definition UnassignRole ::
  "('s, 'c, 'x) enforcer \<Rightarrow> ctx \<Rightarrow> string \<Rightarrow> string \<Rightarrow> string \<Rightarrow> ('s, 'c, 'x) action" where
  "UnassignRole e cx userID targetUserID roleName =
     guarded e cx userID
       (supported (so_UnassignRole (en_store e)) (\<lambda>u.
          andS (on_store (u cx (userKey e targetUserID) (roleKey e roleName)))
            (afterUserChange e cx ''unassign_role'' userID targetUserID roleName)))"

definition UpdateRole :: "('s, 'c, 'x) enforcer \<Rightarrow> ctx \<Rightarrow> string \<Rightarrow> role \<Rightarrow> ('s, 'c, 'x) action" where
  "UpdateRole e cx userID role =
     guarded e cx userID (\<lambda>st.
       if \<not> validRole role then (st, Some ErrInvalidRole)
       else supported (so_UpdateRole (en_store e)) (\<lambda>u.
              andS (on_store (u cx (scopeRole e role)))
                (afterRoleChange e cx ''update_role'' userID (role_Name role))) st)"

definition SetRoleRules ::
  "('s, 'c, 'x) enforcer \<Rightarrow> ctx \<Rightarrow> string \<Rightarrow> string \<Rightarrow> policy_rule list \<Rightarrow> ('s, 'c, 'x) action" where
  "SetRoleRules e cx actorID roleName rules st =
     (if \<not> en_rulesEnabled e then (st, Some ErrPolicyRulesDisabled)
      else guarded e cx actorID (\<lambda>st.
        case validateRules rules of
          Some er \<Rightarrow> (st, Some er)
        | None \<Rightarrow>
            supported (so_RuleStore (en_store e)) (\<lambda>rs.
              andS (on_store (rs_SetRoleRules rs cx (roleKey e roleName) rules))
                (afterRoleChange e cx ''set_role_rules'' actorID roleName)) st) st)"

definition SetRoleMetadata ::
  "('s, 'c, 'x) enforcer \<Rightarrow> ctx \<Rightarrow> string \<Rightarrow> string \<Rightarrow> (string, string) fmap \<Rightarrow> ('s, 'c, 'x) action" where
  "SetRoleMetadata e cx actorID roleName metadata =
     guarded e cx actorID
       (supported (so_MetadataStore (en_store e)) (\<lambda>md.
          andS (on_store (md_SetRoleMetadata md cx (roleKey e roleName) metadata))
            (\<lambda>st. recordMutation e cx ''set_role_metadata'' actorID [] roleName
                    (bumpPolicyVersion e cx st))))"

text \<open>A query behind the capability check.\<close>

definition guarded_query ::
  "('s, 'c, 'x) enforcer \<Rightarrow> ctx \<Rightarrow> string \<Rightarrow> (('s, 'c, 'x) state \<Rightarrow> err + 'a) \<Rightarrow>
     ('s, 'c, 'x) state \<Rightarrow> ('s, 'c, 'x) state \<times> (err + 'a)" where
  "guarded_query e cx actorID q st =
     (case requireManagement e cx actorID st of
        (st, Some er) \<Rightarrow> (st, Inl er)
      | (st, None) \<Rightarrow> (st, q st))"

definition RoleRules ::
  "('s, 'c, 'x) enforcer \<Rightarrow> ctx \<Rightarrow> string \<Rightarrow> string \<Rightarrow> ('s, 'c, 'x) state \<Rightarrow>
     ('s, 'c, 'x) state \<times> (err + policy_rule list)" where
  "RoleRules e cx actorID roleName =
     guarded_query e cx actorID (\<lambda>st.
       case so_RuleStore (en_store e) of None \<Rightarrow> Inl ErrUnsupported
       | Some rs \<Rightarrow> rs_GetRoleRules rs cx (roleKey e roleName) (st_store st))"

definition RoleMetadata ::
  "('s, 'c, 'x) enforcer \<Rightarrow> ctx \<Rightarrow> string \<Rightarrow> string \<Rightarrow> ('s, 'c, 'x) state \<Rightarrow>
     ('s, 'c, 'x) state \<times> (err + (string, string) fmap)" where
  "RoleMetadata e cx actorID roleName =
     guarded_query e cx actorID (\<lambda>st.
       case so_MetadataStore (en_store e) of None \<Rightarrow> Inl ErrUnsupported
       | Some md \<Rightarrow> md_GetRoleMetadata md cx (roleKey e roleName) (st_store st))"

definition RegisterRoleAs :: "('s, 'c, 'x) enforcer \<Rightarrow> ctx \<Rightarrow> string \<Rightarrow> role \<Rightarrow> ('s, 'c, 'x) action" where
  "RegisterRoleAs e cx actorID role =
     guarded e cx actorID (RegisterRole e (withAuditActor cx actorID) role)"

definition RegisterRolesAs ::
  "('s, 'c, 'x) enforcer \<Rightarrow> ctx \<Rightarrow> string \<Rightarrow> role list \<Rightarrow> ('s, 'c, 'x) action" where
  "RegisterRolesAs e cx actorID roles =
     guarded e cx actorID (RegisterRoles e (withAuditActor cx actorID) roles)"

definition AssignRoleAs ::
  "('s, 'c, 'x) enforcer \<Rightarrow> ctx \<Rightarrow> string \<Rightarrow> string \<Rightarrow> string \<Rightarrow> ('s, 'c, 'x) action" where
  "AssignRoleAs e cx actorID targetUserID roleName =
     guarded e cx actorID (AssignRole e (withAuditActor cx actorID) targetUserID roleName)"

definition ListRolesAs ::
  "('s, 'c, 'x) enforcer \<Rightarrow> ctx \<Rightarrow> string \<Rightarrow> ('s, 'c, 'x) state \<Rightarrow>
     ('s, 'c, 'x) state \<times> (err + role list)" where
  "ListRolesAs e cx actorID = guarded_query e cx actorID (ListRoles e cx)"

subsection \<open>Batches\<close>

text \<open>
  The scoped batch. \<^verbatim>\<open>roleKey\<close> is injective, so re-keying a map with the entries in any order
  gives the map with its keys scoped.
\<close>

definition scopeMap ::
  "('s, 'c, 'x) enforcer \<Rightarrow> ctx \<Rightarrow> (string, 'v) fmap \<Rightarrow> (string, 'v) fmap" where
  "scopeMap e cx m = fold (\<lambda>(name, v). fmupd (roleKey e name) v) (ranged cx m) fmempty"

definition scopeAssignment :: "('s, 'c, 'x) enforcer \<Rightarrow> role_assignment \<Rightarrow> role_assignment" where
  "scopeAssignment e ra =
     \<lparr>ra_UserID = userKey e (ra_UserID ra), ra_RoleName = roleKey e (ra_RoleName ra)\<rparr>"

definition scopeBatch :: "('s, 'c, 'x) enforcer \<Rightarrow> ctx \<Rightarrow> policy_batch \<Rightarrow> policy_batch" where
  "scopeBatch e cx batch =
     \<lparr>pb_Register = map (scopeRole e) (pb_Register batch),
      pb_Update = map (scopeRole e) (pb_Update batch),
      pb_RuleUpdates = scopeMap e cx (pb_RuleUpdates batch),
      pb_MetadataUpdates = scopeMap e cx (pb_MetadataUpdates batch),
      pb_Unassign = map (scopeAssignment e) (pb_Unassign batch),
      pb_Assign = map (scopeAssignment e) (pb_Assign batch),
      pb_Delete = map (roleKey e) (pb_Delete batch)\<rparr>"

definition ApplyPolicyBatch ::
  "('s, 'c, 'x) enforcer \<Rightarrow> ctx \<Rightarrow> string \<Rightarrow> policy_batch \<Rightarrow> ('s, 'c, 'x) action" where
  "ApplyPolicyBatch e cx actorID batch =
     guarded e cx actorID (\<lambda>st.
       case validateBatch cx batch of
         Some er \<Rightarrow> (st, Some er)
       | None \<Rightarrow>
           if pb_RuleUpdates batch \<noteq> fmempty \<and> \<not> en_rulesEnabled e
           then (st, Some ErrPolicyRulesDisabled)
           else supported (so_ApplyPolicyBatch (en_store e)) (\<lambda>apply.
                  andS (on_store (apply cx (scopeBatch e cx batch)))
                    (afterRoleChange e cx ''apply_policy_batch'' actorID [])) st)"

subsection \<open>Lifecycle\<close>

text \<open>
  \<^verbatim>\<open>Close\<close> ends the subscription; releasing an owned Redis client or SQL pool is I/O outside the
  model. \<^verbatim>\<open>Shutdown\<close> closes in the background and waits: \<open>finished\<close> says whether the cleanup ends
  before the context is done.
\<close>

definition Close :: "('s, 'c, 'x) enforcer \<Rightarrow> ('s, 'c, 'x) state \<Rightarrow> ('s, 'c, 'x) state" where
  "Close e st = st\<lparr>st_subscribed := False\<rparr>"

definition Shutdown :: "('s, 'c, 'x) enforcer \<Rightarrow> bool \<Rightarrow> ctx \<Rightarrow> ('s, 'c, 'x) action" where
  "Shutdown e finished cx st =
     ((Close e st)\<lparr>st_shutdown := True\<rparr>, (if finished then None else cx_Err cx))"

end
