(* ===== verification/RbacSpec.thy ===== *)
theory RbacSpec
  imports Store
begin

text \<open>
  The abstract state of an RBAC store, the outcome of every operation on it, and the contract
  \<open>rbac_store\<close> that ties a backend to it. The abstract state forgets the order of permissions,
  parents and assignments and any index a backend keeps; the outcomes keep the errors.
\<close>

record rbac =
  ab_roles :: "(string, permission fset \<times> string fset) fmap"
  ab_assign :: "(string \<times> string) fset"
  ab_rules :: "(string, policy_rule list) fmap"
  ab_meta :: "(string, (string, string) fmap) fmap"

subsection \<open>The abstract role graph\<close>

definition ab_parent ::
  "(string, permission fset \<times> string fset) fmap \<Rightarrow> string \<Rightarrow> string \<Rightarrow> bool" where
  "ab_parent R n p \<longleftrightarrow> (\<exists>ps pp. fmlookup R n = Some (ps, pp) \<and> p |\<in>| pp)"

definition ab_acyclic :: "(string, permission fset \<times> string fset) fmap \<Rightarrow> bool" where
  "ab_acyclic R \<longleftrightarrow> (\<forall>n. \<not> (ab_parent R)\<^sup>+\<^sup>+ n n)"

definition ab_grants ::
  "(string, permission fset \<times> string fset) fmap \<Rightarrow> string \<Rightarrow> string \<Rightarrow> string \<Rightarrow> bool" where
  "ab_grants R n res act \<longleftrightarrow>
     (\<exists>x ps pp. (ab_parent R)\<^sup>*\<^sup>* n x \<and> fmlookup R x = Some (ps, pp) \<and>
        \<lparr>perm_Resource = res, perm_Action = act\<rparr> |\<in>| ps)"

text \<open>What a user may do: the permissions of the assigned roles and all their ancestors.\<close>

definition entitled :: "rbac \<Rightarrow> string \<Rightarrow> string \<Rightarrow> string \<Rightarrow> bool" where
  "entitled A user res act \<longleftrightarrow>
     (\<exists>r. (user, r) |\<in>| ab_assign A \<and> ab_grants (ab_roles A) r res act)"

text \<open>The existing roles a user holds, directly or by inheritance.\<close>

definition holds_role :: "rbac \<Rightarrow> string \<Rightarrow> string \<Rightarrow> bool" where
  "holds_role A user x \<longleftrightarrow>
     fmhas (ab_roles A) x \<and>
     (\<exists>r. (user, r) |\<in>| ab_assign A \<and> (ab_parent (ab_roles A))\<^sup>*\<^sup>* r x)"

definition rules_of :: "rbac \<Rightarrow> string \<Rightarrow> policy_rule list" where
  "rules_of A n = (case fmlookup (ab_rules A) n of None \<Rightarrow> [] | Some rs \<Rightarrow> rs)"

definition meta_of :: "rbac \<Rightarrow> string \<Rightarrow> (string, string) fmap" where
  "meta_of A n = (case fmlookup (ab_meta A) n of None \<Rightarrow> fmempty | Some m \<Rightarrow> m)"

subsection \<open>Well-formed states\<close>

text \<open>
  No cycle; every parent exists; only existing roles are assigned; rules and metadata belong to
  existing roles, and the rules are valid.
\<close>

definition wf_rbac :: "rbac \<Rightarrow> bool" where
  "wf_rbac A \<longleftrightarrow>
     ab_acyclic (ab_roles A) \<and>
     (\<forall>n p. ab_parent (ab_roles A) n p \<longrightarrow> fmhas (ab_roles A) p) \<and>
     (\<forall>u r. (u, r) |\<in>| ab_assign A \<longrightarrow> fmhas (ab_roles A) r) \<and>
     (\<forall>n rs. fmlookup (ab_rules A) n = Some rs \<longrightarrow> fmhas (ab_roles A) n \<and> cloneRules rs = Inr rs) \<and>
     (\<forall>n m. fmlookup (ab_meta A) n = Some m \<longrightarrow> fmhas (ab_roles A) n)"

subsection \<open>Outcomes of the operations\<close>

definition role_entry :: "role \<Rightarrow> permission fset \<times> string fset" where
  "role_entry role = (fset_of_list (role_Permissions role), fset_of_list (role_Parents role))"

definition missing_parent :: "rbac \<Rightarrow> role \<Rightarrow> bool" where
  "missing_parent A role \<longleftrightarrow>
     (\<exists>p \<in> set (role_Parents role). p \<noteq> role_Name role \<and> \<not> fmhas (ab_roles A) p)"

text \<open>
  What backends differ in: the error of a new role that names itself as its parent, and what they keep
  of the metadata of a role.
\<close>

record store_traits =
  tr_self :: err
  tr_stored :: "(string, string) fmap \<Rightarrow> (string, string) fmap"

definition spec_AddRole :: "store_traits \<Rightarrow> role \<Rightarrow> rbac \<Rightarrow> err + rbac" where
  "spec_AddRole tr role A =
     (if \<not> validRole role then Inl ErrInvalidRole
      else if fmhas (ab_roles A) (role_Name role) then Inl ErrRoleExists
      else if missing_parent A role then Inl ErrParentNotFound
      else if role_Name role \<in> set (role_Parents role) then Inl (tr_self tr)
      else Inr (A\<lparr>ab_roles := fmupd (role_Name role) (role_entry role) (ab_roles A)\<rparr>))"

definition spec_UpdateRole :: "role \<Rightarrow> rbac \<Rightarrow> err + rbac" where
  "spec_UpdateRole role A =
     (let R = fmupd (role_Name role) (role_entry role) (ab_roles A)
      in if \<not> validRole role then Inl ErrInvalidRole
         else if \<not> fmhas (ab_roles A) (role_Name role) then Inl ErrRoleNotFound
         else if missing_parent A role then Inl ErrParentNotFound
         else if \<not> ab_acyclic R then Inl ErrCycleDetected
         else Inr (A\<lparr>ab_roles := R\<rparr>))"

definition spec_DeleteRole :: "string \<Rightarrow> rbac \<Rightarrow> err + rbac" where
  "spec_DeleteRole n A =
     (if \<not> fmhas (ab_roles A) n then Inl ErrRoleNotFound
      else if \<exists>u. (u, n) |\<in>| ab_assign A then Inl ErrRoleInUse
      else Inr (A\<lparr>ab_roles := fmmap (\<lambda>e. (fst e, snd e |-| {|n|})) (fmdrop n (ab_roles A)),
                  ab_rules := fmdrop n (ab_rules A),
                  ab_meta := fmdrop n (ab_meta A)\<rparr>))"

definition spec_AssignRole :: "string \<Rightarrow> string \<Rightarrow> rbac \<Rightarrow> err + rbac" where
  "spec_AssignRole u r A =
     (if \<not> fmhas (ab_roles A) r then Inl ErrRoleNotFound
      else Inr (A\<lparr>ab_assign := finsert (u, r) (ab_assign A)\<rparr>))"

definition spec_UnassignRole :: "string \<Rightarrow> string \<Rightarrow> rbac \<Rightarrow> err + rbac" where
  "spec_UnassignRole u r A =
     (if \<not> fmhas (ab_roles A) r then Inl ErrRoleNotFound
      else Inr (A\<lparr>ab_assign := ab_assign A |-| {|(u, r)|}\<rparr>))"

definition spec_SetRoleRules :: "string \<Rightarrow> policy_rule list \<Rightarrow> rbac \<Rightarrow> err + rbac" where
  "spec_SetRoleRules n rules A =
     (case cloneRules rules of
        Inl e \<Rightarrow> Inl e
      | Inr rs \<Rightarrow>
          if \<not> fmhas (ab_roles A) n then Inl ErrRoleNotFound
          else Inr (A\<lparr>ab_rules := fmupd n rs (ab_rules A)\<rparr>))"

definition spec_SetRoleMetadata :: "string \<Rightarrow> (string, string) fmap \<Rightarrow> rbac \<Rightarrow> err + rbac" where
  "spec_SetRoleMetadata n m A =
     (if \<not> fmhas (ab_roles A) n then Inl ErrRoleNotFound
      else Inr (A\<lparr>ab_meta := fmupd n m (ab_meta A)\<rparr>))"

text \<open>The effect of an action on a backend state \<open>s\<close> agrees with an outcome on \<open>absf s\<close>.\<close>

definition implements ::
  "('s \<Rightarrow> bool) \<Rightarrow> ('s \<Rightarrow> rbac) \<Rightarrow> 's mutation \<Rightarrow> 's \<Rightarrow> err + rbac \<Rightarrow> bool" where
  "implements ok absf f s outcome \<longleftrightarrow>
     ok (fst (f s)) \<and>
     (case outcome of
        Inl e \<Rightarrow> snd (f s) = Some e \<and> absf (fst (f s)) = absf s
      | Inr A \<Rightarrow> snd (f s) = None \<and> absf (fst (f s)) = A)"

text \<open>
  The weaker promise of a mutation on any context, done or not: it fails without an effect, or its
  effect is the specified one.
\<close>

definition performs ::
  "('s \<Rightarrow> bool) \<Rightarrow> ('s \<Rightarrow> rbac) \<Rightarrow> 's mutation \<Rightarrow> 's \<Rightarrow> err + rbac \<Rightarrow> bool" where
  "performs ok absf f s outcome \<longleftrightarrow>
     ok (fst (f s)) \<and>
     (case snd (f s) of
        None \<Rightarrow> outcome = Inr (absf (fst (f s)))
      | Some _ \<Rightarrow> absf (fst (f s)) = absf s)"

lemma implements_performs: "implements ok absf f s outcome \<Longrightarrow> performs ok absf f s outcome"
  by (auto simp: implements_def performs_def split: sum.splits)

subsection \<open>Replacing the parents of one role\<close>

text \<open>
  If two graphs differ only in the edges that leave \<open>n\<close>, a cycle of the second is a cycle of the
  first or passes through \<open>n\<close>.
\<close>

lemma tranclp_through:
  assumes same: "\<And>x y. x \<noteq> n \<Longrightarrow> Q x y \<Longrightarrow> P x y"
    and "Q\<^sup>+\<^sup>+ x y"
  shows "P\<^sup>+\<^sup>+ x y \<or> (Q\<^sup>*\<^sup>* x n \<and> Q\<^sup>+\<^sup>+ n y)"
  using assms(2)
proof (induction rule: tranclp_induct)
  case (base y)
  then show ?case using same by (cases "x = n") auto
next
  case (step y z)
  have edge: "P y z \<or> y = n" using same step.hyps(2) by blast
  from step.IH show ?case
  proof
    assume P: "P\<^sup>+\<^sup>+ x y"
    from edge show ?thesis
    proof
      assume "P y z"
      with P show ?thesis by (blast intro: tranclp.trancl_into_trancl)
    next
      assume "y = n"
      with step.hyps show ?thesis by (blast intro: tranclp_into_rtranclp tranclp.r_into_trancl)
    qed
  next
    assume "Q\<^sup>*\<^sup>* x n \<and> Q\<^sup>+\<^sup>+ n y"
    with step.hyps(2) show ?thesis by (blast intro: tranclp.trancl_into_trancl)
  qed
qed

lemma cycle_through:
  assumes "\<And>x y. x \<noteq> n \<Longrightarrow> Q x y \<Longrightarrow> P x y" and "\<And>x. \<not> P\<^sup>+\<^sup>+ x x" and "Q\<^sup>+\<^sup>+ x x"
  shows "Q\<^sup>+\<^sup>+ n n"
proof -
  have "P\<^sup>+\<^sup>+ x x \<or> (Q\<^sup>*\<^sup>* x n \<and> Q\<^sup>+\<^sup>+ n x)"
    using assms(1,3) by (rule tranclp_through)
  with assms(2) have "Q\<^sup>+\<^sup>+ n x" and "Q\<^sup>*\<^sup>* x n" by blast+
  then show ?thesis by (rule tranclp_rtranclp_tranclp)
qed

lemma ab_parent_fmupd:
  "ab_parent (fmupd n e R) x y \<longleftrightarrow> (if x = n then y |\<in>| snd e else ab_parent R x y)"
  by (cases e) (auto simp: ab_parent_def)

lemma ab_parent_exists: "ab_parent R n p \<Longrightarrow> fmhas R n"
  by (auto simp: ab_parent_def fmhas_def)

lemma fmhas_fmupd [simp]: "fmhas (fmupd n e m) k \<longleftrightarrow> k = n \<or> fmhas m k"
  by (auto simp: fmhas_def)

lemma fmhas_fmdrop [simp]: "fmhas (fmdrop n m) k \<longleftrightarrow> k \<noteq> n \<and> fmhas m k"
  by (auto simp: fmhas_def)

lemma fmhas_fmmap [simp]: "fmhas (fmmap f m) k \<longleftrightarrow> fmhas m k"
  by (auto simp: fmhas_def)

lemma ab_parent_delete:
  "ab_parent (fmmap (\<lambda>e. (fst e, snd e |-| {|n|})) (fmdrop n R)) x y \<longleftrightarrow>
     x \<noteq> n \<and> y \<noteq> n \<and> ab_parent R x y"
  by (auto simp: ab_parent_def)

lemma ab_acyclic_mono:
  assumes "\<And>x y. ab_parent R' x y \<Longrightarrow> ab_parent R x y" and "ab_acyclic R"
  shows "ab_acyclic R'"
proof -
  have "(ab_parent R)\<^sup>+\<^sup>+ x y" if "(ab_parent R')\<^sup>+\<^sup>+ x y" for x y
    using that assms(1) by (induction rule: tranclp_induct) (auto intro: tranclp.intros)
  with assms(2) show ?thesis unfolding ab_acyclic_def by blast
qed

text \<open>A role without children cannot close a cycle unless it names itself.\<close>

lemma ab_acyclic_new:
  assumes "ab_acyclic R" and "\<And>x. \<not> ab_parent R x n" and "n |\<notin>| snd e"
  shows "ab_acyclic (fmupd n e R)"
  unfolding ab_acyclic_def
proof (intro allI notI)
  fix x
  assume "(ab_parent (fmupd n e R))\<^sup>+\<^sup>+ x x"
  then have "(ab_parent (fmupd n e R))\<^sup>+\<^sup>+ n n"
    using assms(1) unfolding ab_acyclic_def
    by (elim cycle_through [where P = "ab_parent R" and n = n, rotated 2])
      (simp_all add: ab_parent_fmupd)
  then obtain z where "ab_parent (fmupd n e R) z n" by (auto elim: tranclp.cases)
  with assms(2,3) show False by (auto simp: ab_parent_fmupd split: if_splits)
qed

subsection \<open>The operations keep the state well formed\<close>

lemma wf_rbacD:
  assumes "wf_rbac A"
  shows "ab_acyclic (ab_roles A)"
    and "ab_parent (ab_roles A) n p \<Longrightarrow> fmhas (ab_roles A) p"
    and "(u, r) |\<in>| ab_assign A \<Longrightarrow> fmhas (ab_roles A) r"
    and "fmlookup (ab_rules A) n = Some rs \<Longrightarrow> fmhas (ab_roles A) n \<and> cloneRules rs = Inr rs"
    and "fmlookup (ab_meta A) n = Some m \<Longrightarrow> fmhas (ab_roles A) n"
  using assms unfolding wf_rbac_def by blast+

lemma spec_AddRole_wf [wf_intro]:
  assumes "wf_rbac A" and "spec_AddRole tr role A = Inr A'"
  shows "wf_rbac A'"
proof -
  let ?n = "role_Name role"
  from assms(2) have fresh: "\<not> fmhas (ab_roles A) ?n" and parents: "\<not> missing_parent A role"
    and self: "?n \<notin> set (role_Parents role)"
    and A': "A' = A\<lparr>ab_roles := fmupd ?n (role_entry role) (ab_roles A)\<rparr>"
    by (auto simp: spec_AddRole_def split: if_splits)
  have "ab_acyclic (ab_roles A')"
    using wf_rbacD(1,2) [OF assms(1)] fresh self
    by (auto simp: A' role_entry_def intro!: ab_acyclic_new)
  then show ?thesis
    using wf_rbacD [OF assms(1)] parents self unfolding wf_rbac_def
    by (auto simp: A' ab_parent_fmupd role_entry_def missing_parent_def split: if_splits)
qed

lemma spec_UpdateRole_wf [wf_intro]:
  assumes "wf_rbac A" and "spec_UpdateRole role A = Inr A'"
  shows "wf_rbac A'"
proof -
  let ?n = "role_Name role"
  from assms(2) have parents: "\<not> missing_parent A role" and "ab_acyclic (ab_roles A')"
    and A': "A' = A\<lparr>ab_roles := fmupd ?n (role_entry role) (ab_roles A)\<rparr>"
    by (auto simp: spec_UpdateRole_def Let_def split: if_splits)
  then show ?thesis
    using wf_rbacD [OF assms(1)] unfolding wf_rbac_def
    by (auto simp: A' ab_parent_fmupd role_entry_def missing_parent_def split: if_splits)
qed

lemma spec_DeleteRole_wf [wf_intro]:
  assumes "wf_rbac A" and "spec_DeleteRole n A = Inr A'"
  shows "wf_rbac A'"
proof -
  from assms(2) have free: "\<And>u. (u, n) |\<notin>| ab_assign A"
    and A': "A' = A\<lparr>ab_roles := fmmap (\<lambda>e. (fst e, snd e |-| {|n|})) (fmdrop n (ab_roles A)),
      ab_rules := fmdrop n (ab_rules A), ab_meta := fmdrop n (ab_meta A)\<rparr>"
    by (auto simp: spec_DeleteRole_def split: if_splits)
  have "ab_acyclic (ab_roles A')"
    by (rule ab_acyclic_mono [OF _ wf_rbacD(1) [OF assms(1)]]) (simp add: A' ab_parent_delete)
  then show ?thesis
    using wf_rbacD [OF assms(1)] free unfolding wf_rbac_def
    by (auto simp: A' ab_parent_delete split: if_splits)
qed

lemma spec_AssignRole_wf [wf_intro]:
  "wf_rbac A \<Longrightarrow> spec_AssignRole u r A = Inr A' \<Longrightarrow> wf_rbac A'"
  by (auto simp: spec_AssignRole_def wf_rbac_def split: if_splits)

lemma spec_UnassignRole_wf [wf_intro]:
  "wf_rbac A \<Longrightarrow> spec_UnassignRole u r A = Inr A' \<Longrightarrow> wf_rbac A'"
  by (auto simp: spec_UnassignRole_def wf_rbac_def split: if_splits)

lemma spec_SetRoleRules_wf [wf_intro]:
  "wf_rbac A \<Longrightarrow> spec_SetRoleRules n rules A = Inr A' \<Longrightarrow> wf_rbac A'"
  by (auto simp: spec_SetRoleRules_def wf_rbac_def dest: cloneRules_stable split: if_splits sum.splits)

lemma spec_SetRoleMetadata_wf [wf_intro]:
  "wf_rbac A \<Longrightarrow> spec_SetRoleMetadata n m A = Inr A' \<Longrightarrow> wf_rbac A'"
  by (auto simp: spec_SetRoleMetadata_def wf_rbac_def split: if_splits)


subsection \<open>The abstraction of a role map\<close>

definition abs_roles :: "(string, role) fmap \<Rightarrow> (string, permission fset \<times> string fset) fmap" where
  "abs_roles roles = fmmap role_entry roles"

lemma fmhas_abs_roles [simp]: "fmhas (abs_roles roles) n \<longleftrightarrow> fmhas roles n"
  by (simp add: abs_roles_def)

lemma ab_parent_abs [simp]: "ab_parent (abs_roles roles) = parent roles"
proof (intro ext)
  fix n p
  show "ab_parent (abs_roles roles) n p = parent roles n p"
    by (cases "fmlookup roles n") (auto simp: ab_parent_def abs_roles_def parent_def role_entry_def)
qed

lemma ab_acyclic_abs [simp]: "ab_acyclic (abs_roles roles) \<longleftrightarrow> acyclic_roles roles"
  by (simp add: ab_acyclic_def acyclic_roles_def cycle_at_def)

lemma permission_eq: "p = \<lparr>perm_Resource = r, perm_Action = a\<rparr> \<longleftrightarrow> perm_Resource p = r \<and> perm_Action p = a"
  by (cases p) auto

lemma ab_grants_abs [simp]: "ab_grants (abs_roles roles) = grants roles"
proof (intro ext)
  fix n r a
  have "(\<exists>p \<in> set ps. perm_Resource p = r \<and> perm_Action p = a) \<longleftrightarrow>
      \<lparr>perm_Resource = r, perm_Action = a\<rparr> \<in> set ps" for ps
    by (metis permission_eq)
  then show "ab_grants (abs_roles roles) n r a = grants roles n r a"
    by (auto simp: ab_grants_def grants_def) (auto simp: abs_roles_def role_entry_def)
qed

subsection \<open>Sequences of operations\<close>

text \<open>
  \<open>tracks ok absf f g\<close>: from a good state, the action \<open>f\<close> reaches a good state and returns what the
  abstract action \<open>g\<close> returns, and when it succeeds its state abstracts to the result of \<open>g\<close>.
\<close>

definition tracks ::
  "('s \<Rightarrow> bool) \<Rightarrow> ('s \<Rightarrow> 'a) \<Rightarrow> ('s \<Rightarrow> 's \<times> 'e option) \<Rightarrow> ('a \<Rightarrow> 'e + 'a) \<Rightarrow> bool" where
  "tracks ok absf f g \<longleftrightarrow>
     (\<forall>s. ok s \<longrightarrow> ok (fst (f s)) \<and>
        (case g (absf s) of
           Inl e \<Rightarrow> snd (f s) = Some e
         | Inr A \<Rightarrow> snd (f s) = None \<and> absf (fst (f s)) = A))"

definition bindE :: "'e + 'a \<Rightarrow> ('a \<Rightarrow> 'e + 'b) \<Rightarrow> 'e + 'b" where
  "bindE r f = (case r of Inl e \<Rightarrow> Inl e | Inr x \<Rightarrow> f x)"

lemma tracksD:
  assumes "tracks ok absf f g" and "ok s"
  shows "ok (fst (f s))"
    and "g (absf s) = Inl e \<Longrightarrow> snd (f s) = Some e"
    and "g (absf s) = Inr A \<Longrightarrow> snd (f s) = None \<and> absf (fst (f s)) = A"
  using assms unfolding tracks_def by (auto split: sum.splits)

lemma tracks_implements:
  assumes "\<And>s. ok s \<Longrightarrow> implements ok absf f s (g (absf s))"
  shows "tracks ok absf f g"
  using assms unfolding tracks_def implements_def by (fastforce split: sum.splits)

lemma tracks_forS:
  assumes "\<And>x. x \<in> set xs \<Longrightarrow> tracks ok absf (f x) (g x)"
  shows "tracks ok absf (forS f xs) (forE g xs)"
  unfolding tracks_def
proof (intro allI impI)
  fix s
  assume "ok s"
  then show "ok (fst (forS f xs s)) \<and>
    (case forE g xs (absf s) of Inl e \<Rightarrow> snd (forS f xs s) = Some e
     | Inr A \<Rightarrow> snd (forS f xs s) = None \<and> absf (fst (forS f xs s)) = A)"
    using assms
  proof (induction xs arbitrary: s)
    case Nil
    then show ?case by simp
  next
    case (Cons x xs)
    have x: "tracks ok absf (f x) (g x)" using Cons.prems(2) by simp
    obtain s1 e1 where step: "f x s = (s1, e1)" by force
    with tracksD(1) [OF x Cons.prems(1)] have "ok s1" by simp
    with Cons have IH: "ok (fst (forS f xs s1)) \<and>
      (case forE g xs (absf s1) of Inl e \<Rightarrow> snd (forS f xs s1) = Some e
       | Inr A \<Rightarrow> snd (forS f xs s1) = None \<and> absf (fst (forS f xs s1)) = A)" by simp
    show ?case
    proof (cases "g x (absf s)")
      case (Inl e)
      with tracksD(2) [OF x Cons.prems(1) Inl] step \<open>ok s1\<close> show ?thesis by simp
    next
      case (Inr A)
      with tracksD(3) [OF x Cons.prems(1) Inr] step have "e1 = None" and A: "A = absf s1" by simp_all
      then have "forS f (x # xs) s = forS f xs s1" and "forE g (x # xs) (absf s) = forE g xs (absf s1)"
        using step Inr by simp_all
      with IH show ?thesis by (simp only:)
    qed
  qed
qed

lemma tracks_andS:
  assumes f: "tracks ok absf f g" and f': "tracks ok absf f' g'"
  shows "tracks ok absf (andS f f') (\<lambda>A. bindE (g A) g')"
  unfolding tracks_def
proof (intro allI impI)
  fix s
  assume ok: "ok s"
  obtain s1 e1 where step: "f s = (s1, e1)" by force
  with tracksD(1) [OF f ok] have ok1: "ok s1" by simp
  show "ok (fst (andS f f' s)) \<and>
    (case bindE (g (absf s)) g' of Inl e \<Rightarrow> snd (andS f f' s) = Some e
     | Inr A \<Rightarrow> snd (andS f f' s) = None \<and> absf (fst (andS f f' s)) = A)"
  proof (cases "g (absf s)")
    case (Inl e)
    with tracksD(2) [OF f ok Inl] step ok1 show ?thesis by (simp add: andS_def bindE_def)
  next
    case (Inr A)
    with tracksD(3) [OF f ok Inr] step have "e1 = None" and A: "A = absf s1" by simp_all
    then have "andS f f' s = f' s1" and "bindE (g (absf s)) g' = g' (absf s1)"
      using step Inr by (simp_all add: andS_def bindE_def)
    with f' ok1 show ?thesis unfolding tracks_def by (simp only:)
  qed
qed

lemma tracks_return: "tracks ok absf (\<lambda>s. (s, e)) (\<lambda>A. case e of None \<Rightarrow> Inr A | Some e \<Rightarrow> Inl e)"
  by (auto simp: tracks_def split: option.splits)

lemma tracks_with_interface:
  assumes "i = Some ops" and "\<And>x. x \<in> set xs \<Longrightarrow> tracks ok absf (f ops x) (g x)"
  shows "tracks ok absf (with_interface i f xs) (forE g xs)"
proof -
  have "with_interface i f xs = forS (f ops) xs"
    by (auto simp: with_interface_def fun_eq_iff assms(1))
  with assms(2) show ?thesis by (simp add: tracks_forS)
qed

text \<open>The outcome of a batch: its operations in the documented order, all or nothing.\<close>

definition spec_ApplyBatch :: "store_traits \<Rightarrow> ctx \<Rightarrow> policy_batch \<Rightarrow> rbac \<Rightarrow> err + rbac" where
  "spec_ApplyBatch tr cx batch A =
     (case validateBatch cx batch of Some e \<Rightarrow> Inl e | None \<Rightarrow>
       bindE (forE (spec_AddRole tr) (pb_Register batch) A) (\<lambda>A.
       bindE (forE spec_UpdateRole (pb_Update batch) A) (\<lambda>A.
       bindE (forE (\<lambda>(n, rs). spec_SetRoleRules n rs) (ranged cx (pb_RuleUpdates batch)) A) (\<lambda>A.
       bindE (forE (\<lambda>(n, m). spec_SetRoleMetadata n (tr_stored tr m)) (ranged cx (pb_MetadataUpdates batch)) A) (\<lambda>A.
       bindE (forE (\<lambda>ra. spec_UnassignRole (ra_UserID ra) (ra_RoleName ra)) (pb_Unassign batch) A) (\<lambda>A.
       bindE (forE (\<lambda>ra. spec_AssignRole (ra_UserID ra) (ra_RoleName ra)) (pb_Assign batch) A) (\<lambda>A.
       forE spec_DeleteRole (pb_Delete batch) A)))))))"

lemma forE_wf:
  assumes "\<And>x A A'. x \<in> set xs \<Longrightarrow> P A \<Longrightarrow> f x A = Inr A' \<Longrightarrow> P A'"
    and "P A" and "forE f xs A = Inr A'"
  shows "P A'"
  using assms
proof (induction xs arbitrary: A)
  case Nil
  then show ?case by simp
next
  case (Cons x xs)
  from Cons.prems(3) obtain B where B: "f x A = Inr B" and rest: "forE f xs B = Inr A'"
    by (auto split: sum.splits)
  have "P B" using Cons.prems(1) [OF _ Cons.prems(2) B] by simp
  with rest Cons show ?case by (meson list.set_intros(2))
qed

lemma bindE_Inr: "bindE r f = Inr y \<longleftrightarrow> (\<exists>x. r = Inr x \<and> f x = Inr y)"
  by (auto simp: bindE_def split: sum.splits)

lemma spec_ApplyBatch_wf [wf_intro]:
  assumes "wf_rbac A" and "spec_ApplyBatch tr cx batch A = Inr A'"
  shows "wf_rbac A'"
proof -
  from assms(2) obtain A1 A2 A3 A4 A5 A6 where steps:
      "forE (spec_AddRole tr) (pb_Register batch) A = Inr A1"
      "forE spec_UpdateRole (pb_Update batch) A1 = Inr A2"
      "forE (\<lambda>(n, rs). spec_SetRoleRules n rs) (ranged cx (pb_RuleUpdates batch)) A2 = Inr A3"
      "forE (\<lambda>(n, m). spec_SetRoleMetadata n (tr_stored tr m)) (ranged cx (pb_MetadataUpdates batch)) A3 = Inr A4"
      "forE (\<lambda>ra. spec_UnassignRole (ra_UserID ra) (ra_RoleName ra)) (pb_Unassign batch) A4 = Inr A5"
      "forE (\<lambda>ra. spec_AssignRole (ra_UserID ra) (ra_RoleName ra)) (pb_Assign batch) A5 = Inr A6"
      "forE spec_DeleteRole (pb_Delete batch) A6 = Inr A'"
    by (auto simp: spec_ApplyBatch_def bindE_Inr split: option.splits)
  note keep = forE_wf [where P = wf_rbac]
  have 1: "wf_rbac A1" by (rule keep [OF _ assms(1) steps(1)]) (rule spec_AddRole_wf)
  have 2: "wf_rbac A2" by (rule keep [OF _ 1 steps(2)]) (rule spec_UpdateRole_wf)
  have 3: "wf_rbac A3"
    by (rule keep [OF _ 2 steps(3)]) (auto split: prod.splits intro: spec_SetRoleRules_wf)
  have 4: "wf_rbac A4"
    by (rule keep [OF _ 3 steps(4)]) (auto split: prod.splits intro: spec_SetRoleMetadata_wf)
  have 5: "wf_rbac A5" by (rule keep [OF _ 4 steps(5)]) (rule spec_UnassignRole_wf)
  have 6: "wf_rbac A6" by (rule keep [OF _ 5 steps(6)]) (rule spec_AssignRole_wf)
  show ?thesis by (rule keep [OF _ 6 steps(7)]) (rule spec_DeleteRole_wf)
qed

subsection \<open>What a client relies on\<close>

text \<open>
  \<^verbatim>\<open>Store\<close>: in a good state, an answer of the two reads describes the abstract state, and a
  mutation has no effect or the specified one. With a live context the reads answer and the
  outcome of a mutation is the specified one.
\<close>

locale rbac_store =
  fixes ops :: "'s store_ops"
    and tr :: store_traits
    and okay :: "'s \<Rightarrow> bool"
    and absf :: "'s \<Rightarrow> rbac"
  assumes well_formed: "okay s \<Longrightarrow> wf_rbac (absf s)"
    and getter_roles: "okay s \<Longrightarrow> abs_roles (g_roles (so_Getter ops cx s)) = ab_roles (absf s)"
    and getter_live: "okay s \<Longrightarrow> cx_Err cx = None \<Longrightarrow> never_fails (so_Getter ops cx s)"
    and get_roles: "okay s \<Longrightarrow> so_GetRoles ops cx u s = Inr rs \<Longrightarrow>
      distinct rs \<and> (\<forall>r. r \<in> set rs \<longleftrightarrow> (u, r) |\<in>| ab_assign (absf s))"
    and get_roles_live: "okay s \<Longrightarrow> cx_Err cx = None \<Longrightarrow> \<exists>rs. so_GetRoles ops cx u s = Inr rs"
    and add_role: "okay s \<Longrightarrow> performs okay absf (so_AddRole ops cx role) s (spec_AddRole tr role (absf s))"
    and add_role_live: "okay s \<Longrightarrow> cx_Err cx = None \<Longrightarrow>
      implements okay absf (so_AddRole ops cx role) s (spec_AddRole tr role (absf s))"
    and assign_role: "okay s \<Longrightarrow> performs okay absf (so_AssignRole ops cx u r) s (spec_AssignRole u r (absf s))"
    and assign_role_live: "okay s \<Longrightarrow> cx_Err cx = None \<Longrightarrow>
      implements okay absf (so_AssignRole ops cx u r) s (spec_AssignRole u r (absf s))"

text \<open>The optional interfaces, all of them implemented.\<close>

locale managed_rbac_store = rbac_store +
  fixes upd del unas prefixed rules meta batch
  assumes interfaces: "so_UpdateRole ops = Some upd" "so_DeleteRole ops = Some del"
      "so_UnassignRole ops = Some unas" "so_ListRolesByPrefix ops = Some prefixed"
      "so_RuleStore ops = Some rules" "so_MetadataStore ops = Some meta"
      "so_ApplyPolicyBatch ops = Some batch"
    and update_role: "okay s \<Longrightarrow> performs okay absf (upd cx role) s (spec_UpdateRole role (absf s))"
    and update_role_live: "okay s \<Longrightarrow> cx_Err cx = None \<Longrightarrow>
      implements okay absf (upd cx role) s (spec_UpdateRole role (absf s))"
    and delete_role: "okay s \<Longrightarrow> performs okay absf (del cx r) s (spec_DeleteRole r (absf s))"
    and delete_role_live: "okay s \<Longrightarrow> cx_Err cx = None \<Longrightarrow>
      implements okay absf (del cx r) s (spec_DeleteRole r (absf s))"
    and unassign_role: "okay s \<Longrightarrow> performs okay absf (unas cx u r) s (spec_UnassignRole u r (absf s))"
    and unassign_role_live: "okay s \<Longrightarrow> cx_Err cx = None \<Longrightarrow>
      implements okay absf (unas cx u r) s (spec_UnassignRole u r (absf s))"
    and list_roles: "okay s \<Longrightarrow> fair_range cx \<Longrightarrow> prefixed cx p s = Inr found \<Longrightarrow>
      distinct (map role_Name found) \<and>
      (\<forall>r. r \<in> set found \<longleftrightarrow>
        fmlookup (g_roles (so_Getter ops cx s)) (role_Name r) = Some r \<and> HasPrefix (role_Name r) p)"
    and list_roles_live: "okay s \<Longrightarrow> cx_Err cx = None \<Longrightarrow> \<exists>found. prefixed cx p s = Inr found"
    and set_rules: "okay s \<Longrightarrow>
      performs okay absf (rs_SetRoleRules rules cx r rs) s (spec_SetRoleRules r rs (absf s))"
    and set_rules_live: "okay s \<Longrightarrow> cx_Err cx = None \<Longrightarrow>
      implements okay absf (rs_SetRoleRules rules cx r rs) s (spec_SetRoleRules r rs (absf s))"
    and get_rules: "okay s \<Longrightarrow> rs_GetRoleRules rules cx r s = Inr found_rules \<Longrightarrow>
      found_rules = rules_of (absf s) r"
    and get_rules_live: "okay s \<Longrightarrow> cx_Err cx = None \<Longrightarrow>
      rs_GetRoleRules rules cx r s =
        (if fmhas (ab_roles (absf s)) r then Inr (rules_of (absf s) r) else Inl ErrRoleNotFound)"
    and set_meta: "okay s \<Longrightarrow>
      performs okay absf (md_SetRoleMetadata meta cx r m) s (spec_SetRoleMetadata r (tr_stored tr m) (absf s))"
    and set_meta_live: "okay s \<Longrightarrow> cx_Err cx = None \<Longrightarrow>
      implements okay absf (md_SetRoleMetadata meta cx r m) s (spec_SetRoleMetadata r (tr_stored tr m) (absf s))"
    and get_meta: "okay s \<Longrightarrow> cx_Err cx = None \<Longrightarrow>
      md_GetRoleMetadata meta cx r s =
        (if fmhas (ab_roles (absf s)) r then Inr (meta_of (absf s) r) else Inl ErrRoleNotFound)"
    and next_version: "so_PolicyVersioner ops = Some versions \<Longrightarrow> okay s \<Longrightarrow>
      okay (fst (pv_Next versions cx s)) \<and> absf (fst (pv_Next versions cx s)) = absf s"
    and apply_batch: "okay s \<Longrightarrow> fair_range cx \<Longrightarrow>
      performs okay absf (batch cx b) s (spec_ApplyBatch tr cx b (absf s))"
    and apply_batch_live: "okay s \<Longrightarrow> cx_Err cx = None \<Longrightarrow> fair_range cx \<Longrightarrow>
      implements okay absf (batch cx b) s (spec_ApplyBatch tr cx b (absf s))"

text \<open>
  The form in which a client uses a mutation: on success the state moved as specified, on failure
  it did not move.
\<close>

lemma implements_cases:
  assumes "implements ok absf f s outcome"
  obtains (refused) e where "outcome = Inl e" and "snd (f s) = Some e" and "ok (fst (f s))"
      and "absf (fst (f s)) = absf s"
    | (applied) A where "outcome = Inr A" and "snd (f s) = None" and "ok (fst (f s))"
      and "absf (fst (f s)) = A"
  using assms unfolding implements_def by (cases outcome) auto

lemma implementsI:
  assumes "\<And>e. outcome = Inl e \<Longrightarrow> f s = (s, Some e)"
    and "\<And>A. outcome = Inr A \<Longrightarrow> snd (f s) = None \<and> ok (fst (f s)) \<and> absf (fst (f s)) = A"
    and "ok s"
  shows "implements ok absf f s outcome"
  using assms unfolding implements_def by (cases outcome) auto

lemma implements_keeps:
  assumes "\<And>s. ok s \<Longrightarrow> implements ok absf f s (g s)"
  shows "keeps ok f"
  using assms unfolding implements_def keeps_def by blast

end
