(* ===== verification/Decision.thy ===== *)
theory Decision
  imports Admin RbacSpec
begin

text \<open>
  What a decision is: its specification over the abstract state of the store, and the proof, for
  any store and cache that satisfy their contracts, that \<^verbatim>\<open>EnforceCtx\<close> and \<^verbatim>\<open>EnforceOwnedCtx\<close>
  compute it, with or without a cached snapshot.
\<close>

subsection \<open>The specification\<close>

text \<open>A permission with the wildcards of \<^verbatim>\<open>WithWildcardPermissions\<close>.\<close>

definition permitted ::
  "('s, 'c, 'x) enforcer \<Rightarrow> (string \<Rightarrow> string \<Rightarrow> bool) \<Rightarrow> string \<Rightarrow> string \<Rightarrow> bool" where
  "permitted e P resource action \<longleftrightarrow>
     P resource action \<or>
     en_wildcards e \<and> (P resource ''*'' \<or> P ''*'' action \<or> P ''*'' ''*'')"

definition may :: "('s, 'c, 'x) enforcer \<Rightarrow> rbac \<Rightarrow> string \<Rightarrow> string \<Rightarrow> string \<Rightarrow> bool" where
  "may e A userID = permitted e (entitled A (userKey e userID))"

text \<open>
  A rule list denies when a matching deny rule holds or cannot be decided; it allows when a matching
  allow rule holds.
\<close>

definition denies ::
  "('s, 'c, 'x) enforcer \<Rightarrow> string \<Rightarrow> string \<Rightarrow> attributes \<Rightarrow> policy_rule list \<Rightarrow> bool" where
  "denies e resource action facts rules \<longleftrightarrow>
     (\<exists>rule \<in> set rules. ruleMatches e rule resource action \<and> rule_Effect rule = EffectDeny \<and>
        \<not> (\<exists>c \<in> set (rule_Conditions rule). conditionMatches c facts = (False, True)))"

definition allows ::
  "('s, 'c, 'x) enforcer \<Rightarrow> string \<Rightarrow> string \<Rightarrow> attributes \<Rightarrow> policy_rule list \<Rightarrow> bool" where
  "allows e resource action facts rules \<longleftrightarrow>
     (\<exists>rule \<in> set rules. ruleMatches e rule resource action \<and> rule_Effect rule = EffectAllow \<and>
        (\<forall>c \<in> set (rule_Conditions rule). conditionMatches c facts = (True, True)))"

text \<open>
  The decision for a user, given the answer \<open>base\<close> of the permissions: without rules it is \<open>base\<close>;
  with rules, no role the user holds may deny, and \<open>base\<close> or one of the roles must allow.
\<close>

definition decision ::
  "('s, 'c, 'x) enforcer \<Rightarrow> rbac \<Rightarrow> string \<Rightarrow> string \<Rightarrow> string \<Rightarrow> attributes \<Rightarrow> bool \<Rightarrow> bool" where
  "decision e A userID resource action attrs base \<longleftrightarrow>
     (if \<not> en_rulesEnabled e then base
      else let holds = holds_role A (userKey e userID); facts = add_facts e userID attrs
           in (\<forall>x. holds x \<longrightarrow> \<not> denies e resource action facts (rules_of A x)) \<and>
              (base \<or> (\<exists>x. holds x \<and> allows e resource action facts (rules_of A x))))"

subsection \<open>The loops over the rules\<close>

lemma deny_condition:
  "fst (conditionsMatch cs facts) \<or> \<not> snd (conditionsMatch cs facts) \<longleftrightarrow>
     \<not> (\<exists>c \<in> set cs. conditionMatches c facts = (False, True))"
  by (simp add: conditionsMatch_spec)

lemma effects_differ: "EffectAllow \<noteq> EffectDeny"
  by (simp add: EffectAllow_def EffectDeny_def)

lemma rulesLoop_spec:
  "rulesLoop e res act facts rules allowed =
     (if denies e res act facts rules then None else Some (allowed \<or> allows e res act facts rules))"
proof (induction rules arbitrary: allowed)
  case Nil
  then show ?case by (simp add: denies_def allows_def)
next
  case (Cons rule rules)
  let ?m = "conditionsMatch (rule_Conditions rule) facts"
  let ?deny = "ruleMatches e rule res act \<and> rule_Effect rule = EffectDeny \<and> (fst ?m \<or> \<not> snd ?m)"
  let ?allow = "ruleMatches e rule res act \<and> rule_Effect rule = EffectAllow \<and> fst ?m"
  have d: "denies e res act facts (rule # rules) \<longleftrightarrow> ?deny \<or> denies e res act facts rules"
    unfolding denies_def deny_condition by auto
  have a: "allows e res act facts (rule # rules) \<longleftrightarrow> ?allow \<or> allows e res act facts rules"
    unfolding allows_def conditionsMatch_True by auto
  show ?case
    unfolding d a using Cons.IH effects_differ by (auto simp: split_beta)
qed

lemma rolesLoop_spec:
  assumes "\<And>n. n \<in> set names \<Longrightarrow> get n = Inr (R n)"
    and "\<And>n. n \<in> set names \<Longrightarrow> validateRules (R n) = None"
  shows "rolesLoop e get res act facts names allowed =
    Inr ((\<forall>n \<in> set names. \<not> denies e res act facts (R n)) \<and>
         (allowed \<or> (\<exists>n \<in> set names. allows e res act facts (R n))))"
  using assms by (induction names arbitrary: allowed) (auto simp: rulesLoop_spec)

text \<open>A loop that answers has the same answer, whatever the roles it could not read.\<close>

lemma rolesLoop_answer:
  assumes "\<And>n rules. n \<in> set names \<Longrightarrow> get n = Inr rules \<Longrightarrow> rules = R n"
    and "rolesLoop e get res act facts names allowed = Inr b"
  shows "b \<longleftrightarrow> (\<forall>n \<in> set names. \<not> denies e res act facts (R n)) \<and>
    (allowed \<or> (\<exists>n \<in> set names. allows e res act facts (R n)))"
  using assms
  by (induction names arbitrary: allowed)
    (auto simp: rulesLoop_spec split: sum.splits option.splits if_splits)

text \<open>
  A granted decision has looked at every role's rules: nothing that ends the loop early grants.
\<close>

lemma rolesLoop_granted:
  "rolesLoop e get res act facts names allowed = Inr True \<Longrightarrow> n \<in> set names \<Longrightarrow>
     \<exists>rules. get n = Inr rules \<and> validateRules rules = None \<and> \<not> denies e res act facts rules"
  by (induction names arbitrary: allowed)
    (auto simp: rulesLoop_spec split: sum.splits option.splits if_splits)

lemma matchPermission_permitted: "matchPermission e ps = permitted e (ps_get ps)"
  by (auto simp: matchPermission_def permitted_def fun_eq_iff)

lemma permitted_cong: "(\<And>r a. P r a \<longleftrightarrow> Q r a) \<Longrightarrow> permitted e P = permitted e Q"
  by (auto simp: permitted_def fun_eq_iff)

subsection \<open>Reading the store\<close>

context rbac_store
begin

lemma graph_acyclic: "okay s \<Longrightarrow> acyclic_roles (g_roles (so_Getter ops cx s))"
  using wf_rbacD(1) [OF well_formed] getter_roles [of s cx] ab_acyclic_abs by metis

lemma grants_eq: "okay s \<Longrightarrow> grants (g_roles (so_Getter ops cx s)) = ab_grants (ab_roles (absf s))"
  by (metis getter_roles ab_grants_abs)

lemma parent_eq: "okay s \<Longrightarrow> parent (g_roles (so_Getter ops cx s)) = ab_parent (ab_roles (absf s))"
  by (metis getter_roles ab_parent_abs)

lemma has_role_eq: "okay s \<Longrightarrow> fmhas (g_roles (so_Getter ops cx s)) n \<longleftrightarrow> fmhas (ab_roles (absf s)) n"
  by (metis getter_roles fmhas_abs_roles)

lemma loadPermissions_entitled:
  assumes e: "en_store e = ops" and s: "okay s" and run: "loadPermissions e cx u s = Inr ps"
  shows "ps_get ps r a \<longleftrightarrow> entitled (absf s) (userKey e u) r a"
proof -
  let ?g = "so_Getter ops cx s"
  from run e obtain roles where roles: "so_GetRoles ops cx (userKey e u) s = Inr roles"
    and loop: "forE (\<lambda>name ps. collectEffective ?g name ps {||}) roles fmempty = Inr ps"
    by (auto simp: loadPermissions_def split: sum.splits)
  have "ps_get ps r a \<longleftrightarrow> (\<exists>n \<in> set roles. grants (g_roles ?g) n r a) \<or> ps_get fmempty r a"
    by (rule forE_union [OF _ loop]) (rule collectEffective_grants)
  then show ?thesis
    using get_roles [OF s roles] by (auto simp: entitled_def grants_eq [OF s])
qed

lemma loadPermissions_live:
  assumes e: "en_store e = ops" and s: "okay s" and live: "cx_Err cx = None"
  shows "\<exists>ps. loadPermissions e cx u s = Inr ps"
proof -
  let ?g = "so_Getter ops cx s"
  obtain roles where roles: "so_GetRoles ops cx (userKey e u) s = Inr roles"
    using get_roles_live [OF s live] by blast
  have "collectEffective ?g n perm {||} = Inr (projr (collectEffective ?g n perm {||}))" for n perm
    using collectEffective_acyclic [OF getter_live [OF s live] graph_acyclic [OF s], of n perm]
    by (metis sum.sel(2))
  then have "forE (\<lambda>name ps. collectEffective ?g name ps {||}) roles fmempty =
      Inr (fold (\<lambda>name ps. projr (collectEffective ?g name ps {||})) roles fmempty)"
    by (intro forE_fold) blast
  with roles e show ?thesis by (simp add: loadPermissions_def)
qed

lemma collectRoleNames_holds:
  assumes s: "okay s" and roles: "so_GetRoles ops cx u s = Inr names"
    and run: "collectRoleNames (so_Getter ops cx s) names {||} = Inr seen"
  shows "x |\<in>| seen \<longleftrightarrow> holds_role (absf s) u x"
  using collectRoleNames_iff [OF run, of x] get_roles [OF s roles]
  by (auto simp: holds_role_def has_role_eq [OF s] parent_eq [OF s])

lemma collectRoleNames_live:
  assumes s: "okay s" and live: "cx_Err cx = None"
  obtains names seen where "so_GetRoles ops cx u s = Inr names"
    and "collectRoleNames (so_Getter ops cx s) names {||} = Inr seen"
  using get_roles_live [OF s live] collectRoleNames_answers [OF getter_live [OF s live]] by blast

end

context managed_rbac_store
begin

lemma evaluateRules_answer:
  assumes e: "en_store e = ops" and s: "okay s" and fair: "fair_range cx"
    and run: "evaluateRules e cx u res act base attrs s = Inr b"
  shows "b \<longleftrightarrow> decision e (absf s) u res act attrs base"
proof (cases "en_rulesEnabled e")
  case False
  with run show ?thesis by (simp add: evaluateRules_def decision_def)
next
  case True
  from run True e interfaces obtain names seen where
    names: "so_GetRoles ops cx (userKey e u) s = Inr names"
    and seen: "collectRoleNames (so_Getter ops cx s) names {||} = Inr seen"
    and loop: "rolesLoop e (\<lambda>n. rs_GetRoleRules rules cx n s) res act (add_facts e u attrs)
      (cx_range cx seen) base = Inr b"
    by (auto simp: evaluateRules_def split: sum.splits)
  have "set (cx_range cx seen) = fset seen" using fair by (simp add: fair_range_def)
  then show ?thesis
    using rolesLoop_answer [OF get_rules [OF s] loop] collectRoleNames_holds [OF s names seen] True
    by (auto simp: decision_def Let_def)
qed

lemma evaluateRules_decision:
  assumes e: "en_store e = ops" and s: "okay s" and live: "cx_Err cx = None" and fair: "fair_range cx"
  shows "evaluateRules e cx u res act base attrs s = Inr (decision e (absf s) u res act attrs base)"
proof (cases "en_rulesEnabled e")
  case False
  then show ?thesis by (simp add: evaluateRules_def decision_def)
next
  case True
  obtain names seen where names: "so_GetRoles ops cx (userKey e u) s = Inr names"
    and seen: "collectRoleNames (so_Getter ops cx s) names {||} = Inr seen"
    using collectRoleNames_live [OF s live] by blast
  note held = collectRoleNames_holds [OF s names seen]
  have range: "set (cx_range cx seen) = fset seen" using fair by (simp add: fair_range_def)
  have get: "rs_GetRoleRules rules cx n s = Inr (rules_of (absf s) n)" if "n \<in> set (cx_range cx seen)" for n
    using that held get_rules_live [OF s live, of n] by (simp add: range holds_role_def)
  have valid: "validateRules (rules_of (absf s) n) = None" for n
    using wf_rbacD(4) [OF well_formed [OF s], of n]
    by (auto simp: rules_of_def cloneRules_def validateRules_def split: option.splits if_splits)
  have "evaluateRules e cx u res act base attrs s =
      rolesLoop e (\<lambda>n. rs_GetRoleRules rules cx n s) res act (add_facts e u attrs) (cx_range cx seen) base"
    using True names seen e interfaces by (simp add: evaluateRules_def)
  also have "\<dots> = Inr (decision e (absf s) u res act attrs base)"
    using True held by (subst rolesLoop_spec [OF get valid]) (auto simp: decision_def Let_def range)
  finally show ?thesis .
qed

end

end
