(* ===== verification/MemoryStore.thy ===== *)
theory MemoryStore
  imports RbacSpec
begin

text \<open>
  The in-memory backend of \<^verbatim>\<open>memory_store.go\<close> and \<^verbatim>\<open>memory_extensions.go\<close>. Every method
  holds the store's mutex for its whole body, so a method is one step on the state. The defensive
  copies of slices and maps that the code makes are values here.
\<close>

record mem =
  m_roles :: "(string, role) fmap"
  m_users :: "(string, string list) fmap"
  m_roleUsers :: "(string, string fset) fmap"
  m_rules :: "(string, policy_rule list) fmap"
  m_metadata :: "(string, (string, string) fmap) fmap"

definition NewMemoryStore :: mem where
  "NewMemoryStore = \<lparr>m_roles = fmempty, m_users = fmempty, m_roleUsers = fmempty,
     m_rules = fmempty, m_metadata = fmempty\<rparr>"

text \<open>Reading a missing key of a map of slices or sets gives the empty one.\<close>

definition user_roles :: "mem \<Rightarrow> string \<Rightarrow> string list" where
  "user_roles s u = (case fmlookup (m_users s) u of None \<Rightarrow> [] | Some rs \<Rightarrow> rs)"

definition role_users :: "mem \<Rightarrow> string \<Rightarrow> string fset" where
  "role_users s r = (case fmlookup (m_roleUsers s) r of None \<Rightarrow> {||} | Some us \<Rightarrow> us)"

subsection \<open>Roles\<close>

definition mem_AddRole :: "ctx \<Rightarrow> role \<Rightarrow> mem mutation" where
  "mem_AddRole cx role s =
     (if \<not> validRole role then (s, Some ErrInvalidRole)
      else if fmhas (m_roles s) (role_Name role) then (s, Some ErrRoleExists)
      else if \<not> list_all (fmhas (m_roles s)) (role_Parents role) then (s, Some ErrParentNotFound)
      else let s' = s\<lparr>m_roles := fmupd (role_Name role) role (m_roles s)\<rparr>
           in case detectCycle (m_roles s') (role_Name role) {||} of
                Some e \<Rightarrow> (s'\<lparr>m_roles := fmdrop (role_Name role) (m_roles s')\<rparr>, Some e)
              | None \<Rightarrow> (s', None))"

definition mem_GetRole :: "ctx \<Rightarrow> mem \<Rightarrow> getter" where
  "mem_GetRole cx s = \<lparr>g_fail = (\<lambda>_. None), g_roles = m_roles s\<rparr>"

definition mem_UpdateRole :: "ctx \<Rightarrow> role \<Rightarrow> mem mutation" where
  "mem_UpdateRole cx role s =
     (if \<not> validRole role then (s, Some ErrInvalidRole)
      else case fmlookup (m_roles s) (role_Name role) of
        None \<Rightarrow> (s, Some ErrRoleNotFound)
      | Some old \<Rightarrow>
          if \<not> list_all (fmhas (m_roles s)) (role_Parents role) then (s, Some ErrParentNotFound)
          else let updated = \<lparr>role_Name = role_Name old, role_Permissions = role_Permissions role,
                               role_Parents = role_Parents role\<rparr>;
                   s' = s\<lparr>m_roles := fmupd (role_Name role) updated (m_roles s)\<rparr>
               in case detectCycle (m_roles s') (role_Name role) {||} of
                    Some e \<Rightarrow> (s'\<lparr>m_roles := fmupd (role_Name role) old (m_roles s')\<rparr>, Some e)
                  | None \<Rightarrow> (s', None))"

definition mem_DeleteRole :: "ctx \<Rightarrow> string \<Rightarrow> mem mutation" where
  "mem_DeleteRole cx name s =
     (if \<not> fmhas (m_roles s) name then (s, Some ErrRoleNotFound)
      else if role_users s name \<noteq> {||} then (s, Some ErrRoleInUse)
      else (s\<lparr>m_roles := fmmap (\<lambda>role. role\<lparr>role_Parents := filter (\<lambda>p. p \<noteq> name) (role_Parents role)\<rparr>)
                            (fmdrop name (m_roles s)),
              m_rules := fmdrop name (m_rules s),
              m_metadata := fmdrop name (m_metadata s),
              m_roleUsers := fmdrop name (m_roleUsers s)\<rparr>, None))"

definition mem_ListRoles :: "ctx \<Rightarrow> mem \<Rightarrow> err + role list" where
  "mem_ListRoles cx s = Inr (map snd (ranged cx (m_roles s)))"

definition mem_ListRolesByPrefix :: "ctx \<Rightarrow> string \<Rightarrow> mem \<Rightarrow> err + role list" where
  "mem_ListRolesByPrefix cx prefix s =
     Inr (filter (\<lambda>role. HasPrefix (role_Name role) prefix) (map snd (ranged cx (m_roles s))))"

subsection \<open>Assignments\<close>

definition mem_AssignRole :: "ctx \<Rightarrow> string \<Rightarrow> string \<Rightarrow> mem mutation" where
  "mem_AssignRole cx userID roleName s =
     (if \<not> fmhas (m_roles s) roleName then (s, Some ErrRoleNotFound)
      else let assigned = role_users s roleName
           in if userID |\<in>| assigned
              then (s\<lparr>m_roleUsers := fmupd roleName assigned (m_roleUsers s)\<rparr>, None)
              else (s\<lparr>m_roleUsers := fmupd roleName (finsert userID assigned) (m_roleUsers s),
                      m_users := fmupd userID (user_roles s userID @ [roleName]) (m_users s)\<rparr>, None))"

definition mem_GetRoles :: "ctx \<Rightarrow> string \<Rightarrow> mem \<Rightarrow> err + string list" where
  "mem_GetRoles cx userID s = Inr (user_roles s userID)"

text \<open>The reverse index loses the user only when the user's list held the role.\<close>

definition unindex :: "string \<Rightarrow> string \<Rightarrow> mem \<Rightarrow> mem" where
  "unindex userID roleName s =
     (case fmlookup (m_roleUsers s) roleName of
        None \<Rightarrow> s
      | Some assigned \<Rightarrow>
          let assigned' = assigned |-| {|userID|}
          in s\<lparr>m_roleUsers := (if assigned' = {||} then fmdrop roleName (m_roleUsers s)
                                else fmupd roleName assigned' (m_roleUsers s))\<rparr>)"

definition mem_UnassignRole :: "ctx \<Rightarrow> string \<Rightarrow> string \<Rightarrow> mem mutation" where
  "mem_UnassignRole cx userID roleName s =
     (if \<not> fmhas (m_roles s) roleName then (s, Some ErrRoleNotFound)
      else let roles = user_roles s userID;
               filtered = filter (\<lambda>r. r \<noteq> roleName) roles;
               s' = (if roleName \<in> set roles then unindex userID roleName s else s)
           in (s'\<lparr>m_users := (if filtered = [] then fmdrop userID (m_users s')
                               else fmupd userID filtered (m_users s'))\<rparr>, None))"

subsection \<open>Rules and metadata\<close>

definition mem_SetRoleRules :: "ctx \<Rightarrow> string \<Rightarrow> policy_rule list \<Rightarrow> mem mutation" where
  "mem_SetRoleRules cx name rules s =
     (case cx_Err cx of
        Some e \<Rightarrow> (s, Some e)
      | None \<Rightarrow>
          (case cloneRules rules of
             Inl e \<Rightarrow> (s, Some e)
           | Inr copy \<Rightarrow>
               if \<not> fmhas (m_roles s) name then (s, Some ErrRoleNotFound)
               else (s\<lparr>m_rules := fmupd name copy (m_rules s)\<rparr>, None)))"

definition mem_GetRoleRules :: "ctx \<Rightarrow> string \<Rightarrow> mem \<Rightarrow> err + policy_rule list" where
  "mem_GetRoleRules cx name s =
     (case cx_Err cx of
        Some e \<Rightarrow> Inl e
      | None \<Rightarrow>
          if \<not> fmhas (m_roles s) name then Inl ErrRoleNotFound
          else cloneRules (case fmlookup (m_rules s) name of None \<Rightarrow> [] | Some rs \<Rightarrow> rs))"

definition mem_SetRoleMetadata :: "ctx \<Rightarrow> string \<Rightarrow> (string, string) fmap \<Rightarrow> mem mutation" where
  "mem_SetRoleMetadata cx name metadata s =
     (case cx_Err cx of
        Some e \<Rightarrow> (s, Some e)
      | None \<Rightarrow>
          if \<not> fmhas (m_roles s) name then (s, Some ErrRoleNotFound)
          else (s\<lparr>m_metadata := fmupd name metadata (m_metadata s)\<rparr>, None))"

definition mem_GetRoleMetadata :: "ctx \<Rightarrow> string \<Rightarrow> mem \<Rightarrow> err + (string, string) fmap" where
  "mem_GetRoleMetadata cx name s =
     (case cx_Err cx of
        Some e \<Rightarrow> Inl e
      | None \<Rightarrow>
          if \<not> fmhas (m_roles s) name then Inl ErrRoleNotFound
          else Inr (case fmlookup (m_metadata s) name of None \<Rightarrow> fmempty | Some m \<Rightarrow> m))"

subsection \<open>Batches\<close>

definition mem_rules_ops :: "mem rule_store" where
  "mem_rules_ops = \<lparr>rs_SetRoleRules = mem_SetRoleRules, rs_GetRoleRules = mem_GetRoleRules\<rparr>"

definition mem_metadata_ops :: "mem metadata_store" where
  "mem_metadata_ops =
     \<lparr>md_SetRoleMetadata = mem_SetRoleMetadata, md_GetRoleMetadata = mem_GetRoleMetadata\<rparr>"

text \<open>The operations that \<^verbatim>\<open>applyBatch\<close> calls on the copy.\<close>

definition mem_base_ops :: "mem store_ops" where
  "mem_base_ops =
     \<lparr>so_AddRole = mem_AddRole, so_Getter = mem_GetRole, so_AssignRole = mem_AssignRole,
      so_GetRoles = mem_GetRoles, so_DeleteRole = Some mem_DeleteRole,
      so_UnassignRole = Some mem_UnassignRole, so_ListRoles = Some mem_ListRoles,
      so_ListRolesByPrefix = Some mem_ListRolesByPrefix, so_UpdateRole = Some mem_UpdateRole,
      so_RuleStore = Some mem_rules_ops, so_MetadataStore = Some mem_metadata_ops,
      so_ApplyPolicyBatch = None, so_PolicyVersioner = None\<rparr>"

text \<open>The deep copy: only the rules are re-encoded, so only they can fail.\<close>

definition mem_copy :: "ctx \<Rightarrow> mem \<Rightarrow> err + mem" where
  "mem_copy cx s =
     (case forE (\<lambda>(name, rules) acc. case cloneRules rules of
                   Inl e \<Rightarrow> Inl e
                 | Inr cloned \<Rightarrow> Inr (fmupd name cloned acc))
             (ranged cx (m_rules s)) fmempty of
        Inl e \<Rightarrow> Inl e
      | Inr rules \<Rightarrow> Inr (s\<lparr>m_rules := rules\<rparr>))"

definition mem_ApplyPolicyBatch :: "ctx \<Rightarrow> policy_batch \<Rightarrow> mem mutation" where
  "mem_ApplyPolicyBatch cx batch s =
     (case validateBatch cx batch of
        Some e \<Rightarrow> (s, Some e)
      | None \<Rightarrow>
          (case mem_copy cx s of
             Inl e \<Rightarrow> (s, Some e)
           | Inr copy \<Rightarrow>
               (case applyBatch mem_base_ops cx batch copy of
                  (_, Some e) \<Rightarrow> (s, Some e)
                | (copy', None) \<Rightarrow>
                    (s\<lparr>m_roles := m_roles copy', m_users := m_users copy',
                       m_roleUsers := m_roleUsers copy', m_rules := m_rules copy',
                       m_metadata := m_metadata copy'\<rparr>, None))))"

definition mem_ops :: "mem store_ops" where
  "mem_ops = mem_base_ops\<lparr>so_ApplyPolicyBatch := Some mem_ApplyPolicyBatch\<rparr>"

subsection \<open>The abstraction and the representation invariant\<close>

definition mem_abs :: "mem \<Rightarrow> rbac" where
  "mem_abs s =
     \<lparr>ab_roles = abs_roles (m_roles s),
      ab_assign = ffUnion ((\<lambda>u. fset_of_list (map (Pair u) (user_roles s u))) |`| fmdom (m_users s)),
      ab_rules = m_rules s,
      ab_meta = m_metadata s\<rparr>"

text \<open>
  Every role is stored under its name and is valid; the lists of the users and the reverse index
  describe the same relation, without duplicates or empty entries; the abstract state is well formed.
\<close>

definition mem_ok :: "mem \<Rightarrow> bool" where
  "mem_ok s \<longleftrightarrow>
     (\<forall>n r. fmlookup (m_roles s) n = Some r \<longrightarrow> role_Name r = n \<and> validRole r) \<and>
     (\<forall>u r. r \<in> set (user_roles s u) \<longleftrightarrow> u |\<in>| role_users s r) \<and>
     (\<forall>u. distinct (user_roles s u)) \<and>
     (\<forall>u rs. fmlookup (m_users s) u = Some rs \<longrightarrow> rs \<noteq> []) \<and>
     (\<forall>r us. fmlookup (m_roleUsers s) r = Some us \<longrightarrow> us \<noteq> {||}) \<and>
     wf_rbac (mem_abs s)"

lemma mem_abs_roles [simp]: "ab_roles (mem_abs s) = abs_roles (m_roles s)"
  and mem_abs_rules [simp]: "ab_rules (mem_abs s) = m_rules s"
  and mem_abs_meta [simp]: "ab_meta (mem_abs s) = m_metadata s"
  by (simp_all add: mem_abs_def)

lemma mem_abs_assign [simp]: "(u, r) |\<in>| ab_assign (mem_abs s) \<longleftrightarrow> r \<in> set (user_roles s u)"
proof -
  have "(u, r) |\<in>| ab_assign (mem_abs s) \<longleftrightarrow> u |\<in>| fmdom (m_users s) \<and> r \<in> set (user_roles s u)"
    by (force simp: mem_abs_def ffUnion.rep_eq image_iff)
  then show ?thesis by (auto simp: user_roles_def fmlookup_dom_iff split: option.splits)
qed

text \<open>Two states abstract to the same one when their parts do.\<close>

lemma mem_abs_eqI:
  assumes "abs_roles (m_roles s) = ab_roles A" and "m_rules s = ab_rules A" and "m_metadata s = ab_meta A"
    and "\<And>u r. r \<in> set (user_roles s u) \<longleftrightarrow> (u, r) |\<in>| ab_assign A"
  shows "mem_abs s = A"
proof -
  have "ab_assign (mem_abs s) = ab_assign A"
    using assms(4) by (intro fset_eqI) (metis mem_abs_assign surj_pair)
  with assms(1-3) show ?thesis
    by (metis (full_types) mem_abs_meta mem_abs_roles mem_abs_rules rbac.equality old.unit.exhaust)
qed


subsection \<open>Every operation has the specified outcome\<close>

lemma mem_okD:
  assumes "mem_ok s"
  shows "fmlookup (m_roles s) n = Some r \<Longrightarrow> role_Name r = n \<and> validRole r"
    and "r' \<in> set (user_roles s u) \<longleftrightarrow> u |\<in>| role_users s r'"
    and "distinct (user_roles s u)"
    and "wf_rbac (mem_abs s)"
  using assms unfolding mem_ok_def by blast+

lemma mem_roles_wf:
  assumes "mem_ok s"
  shows "acyclic_roles (m_roles s)" and "parent (m_roles s) n p \<Longrightarrow> fmhas (m_roles s) p"
  using wf_rbacD(1,2) [OF mem_okD(4) [OF assms]] by simp_all

lemma abs_roles_fmupd: "abs_roles (fmupd n r roles) = fmupd n (role_entry r) (abs_roles roles)"
  by (rule fmap_ext) (simp add: abs_roles_def)

lemma fmhas_Some: "fmlookup m k = Some v \<Longrightarrow> fmhas m k"
  and fmhas_None: "fmlookup m k = None \<Longrightarrow> \<not> fmhas m k"
  by (simp_all add: fmhas_def)

lemma parents_of_fmupd:
  "parents_of (fmupd n r roles) x = (if x = n then role_Parents r else parents_of roles x)"
  by (cases "x = n") (simp, simp add: parents_of_def)

lemma parent_fmupd:
  "parent (fmupd n r roles) x y \<longleftrightarrow> (if x = n then y \<in> set (role_Parents r) else parent roles x y)"
  by (simp add: parent_def parents_of_fmupd)

lemma role_eta:
  "\<lparr>role_Name = role_Name r, role_Permissions = role_Permissions r, role_Parents = role_Parents r\<rparr> = r"
  by (cases r) simp

text \<open>
  Exchanging the entry of one role in an acyclic graph: the check from that role finds a cycle
  exactly when the new graph has one.
\<close>

lemma detectCycle_fmupd:
  assumes "acyclic_roles roles"
  shows "detectCycle (fmupd n r roles) n {||} =
    (if acyclic_roles (fmupd n r roles) then None else Some ErrCycleDetected)"
proof -
  let ?R = "fmupd n r roles"
  have "cycle_at ?R n" if "cycle_at ?R x" for x
    unfolding cycle_at_def
  proof (rule cycle_through [where P = "parent roles" and x = x])
    show "parent roles x y" if "x \<noteq> n" and "parent ?R x y" for x y
      using that by (simp add: parent_fmupd)
    show "\<not> (parent roles)\<^sup>+\<^sup>+ x x" for x
      using assms by (simp add: acyclic_roles_def cycle_at_def)
    show "(parent ?R)\<^sup>+\<^sup>+ x x" using that by (simp add: cycle_at_def)
  qed
  then show ?thesis by (auto simp: detectCycle_iff acyclic_roles_def)
qed

lemma missing_parent_mem:
  "missing_parent (mem_abs s) role \<longleftrightarrow>
     (\<exists>p \<in> set (role_Parents role). p \<noteq> role_Name role \<and> \<not> fmhas (m_roles s) p)"
  by (simp add: missing_parent_def)

lemma mem_ok_roles:
  assumes "mem_ok s" and "role_Name r = n" and "validRole r"
    and "wf_rbac ((mem_abs s)\<lparr>ab_roles := fmupd n (role_entry r) (ab_roles (mem_abs s))\<rparr>)"
  shows "mem_ok (s\<lparr>m_roles := fmupd n r (m_roles s)\<rparr>) \<and>
    mem_abs (s\<lparr>m_roles := fmupd n r (m_roles s)\<rparr>) =
      (mem_abs s)\<lparr>ab_roles := fmupd n (role_entry r) (ab_roles (mem_abs s))\<rparr>"
proof -
  let ?s = "s\<lparr>m_roles := fmupd n r (m_roles s)\<rparr>"
  have same: "user_roles ?s = user_roles s" "role_users ?s = role_users s"
    by (auto simp: user_roles_def role_users_def fun_eq_iff)
  have absf: "mem_abs ?s = (mem_abs s)\<lparr>ab_roles := fmupd n (role_entry r) (ab_roles (mem_abs s))\<rparr>"
    by (rule mem_abs_eqI) (simp_all add: same abs_roles_fmupd)
  with assms show ?thesis unfolding mem_ok_def absf same by auto
qed

text \<open>The traits of this store: a role that is its own parent misses it, and metadata is kept as it is.\<close>

definition mem_traits :: store_traits where
  "mem_traits = \<lparr>tr_self = ErrParentNotFound, tr_stored = (\<lambda>m. m)\<rparr>"

lemma mem_traits_sel [simp]: "tr_self mem_traits = ErrParentNotFound" "tr_stored mem_traits m = m"
  by (simp_all add: mem_traits_def)

lemma mem_AddRole_implements:
  assumes ok: "mem_ok s"
  shows "implements mem_ok mem_abs (mem_AddRole cx role) s
    (spec_AddRole mem_traits role (mem_abs s))"
proof -
  let ?n = "role_Name role"
  let ?R = "fmupd ?n role (m_roles s)"
  show ?thesis
  proof (rule implementsI [where ok = mem_ok, OF _ _ ok])
    fix e
    assume "spec_AddRole mem_traits role (mem_abs s) = Inl e"
    then show "mem_AddRole cx role s = (s, Some e)"
      by (auto simp: spec_AddRole_def mem_AddRole_def missing_parent_mem list_all_iff split: if_splits)
  next
    fix A
    assume spec: "spec_AddRole mem_traits role (mem_abs s) = Inr A"
    then have valid: "validRole role" and fresh: "\<not> fmhas (m_roles s) ?n"
      and parents: "list_all (fmhas (m_roles s)) (role_Parents role)"
      and A: "A = (mem_abs s)\<lparr>ab_roles := fmupd ?n (role_entry role) (ab_roles (mem_abs s))\<rparr>"
      by (auto simp: spec_AddRole_def missing_parent_mem list_all_iff split: if_splits)
    have wf: "wf_rbac A" using spec_AddRole_wf [OF mem_okD(4) [OF ok] spec] .
    then have "ab_acyclic (abs_roles ?R)" by (simp add: wf_rbac_def A abs_roles_fmupd)
    then have "detectCycle ?R ?n {||} = None"
      using detectCycle_fmupd [OF mem_roles_wf(1) [OF ok]] by simp
    then have "mem_AddRole cx role s = (s\<lparr>m_roles := ?R\<rparr>, None)"
      using valid fresh parents by (simp add: mem_AddRole_def)
    with mem_ok_roles [OF ok refl valid wf [unfolded A]] A
    show "snd (mem_AddRole cx role s) = None \<and> mem_ok (fst (mem_AddRole cx role s)) \<and>
        mem_abs (fst (mem_AddRole cx role s)) = A" by simp
  qed
qed

lemma mem_UpdateRole_implements:
  assumes ok: "mem_ok s"
  shows "implements mem_ok mem_abs (mem_UpdateRole cx role) s (spec_UpdateRole role (mem_abs s))"
proof (cases "validRole role \<and> fmhas (m_roles s) (role_Name role) \<and> \<not> missing_parent (mem_abs s) role")
  case False
  then show ?thesis
    using ok by (cases "fmlookup (m_roles s) (role_Name role)")
      (auto simp: implements_def spec_UpdateRole_def mem_UpdateRole_def missing_parent_mem
        list_all_iff Let_def dest: fmhas_Some fmhas_None)
next
  case True
  let ?n = "role_Name role"
  let ?R = "fmupd ?n role (m_roles s)"
  from True obtain old where old: "fmlookup (m_roles s) ?n = Some old" by (auto simp: fmhas_def)
  have name: "role_Name old = ?n" using mem_okD(1) [OF ok old] by simp
  have "list_all (fmhas (m_roles s)) (role_Parents role)"
    using True by (auto simp: missing_parent_mem list_all_iff)
  then have run: "mem_UpdateRole cx role s =
      (if acyclic_roles ?R then (s\<lparr>m_roles := ?R\<rparr>, None) else (s, Some ErrCycleDetected))"
    using True old name detectCycle_fmupd [OF mem_roles_wf(1) [OF ok], of ?n role]
    by (simp add: mem_UpdateRole_def Let_def role_eta)
  let ?A = "(mem_abs s)\<lparr>ab_roles := fmupd ?n (role_entry role) (ab_roles (mem_abs s))\<rparr>"
  have "ab_acyclic (fmupd ?n (role_entry role) (abs_roles (m_roles s))) \<longleftrightarrow> acyclic_roles ?R"
    using ab_acyclic_abs [of ?R] by (simp add: abs_roles_fmupd)
  then have spec: "spec_UpdateRole role (mem_abs s) = (if acyclic_roles ?R then Inr ?A else Inl ErrCycleDetected)"
    using True by (simp add: spec_UpdateRole_def Let_def)
  show ?thesis
  proof (cases "acyclic_roles ?R")
    case True
    with spec have "wf_rbac ?A" using spec_UpdateRole_wf [OF mem_okD(4) [OF ok]] by simp
    with mem_ok_roles [OF ok refl] \<open>validRole role \<and> _\<close> True run spec show ?thesis
      by (simp add: implements_def)
  next
    case False
    with run spec ok show ?thesis by (simp add: implements_def)
  qed
qed

lemma validRole_Parents [simp]: "validRole (r\<lparr>role_Parents := ps\<rparr>) \<longleftrightarrow> validRole r"
  by (simp add: validRole_def)

lemma mem_DeleteRole_implements:
  assumes ok: "mem_ok s"
  shows "implements mem_ok mem_abs (mem_DeleteRole cx n) s (spec_DeleteRole n (mem_abs s))"
proof (cases "fmhas (m_roles s) n \<and> role_users s n = {||}")
  case False
  then show ?thesis
    using ok mem_okD(2) [OF ok, of n]
    by (auto simp: implements_def spec_DeleteRole_def mem_DeleteRole_def)
next
  case True
  let ?s = "fst (mem_DeleteRole cx n s)"
  have s: "m_roles ?s = fmmap (\<lambda>role. role\<lparr>role_Parents := filter (\<lambda>p. p \<noteq> n) (role_Parents role)\<rparr>)
        (fmdrop n (m_roles s))"
      "m_rules ?s = fmdrop n (m_rules s)" "m_metadata ?s = fmdrop n (m_metadata s)"
      "m_roleUsers ?s = fmdrop n (m_roleUsers s)" "m_users ?s = m_users s"
    and "snd (mem_DeleteRole cx n s) = None"
    using True by (simp_all add: mem_DeleteRole_def)
  have users: "user_roles ?s = user_roles s" "role_users ?s = role_users s"
    using True by (auto simp: user_roles_def role_users_def fun_eq_iff s)
  let ?A = "(mem_abs s)\<lparr>
      ab_roles := fmmap (\<lambda>e. (fst e, snd e |-| {|n|})) (fmdrop n (ab_roles (mem_abs s))),
      ab_rules := fmdrop n (ab_rules (mem_abs s)), ab_meta := fmdrop n (ab_meta (mem_abs s))\<rparr>"
  have spec: "spec_DeleteRole n (mem_abs s) = Inr ?A"
    using True mem_okD(2) [OF ok, of n] by (simp add: spec_DeleteRole_def)
  have "role_entry (r\<lparr>role_Parents := filter (\<lambda>p. p \<noteq> n) (role_Parents r)\<rparr>) =
      (fst (role_entry r), snd (role_entry r) |-| {|n|})" for r
    by (auto simp: role_entry_def)
  then have "abs_roles (m_roles ?s) = fmmap (\<lambda>e. (fst e, snd e |-| {|n|})) (fmdrop n (abs_roles (m_roles s)))"
    by (intro fmap_ext) (simp add: s abs_roles_def option.map_comp comp_def)
  then have absf: "mem_abs ?s = ?A"
    by (intro mem_abs_eqI) (simp_all add: s users)
  have "wf_rbac ?A" using spec_DeleteRole_wf [OF mem_okD(4) [OF ok] spec] .
  with ok have "mem_ok ?s"
    unfolding mem_ok_def users absf s by auto
  with spec absf \<open>snd _ = None\<close> show ?thesis by (simp add: implements_def)
qed

lemma mem_ok_users:
  assumes ok: "mem_ok s" and roles: "m_roles s' = m_roles s" "m_rules s' = m_rules s" "m_metadata s' = m_metadata s"
    and index: "\<And>u r. r \<in> set (user_roles s' u) \<longleftrightarrow> u |\<in>| role_users s' r"
      "\<And>u. distinct (user_roles s' u)" "\<And>u rs. fmlookup (m_users s') u = Some rs \<Longrightarrow> rs \<noteq> []"
      "\<And>r us. fmlookup (m_roleUsers s') r = Some us \<Longrightarrow> us \<noteq> {||}"
    and A: "\<And>u r. r \<in> set (user_roles s' u) \<longleftrightarrow> (u, r) |\<in>| X"
    and wf: "wf_rbac ((mem_abs s)\<lparr>ab_assign := X\<rparr>)"
  shows "mem_ok s' \<and> mem_abs s' = (mem_abs s)\<lparr>ab_assign := X\<rparr>"
proof -
  have absf: "mem_abs s' = (mem_abs s)\<lparr>ab_assign := X\<rparr>"
    by (rule mem_abs_eqI) (simp_all add: roles A)
  with wf have "wf_rbac (mem_abs s')" by simp
  with ok index have "mem_ok s'" unfolding mem_ok_def roles by blast
  with absf show ?thesis by simp
qed

lemma mem_AssignRole_implements:
  assumes ok: "mem_ok s"
  shows "implements mem_ok mem_abs (mem_AssignRole cx u r) s (spec_AssignRole u r (mem_abs s))"
proof (cases "fmhas (m_roles s) r")
  case False
  with ok show ?thesis by (simp add: implements_def spec_AssignRole_def mem_AssignRole_def)
next
  case True
  let ?s = "fst (mem_AssignRole cx u r s)"
  let ?X = "finsert (u, r) (ab_assign (mem_abs s))"
  have s: "m_roles ?s = m_roles s" "m_rules ?s = m_rules s" "m_metadata ?s = m_metadata s"
    and None: "snd (mem_AssignRole cx u r s) = None"
    and users: "user_roles ?s v = (if v = u \<and> r \<notin> set (user_roles s u) then user_roles s u @ [r] else user_roles s v)"
    and index: "role_users ?s x = (if x = r then finsert u (role_users s r) else role_users s x)" for v x
    using True mem_okD(2) [OF ok]
    by (auto simp: mem_AssignRole_def Let_def user_roles_def role_users_def)
  have spec: "spec_AssignRole u r (mem_abs s) = Inr ((mem_abs s)\<lparr>ab_assign := ?X\<rparr>)"
    using True by (simp add: spec_AssignRole_def)
  have "mem_ok ?s \<and> mem_abs ?s = (mem_abs s)\<lparr>ab_assign := ?X\<rparr>"
  proof (rule mem_ok_users [OF ok s])
    show "wf_rbac ((mem_abs s)\<lparr>ab_assign := ?X\<rparr>)"
      using spec_AssignRole_wf [OF mem_okD(4) [OF ok] spec] .
    show "rs \<noteq> []" if "fmlookup (m_users ?s) v = Some rs" for v rs
      using that True ok unfolding mem_ok_def
      by (auto simp: mem_AssignRole_def Let_def split: if_splits)
    show "us \<noteq> {||}" if "fmlookup (m_roleUsers ?s) x = Some us" for x us
      using that True ok unfolding mem_ok_def
      by (auto simp: mem_AssignRole_def Let_def split: if_splits)
  qed (use mem_okD(2,3) [OF ok] in \<open>auto simp: users index\<close>)
  with None spec show ?thesis by (simp add: implements_def)
qed

lemma mem_UnassignRole_implements:
  assumes ok: "mem_ok s"
  shows "implements mem_ok mem_abs (mem_UnassignRole cx u r) s (spec_UnassignRole u r (mem_abs s))"
proof (cases "fmhas (m_roles s) r")
  case False
  with ok show ?thesis by (simp add: implements_def spec_UnassignRole_def mem_UnassignRole_def)
next
  case True
  let ?s = "fst (mem_UnassignRole cx u r s)"
  let ?X = "ab_assign (mem_abs s) |-| {|(u, r)|}"
  have s: "m_roles ?s = m_roles s" "m_rules ?s = m_rules s" "m_metadata ?s = m_metadata s"
    and None: "snd (mem_UnassignRole cx u r s) = None"
    and users: "user_roles ?s v = (if v = u then filter (\<lambda>x. x \<noteq> r) (user_roles s u) else user_roles s v)" for v
    using True
    by (auto simp: mem_UnassignRole_def Let_def unindex_def user_roles_def split: option.splits)
  have index: "role_users ?s x = (if x = r then role_users s r |-| {|u|} else role_users s x)" for x
    using True mem_okD(2) [OF ok, of r u]
    by (auto simp: mem_UnassignRole_def Let_def unindex_def role_users_def split: option.splits)
  have spec: "spec_UnassignRole u r (mem_abs s) = Inr ((mem_abs s)\<lparr>ab_assign := ?X\<rparr>)"
    using True by (simp add: spec_UnassignRole_def)
  have "mem_ok ?s \<and> mem_abs ?s = (mem_abs s)\<lparr>ab_assign := ?X\<rparr>"
  proof (rule mem_ok_users [OF ok s])
    show "wf_rbac ((mem_abs s)\<lparr>ab_assign := ?X\<rparr>)"
      using spec_UnassignRole_wf [OF mem_okD(4) [OF ok] spec] .
    show "rs \<noteq> []" if "fmlookup (m_users ?s) v = Some rs" for v rs
      using that True ok unfolding mem_ok_def
      by (auto simp: mem_UnassignRole_def Let_def unindex_def split: if_splits option.splits)
    show "us \<noteq> {||}" if "fmlookup (m_roleUsers ?s) x = Some us" for x us
      using that True ok unfolding mem_ok_def
      by (auto simp: mem_UnassignRole_def Let_def unindex_def split: if_splits option.splits)
  qed (use mem_okD(2,3) [OF ok] in \<open>auto simp: users index\<close>)
  with None spec show ?thesis by (simp add: implements_def)
qed

lemma mem_ok_extras:
  assumes ok: "mem_ok s" and roles: "m_roles s' = m_roles s" "m_users s' = m_users s"
      "m_roleUsers s' = m_roleUsers s"
    and A: "A = (mem_abs s)\<lparr>ab_rules := m_rules s', ab_meta := m_metadata s'\<rparr>" and wf: "wf_rbac A"
  shows "mem_ok s' \<and> mem_abs s' = A"
proof -
  have users: "user_roles s' = user_roles s" "role_users s' = role_users s"
    by (auto simp: user_roles_def role_users_def fun_eq_iff roles)
  have absf: "mem_abs s' = A"
    by (rule mem_abs_eqI) (simp_all add: roles A users)
  with ok wf have "mem_ok s'" unfolding mem_ok_def roles users by blast
  with absf show ?thesis by simp
qed

lemma mem_SetRoleRules_implements:
  assumes ok: "mem_ok s" and live: "cx_Err cx = None"
  shows "implements mem_ok mem_abs (mem_SetRoleRules cx n rules) s (spec_SetRoleRules n rules (mem_abs s))"
proof (rule implementsI [where ok = mem_ok, OF _ _ ok])
  fix e
  assume "spec_SetRoleRules n rules (mem_abs s) = Inl e"
  then show "mem_SetRoleRules cx n rules s = (s, Some e)"
    using live by (auto simp: spec_SetRoleRules_def mem_SetRoleRules_def split: sum.splits if_splits)
next
  fix A
  assume spec: "spec_SetRoleRules n rules (mem_abs s) = Inr A"
  then obtain rs where "cloneRules rules = Inr rs" and "fmhas (m_roles s) n"
    and A: "A = (mem_abs s)\<lparr>ab_rules := fmupd n rs (m_rules s)\<rparr>"
    by (auto simp: spec_SetRoleRules_def split: sum.splits if_splits)
  then have run: "mem_SetRoleRules cx n rules s = (s\<lparr>m_rules := fmupd n rs (m_rules s)\<rparr>, None)"
    using live by (simp add: mem_SetRoleRules_def)
  have "mem_ok (s\<lparr>m_rules := fmupd n rs (m_rules s)\<rparr>) \<and> mem_abs (s\<lparr>m_rules := fmupd n rs (m_rules s)\<rparr>) = A"
    using spec_SetRoleRules_wf [OF mem_okD(4) [OF ok] spec]
    by (intro mem_ok_extras [OF ok]) (simp_all add: A mem_abs_def)
  with run show "snd (mem_SetRoleRules cx n rules s) = None \<and>
      mem_ok (fst (mem_SetRoleRules cx n rules s)) \<and> mem_abs (fst (mem_SetRoleRules cx n rules s)) = A"
    by simp
qed

lemma mem_SetRoleMetadata_implements:
  assumes ok: "mem_ok s" and live: "cx_Err cx = None"
  shows "implements mem_ok mem_abs (mem_SetRoleMetadata cx n m) s (spec_SetRoleMetadata n m (mem_abs s))"
proof (rule implementsI [where ok = mem_ok, OF _ _ ok])
  fix e
  assume "spec_SetRoleMetadata n m (mem_abs s) = Inl e"
  then show "mem_SetRoleMetadata cx n m s = (s, Some e)"
    using live by (auto simp: spec_SetRoleMetadata_def mem_SetRoleMetadata_def split: if_splits)
next
  fix A
  assume spec: "spec_SetRoleMetadata n m (mem_abs s) = Inr A"
  then have has: "fmhas (m_roles s) n" and A: "A = (mem_abs s)\<lparr>ab_meta := fmupd n m (m_metadata s)\<rparr>"
    by (auto simp: spec_SetRoleMetadata_def split: if_splits)
  have "mem_ok (s\<lparr>m_metadata := fmupd n m (m_metadata s)\<rparr>) \<and>
      mem_abs (s\<lparr>m_metadata := fmupd n m (m_metadata s)\<rparr>) = A"
    using spec_SetRoleMetadata_wf [OF mem_okD(4) [OF ok] spec]
    by (intro mem_ok_extras [OF ok]) (simp_all add: A mem_abs_def)
  with has live show "snd (mem_SetRoleMetadata cx n m s) = None \<and>
      mem_ok (fst (mem_SetRoleMetadata cx n m s)) \<and> mem_abs (fst (mem_SetRoleMetadata cx n m s)) = A"
    by (simp add: mem_SetRoleMetadata_def)
qed

text \<open>The getters answer from the abstract state: re-encoding stored rules changes nothing.\<close>

lemma mem_GetRoleRules_eq:
  assumes ok: "mem_ok s" and live: "cx_Err cx = None"
  shows "mem_GetRoleRules cx n s =
    (if fmhas (m_roles s) n then Inr (rules_of (mem_abs s) n) else Inl ErrRoleNotFound)"
proof (cases "fmlookup (m_rules s) n")
  case None
  then show ?thesis using live by (simp add: mem_GetRoleRules_def rules_of_def cloneRules_def validateRules_def)
next
  case (Some rs)
  with wf_rbacD(4) [OF mem_okD(4) [OF ok]] have "cloneRules rs = Inr rs" by simp
  with Some live show ?thesis by (simp add: mem_GetRoleRules_def rules_of_def)
qed

lemma mem_GetRoleRules_answer:
  "mem_ok s \<Longrightarrow> mem_GetRoleRules cx n s = Inr rs \<Longrightarrow> rs = rules_of (mem_abs s) n"
  using mem_GetRoleRules_eq [of s cx n]
  by (cases "cx_Err cx") (auto simp: mem_GetRoleRules_def split: if_splits)

lemma mem_GetRoleMetadata_eq:
  "cx_Err cx = None \<Longrightarrow> mem_GetRoleMetadata cx n s =
    (if fmhas (m_roles s) n then Inr (meta_of (mem_abs s) n) else Inl ErrRoleNotFound)"
  by (simp add: mem_GetRoleMetadata_def meta_of_def)

subsection \<open>Listing\<close>

lemma ranged_fst: "map fst (ranged cx m) = filter (fmhas m) (cx_range cx (fmdom m))"
proof -
  have "map fst (List.map_filter (\<lambda>k. map_option (Pair k) (fmlookup m k)) ks) = filter (fmhas m) ks" for ks
    by (induction ks) (auto simp: List.map_filter_def fmhas_def)
  then show ?thesis by (simp add: ranged_def)
qed

lemma distinct_ranged: "fair_range cx \<Longrightarrow> distinct (map fst (ranged cx m))"
  by (simp add: ranged_fst fair_range_def)

lemma ranged_names:
  assumes "mem_ok s" and "fair_range cx"
  shows "map role_Name (map snd (ranged cx (m_roles s))) = map fst (ranged cx (m_roles s))"
  using mem_okD(1) [OF assms(1)] set_ranged [OF assms(2), of "m_roles s"] by auto

lemma mem_ListRolesByPrefix_spec:
  assumes ok: "mem_ok s" and fair: "fair_range cx"
  shows "\<exists>rs. mem_ListRolesByPrefix cx p s = Inr rs \<and> distinct (map role_Name rs) \<and>
    (\<forall>r. r \<in> set rs \<longleftrightarrow> fmlookup (m_roles s) (role_Name r) = Some r \<and> HasPrefix (role_Name r) p)"
proof (intro exI conjI allI)
  let ?all = "map snd (ranged cx (m_roles s))"
  show "mem_ListRolesByPrefix cx p s = Inr (filter (\<lambda>role. HasPrefix (role_Name role) p) ?all)"
    by (simp add: mem_ListRolesByPrefix_def)
  have "distinct (map role_Name ?all)"
    unfolding ranged_names [OF ok fair] by (rule distinct_ranged [OF fair])
  then show "distinct (map role_Name (filter (\<lambda>role. HasPrefix (role_Name role) p) ?all))"
    by (rule distinct_map_filter)
  have "r \<in> set ?all \<longleftrightarrow> (\<exists>n. fmlookup (m_roles s) n = Some r)" for r
    using set_ranged [OF fair, of "m_roles s"] by (force simp: image_iff)
  then have "r \<in> set ?all \<longleftrightarrow> fmlookup (m_roles s) (role_Name r) = Some r" for r
    using mem_okD(1) [OF ok] by blast
  then show "r \<in> set (filter (\<lambda>role. HasPrefix (role_Name role) p) ?all) \<longleftrightarrow>
      fmlookup (m_roles s) (role_Name r) = Some r \<and> HasPrefix (role_Name r) p" for r
    by auto
qed

subsection \<open>Batches\<close>

lemma mem_copy_eq:
  assumes ok: "mem_ok s" and fair: "fair_range cx"
  shows "mem_copy cx s = Inr s"
proof -
  let ?f = "\<lambda>(name, rules) acc. case cloneRules rules of Inl e \<Rightarrow> Inl e | Inr cloned \<Rightarrow> Inr (fmupd name cloned acc)"
  have "forE ?f (ranged cx (m_rules s)) fmempty = Inr (fold (\<lambda>(k, v). fmupd k v) (ranged cx (m_rules s)) fmempty)"
    using wf_rbacD(4) [OF mem_okD(4) [OF ok]] set_ranged [OF fair, of "m_rules s"]
    by (intro forE_fold) auto
  moreover have "fold (\<lambda>(k, v). fmupd k v) (ranged cx (m_rules s)) fmempty = m_rules s"
    using set_ranged [OF fair, of "m_rules s"]
    by (intro fmap_ext option_eqI) (simp add: fold_fmupd_Some distinct_ranged [OF fair])
  ultimately show ?thesis by (simp add: mem_copy_def)
qed

lemma bindE_right [simp]: "bindE r Inr = r"
  by (simp add: bindE_def split: sum.split)

lemma mem_tracks:
  "tracks mem_ok mem_abs (mem_AddRole cx role) (spec_AddRole mem_traits role)"
  "tracks mem_ok mem_abs (mem_UpdateRole cx role) (spec_UpdateRole role)"
  "tracks mem_ok mem_abs (mem_DeleteRole cx r) (spec_DeleteRole r)"
  "tracks mem_ok mem_abs (mem_AssignRole cx u r) (spec_AssignRole u r)"
  "tracks mem_ok mem_abs (mem_UnassignRole cx u r) (spec_UnassignRole u r)"
  "cx_Err cx = None \<Longrightarrow> tracks mem_ok mem_abs (mem_SetRoleRules cx r rules) (spec_SetRoleRules r rules)"
  "cx_Err cx = None \<Longrightarrow> tracks mem_ok mem_abs (mem_SetRoleMetadata cx r m) (spec_SetRoleMetadata r m)"
  by (rule tracks_implements;
      rule mem_AddRole_implements mem_UpdateRole_implements mem_DeleteRole_implements
        mem_AssignRole_implements mem_UnassignRole_implements mem_SetRoleRules_implements
        mem_SetRoleMetadata_implements; assumption)+

lemma mem_batch_tracks:
  assumes live: "cx_Err cx = None" and valid: "validateBatch cx batch = None"
  shows "tracks mem_ok mem_abs (applyBatch mem_base_ops cx batch) (spec_ApplyBatch mem_traits cx batch)"
proof -
  have last: "tracks mem_ok mem_abs (\<lambda>s. (s, None)) Inr"
    using tracks_return [of mem_ok mem_abs None] by simp
  have delete: "tracks mem_ok mem_abs
      (andS (with_interface (Some mem_DeleteRole) (\<lambda>d. d cx) (pb_Delete batch)) (\<lambda>s. (s, None)))
      (forE spec_DeleteRole (pb_Delete batch))"
  proof -
    have "tracks mem_ok mem_abs (with_interface (Some mem_DeleteRole) (\<lambda>d. d cx) (pb_Delete batch))
        (forE spec_DeleteRole (pb_Delete batch))"
      by (rule tracks_with_interface [OF refl]) (rule mem_tracks)
    from tracks_andS [OF this last] show ?thesis by simp
  qed
  have rules: "tracks mem_ok mem_abs
      (case x of (name, value) \<Rightarrow> rs_SetRoleRules mem_rules_ops cx name value)
      (case x of (n, rs) \<Rightarrow> spec_SetRoleRules n rs)" for x
    by (cases x) (simp add: mem_rules_ops_def mem_tracks live)
  have metadata: "tracks mem_ok mem_abs
      (case x of (name, value) \<Rightarrow> md_SetRoleMetadata mem_metadata_ops cx name value)
      (case x of (n, m) \<Rightarrow> spec_SetRoleMetadata n (tr_stored mem_traits m))" for x
    by (cases x) (simp add: mem_metadata_ops_def mem_tracks live)
  show ?thesis
    unfolding applyBatch_def spec_ApplyBatch_def valid live option.case
    unfolding mem_base_ops_def store_ops.select_convs
    by (intro tracks_andS [OF tracks_forS] tracks_andS [OF tracks_with_interface [OF refl]]
        delete rules metadata mem_tracks)
qed

lemma mem_ApplyPolicyBatch_implements:
  assumes ok: "mem_ok s" and live: "cx_Err cx = None" and fair: "fair_range cx"
  shows "implements mem_ok mem_abs (mem_ApplyPolicyBatch cx batch) s
    (spec_ApplyBatch mem_traits cx batch (mem_abs s))"
proof (cases "validateBatch cx batch")
  case (Some e)
  with ok show ?thesis by (simp add: implements_def mem_ApplyPolicyBatch_def spec_ApplyBatch_def)
next
  case None
  obtain s' e where run: "applyBatch mem_base_ops cx batch s = (s', e)" by force
  have all: "mem_ApplyPolicyBatch cx batch s = (case e of Some e \<Rightarrow> (s, Some e) | None \<Rightarrow> (s', None))"
    using None by (simp add: mem_ApplyPolicyBatch_def mem_copy_eq [OF ok fair] run split: option.split)
  show ?thesis
    using tracksD [OF mem_batch_tracks [OF live None] ok] ok
    by (cases "spec_ApplyBatch mem_traits cx batch (mem_abs s)") (auto simp: implements_def all run)
qed

text \<open>With a context that is done, the methods that look at it fail without an effect.\<close>

lemma failed_performs: "ok s \<Longrightarrow> f s = (s, Some e) \<Longrightarrow> performs ok absf f s outcome"
  by (simp add: performs_def)

lemma mem_SetRoleRules_performs:
  assumes "mem_ok s"
  shows "performs mem_ok mem_abs (mem_SetRoleRules cx r rules) s (spec_SetRoleRules r rules (mem_abs s))"
proof (cases "cx_Err cx")
  case None
  with assms show ?thesis by (intro implements_performs mem_SetRoleRules_implements)
next
  case (Some e)
  with assms show ?thesis by (intro failed_performs [where e = e]) (simp_all add: mem_SetRoleRules_def)
qed

lemma mem_SetRoleMetadata_performs:
  assumes "mem_ok s"
  shows "performs mem_ok mem_abs (mem_SetRoleMetadata cx r m) s (spec_SetRoleMetadata r m (mem_abs s))"
proof (cases "cx_Err cx")
  case None
  with assms show ?thesis by (intro implements_performs mem_SetRoleMetadata_implements)
next
  case (Some e)
  with assms show ?thesis by (intro failed_performs [where e = e]) (simp_all add: mem_SetRoleMetadata_def)
qed

lemma mem_ApplyPolicyBatch_done:
  assumes "mem_ok s" and "fair_range cx" and "cx_Err cx = Some e"
  shows "\<exists>e'. mem_ApplyPolicyBatch cx batch s = (s, Some e')"
  using mem_copy_eq [OF assms(1,2)] assms(3)
  by (auto simp: mem_ApplyPolicyBatch_def applyBatch_def split: option.splits)

lemma mem_ApplyPolicyBatch_performs:
  assumes "mem_ok s" and "fair_range cx"
  shows "performs mem_ok mem_abs (mem_ApplyPolicyBatch cx batch) s
    (spec_ApplyBatch mem_traits cx batch (mem_abs s))"
proof (cases "cx_Err cx")
  case None
  with assms show ?thesis by (intro implements_performs mem_ApplyPolicyBatch_implements)
next
  case (Some e)
  with mem_ApplyPolicyBatch_done [OF assms] obtain e' where
    "mem_ApplyPolicyBatch cx batch s = (s, Some e')" by blast
  with assms(1) show ?thesis by (rule failed_performs)
qed

subsection \<open>The memory store is an RBAC store\<close>

lemma mem_ops_sel [simp]:
  "so_AddRole mem_ops = mem_AddRole" "so_Getter mem_ops = mem_GetRole"
  "so_AssignRole mem_ops = mem_AssignRole" "so_GetRoles mem_ops = mem_GetRoles"
  "so_DeleteRole mem_ops = Some mem_DeleteRole" "so_UnassignRole mem_ops = Some mem_UnassignRole"
  "so_ListRoles mem_ops = Some mem_ListRoles"
  "so_ListRolesByPrefix mem_ops = Some mem_ListRolesByPrefix"
  "so_UpdateRole mem_ops = Some mem_UpdateRole" "so_RuleStore mem_ops = Some mem_rules_ops"
  "so_MetadataStore mem_ops = Some mem_metadata_ops"
  "so_ApplyPolicyBatch mem_ops = Some mem_ApplyPolicyBatch" "so_PolicyVersioner mem_ops = None"
  by (simp_all add: mem_ops_def mem_base_ops_def)

lemmas mem_implements = mem_AddRole_implements mem_UpdateRole_implements mem_DeleteRole_implements
  mem_AssignRole_implements mem_UnassignRole_implements mem_SetRoleRules_implements
  mem_SetRoleMetadata_implements mem_ApplyPolicyBatch_implements

interpretation mem: rbac_store mem_ops mem_traits mem_ok mem_abs
  by unfold_locales
    (auto simp: mem_okD(2-4) mem_GetRole_def mem_GetRoles_def never_fails_def
      intro: mem_implements implements_performs [OF mem_AddRole_implements]
        implements_performs [OF mem_AssignRole_implements])

interpretation mem: managed_rbac_store mem_ops mem_traits mem_ok mem_abs
  mem_UpdateRole mem_DeleteRole mem_UnassignRole mem_ListRolesByPrefix mem_rules_ops
  mem_metadata_ops mem_ApplyPolicyBatch
proof unfold_locales
  fix s cx p rs
  assume "mem_ok s" and "fair_range cx" and "mem_ListRolesByPrefix cx p s = Inr rs"
  then show "distinct (map role_Name rs) \<and>
      (\<forall>r. r \<in> set rs \<longleftrightarrow> fmlookup (g_roles (so_Getter mem_ops cx s)) (role_Name r) = Some r \<and>
        HasPrefix (role_Name r) p)"
    using mem_ListRolesByPrefix_spec [of s cx p] by (auto simp: mem_GetRole_def)
qed (simp_all add: mem_rules_ops_def mem_metadata_ops_def mem_implements implements_performs
    mem_SetRoleRules_performs mem_SetRoleMetadata_performs mem_ApplyPolicyBatch_performs
    mem_GetRoleRules_eq mem_GetRoleRules_answer mem_GetRoleMetadata_eq mem_ListRolesByPrefix_def)

text \<open>The empty store is a good state.\<close>

lemma NewMemoryStore_ok: "mem_ok NewMemoryStore"
  and NewMemoryStore_abs: "mem_abs NewMemoryStore =
    \<lparr>ab_roles = fmempty, ab_assign = {||}, ab_rules = fmempty, ab_meta = fmempty\<rparr>"
proof -
  have parent: "\<not> ab_parent fmempty n p" for n p by (simp add: ab_parent_def)
  have "\<not> (ab_parent fmempty)\<^sup>+\<^sup>+ n n" for n
    by (auto dest!: tranclpD simp: parent)
  moreover show "mem_abs NewMemoryStore =
      \<lparr>ab_roles = fmempty, ab_assign = {||}, ab_rules = fmempty, ab_meta = fmempty\<rparr>"
    by (simp add: mem_abs_def NewMemoryStore_def abs_roles_def)
  ultimately show "mem_ok NewMemoryStore"
    unfolding mem_ok_def wf_rbac_def
    by (simp add: NewMemoryStore_def user_roles_def role_users_def ab_acyclic_def parent)
qed

end
