(* ===== verification/Engine.thy ===== *)
theory Engine
  imports Decision MemoryStore
begin

text \<open>
  The Enforcer over any store and any cache that satisfy their contracts. Its invariant says that
  the store is in a good state and that every cached snapshot agrees with the store. Each call
  keeps it, each decision is the specified one, and each mutation has the specified effect on the
  abstract state of the store.
\<close>

subsection \<open>The invariant\<close>

definition coherent ::
  "('s, 'c, 'x) enforcer \<Rightarrow> ('c \<Rightarrow> string \<Rightarrow> cache_value \<Rightarrow> bool) \<Rightarrow> rbac \<Rightarrow> 'c \<Rightarrow> bool" where
  "coherent e holds A c \<longleftrightarrow>
     (\<forall>u ps. holds c (cacheKey e u) (Permissions ps) \<longrightarrow>
        (\<forall>r a. ps_get ps r a \<longleftrightarrow> entitled A (userKey e u) r a))"

definition good ::
  "('s, 'c, 'x) enforcer \<Rightarrow> ('s \<Rightarrow> bool) \<Rightarrow> ('s \<Rightarrow> rbac) \<Rightarrow> ('c \<Rightarrow> bool) \<Rightarrow>
     ('c \<Rightarrow> string \<Rightarrow> cache_value \<Rightarrow> bool) \<Rightarrow> ('s, 'c, 'x) state \<Rightarrow> bool" where
  "good e okay absf fit holds st \<longleftrightarrow>
     okay (st_store st) \<and> fit (st_cache st) \<and>
     (en_cache e \<noteq> None \<longrightarrow> coherent e holds (absf (st_store st)) (st_cache st))"

text \<open>
  The effect of a mutation of the Enforcer: it fails and changes nothing, or it has the specified
  outcome, possibly with the error that says that only its audit event was lost.
\<close>

definition carried_out ::
  "(('s, 'c, 'x) state \<Rightarrow> bool) \<Rightarrow> ('s \<Rightarrow> rbac) \<Rightarrow> ('s, 'c, 'x) action \<Rightarrow> ('s, 'c, 'x) state \<Rightarrow>
     err + rbac \<Rightarrow> bool" where
  "carried_out sound absf f st outcome \<longleftrightarrow>
     sound (fst (f st)) \<and> st_shutdown (fst (f st)) = st_shutdown st \<and>
     (snd (f st) \<noteq> None \<and> absf (st_store (fst (f st))) = absf (st_store st) \<or>
      outcome = Inr (absf (st_store (fst (f st)))) \<and>
        (snd (f st) = None \<or> (\<exists>cause. snd (f st) = Some (AuditWriteError True cause))))"

lemma cacheKey_inject [simp]: "cacheKey e u = cacheKey e v \<longleftrightarrow> u = v"
  by (simp add: cacheKey_def userKey_def)

lemma userKey_inject [simp]: "userKey e u = userKey e v \<longleftrightarrow> u = v"
  by (simp add: userKey_def)

lemma roleKey_inject [simp]: "roleKey e u = roleKey e v \<longleftrightarrow> u = v"
  by (simp add: roleKey_def)

lemma publish_same: "same_policy st (publish e cx ev st)"
  by (auto simp: publish_def same_policy_def split: option.splits prod.splits)

lemma same_policy_good:
  "same_policy st st' \<Longrightarrow> good e okay absf fit holds st' \<longleftrightarrow> good e okay absf fit holds st"
  by (simp add: good_def same_policy_def)

text \<open>An Enforcer that uses the given store, and the given cache or none.\<close>

definition runs_on :: "('s, 'c, 'x) enforcer \<Rightarrow> 's store_ops \<Rightarrow> 'c cache_ops \<Rightarrow> bool" where
  "runs_on e ops cops \<longleftrightarrow> en_store e = ops \<and> (en_cache e = None \<or> en_cache e = Some cops)"

lemma goodD:
  assumes "good e okay absf fit holds st"
  shows "okay (st_store st)" and "fit (st_cache st)"
    and "en_cache e \<noteq> None \<Longrightarrow> coherent e holds (absf (st_store st)) (st_cache st)"
  using assms by (simp_all add: good_def)

lemma coherentD:
  "coherent e holds A c \<Longrightarrow> holds c (cacheKey e u) (Permissions ps) \<Longrightarrow>
     ps_get ps r a \<longleftrightarrow> entitled A (userKey e u) r a"
  by (simp add: coherent_def)

locale engine = managed_rbac_store + cache_backend cops fit holds valid for cops fit holds valid
begin

lemma cacheLookup_good:
  assumes e: "runs_on e ops cops" and st: "good e okay absf fit holds st"
    and run: "cacheLookup e cx u st = (st', hit)"
  shows "good e okay absf fit holds st'" and "st_store st' = st_store st"
    and "st_cacheGeneration st' = st_cacheGeneration st" and "st_shutdown st' = st_shutdown st"
    and "hit = Some ps \<Longrightarrow> ps_get ps r a \<longleftrightarrow> entitled (absf (st_store st)) (userKey e u) r a"
proof -
  have "good e okay absf fit holds st' \<and> st_store st' = st_store st \<and>
      st_cacheGeneration st' = st_cacheGeneration st \<and> st_shutdown st' = st_shutdown st \<and>
      (hit = Some ps \<longrightarrow> (ps_get ps r a \<longleftrightarrow> entitled (absf (st_store st)) (userKey e u) r a))"
  proof (cases "en_cache e")
    case None
    with run st show ?thesis by (auto simp: cacheLookup_def good_def)
  next
    case (Some co)
    with e have co: "en_cache e = Some cops" by (simp add: runs_on_def)
    obtain c found where get: "ca_Get cops cx (cacheKey e u) (st_cache st) = (c, found)" by force
    have coh: "coherent e holds (absf (st_store st)) (st_cache st)" using goodD(3) [OF st] co by simp
    have fit: "fit c" using keeps_fit(1) [OF goodD(2) [OF st], of cx "cacheKey e u"] get by simp
    have "coherent e holds (absf (st_store st)) c"
      using coh get_old [OF goodD(2) [OF st], of cx "cacheKey e u"] get unfolding coherent_def by force
    with fit goodD(1) [OF st] have new: "good e okay absf fit holds (st\<lparr>st_cache := c\<rparr>)"
      by (simp add: good_def)
    have "ps_get ps r a \<longleftrightarrow> entitled (absf (st_store st)) (userKey e u) r a" if "found = Some (Permissions ps)"
      using get_held [OF goodD(2) [OF st] get [unfolded that]] coherentD [OF coh] by blast
    with run get co new show ?thesis
      by (auto simp: cacheLookup_def Let_def same_policy_good [OF metric_same] split: option.splits cache_value.splits)
  qed
  then show "good e okay absf fit holds st'" and "st_store st' = st_store st"
    and "st_cacheGeneration st' = st_cacheGeneration st" and "st_shutdown st' = st_shutdown st"
    and "hit = Some ps \<Longrightarrow> ps_get ps r a \<longleftrightarrow> entitled (absf (st_store st)) (userKey e u) r a"
    by blast+
qed

lemma cacheToken_good:
  assumes e: "runs_on e ops cops" and st: "good e okay absf fit holds st"
    and run: "cacheToken e cx u st = (st', token)"
  shows "good e okay absf fit holds st' \<and> st_store st' = st_store st \<and>
    st_cacheGeneration st' = st_cacheGeneration st \<and> st_shutdown st' = st_shutdown st"
proof (cases "generations_of e")
  case None
  with run st show ?thesis by (auto simp: cacheToken_def)
next
  case (Some g)
  with e have co: "en_cache e = Some cops" and g: "ca_Generations cops = Some g"
    by (auto simp: runs_on_def generations_of_def split: option.splits)
  obtain c where gen: "cg_Generation g cx (cacheKey e u) (st_cache st) = (c, token)"
    and st': "st' = st\<lparr>st_cache := c\<rparr>"
    using run Some by (auto simp: cacheToken_def split: prod.splits)
  have "fit c" using keeps_fit(6) [OF goodD(2) [OF st] g, of cx "cacheKey e u"] gen by simp
  moreover have "coherent e holds (absf (st_store st)) c"
    using goodD(3) [OF st] co token_old [OF goodD(2) [OF st] g, of cx "cacheKey e u"] gen
    unfolding coherent_def by force
  ultimately show ?thesis using goodD(1) [OF st] by (simp add: good_def st')
qed

lemma cacheFill_good:
  assumes e: "runs_on e ops cops" and st: "good e okay absf fit holds st"
    and ps: "\<And>r a. ps_get ps r a \<longleftrightarrow> entitled (absf (st_store st)) (userKey e u) r a"
  shows "good e okay absf fit holds (cacheFill e cx u ps gen token st) \<and>
    st_store (cacheFill e cx u ps gen token st) = st_store st \<and>
    st_shutdown (cacheFill e cx u ps gen token st) = st_shutdown st"
proof (cases "en_cache e")
  case None
  with st show ?thesis by (simp add: cacheFill_def)
next
  case (Some co)
  with e have co: "en_cache e = Some cops" by (simp add: runs_on_def)
  note coh = goodD(3) [OF st, unfolded co, simplified]
  have new: "good e okay absf fit holds (st\<lparr>st_cache := c\<rparr>)"
    if "fit c" and c: "\<And>k v. holds c k v \<Longrightarrow> holds (st_cache st) k v \<or> (k = cacheKey e u \<and> v = Permissions ps)" for c
  proof -
    have "coherent e holds (absf (st_store st)) c"
      using coh c ps unfolding coherent_def by (metis cacheKey_inject cache_value.inject(1))
    with that goodD(1) [OF st] show ?thesis by (simp add: good_def)
  qed
  have "good e okay absf fit holds (st\<lparr>st_cache := ca_Set cops cx (cacheKey e u) (Permissions ps) (st_cache st)\<rparr>)"
    using set_old [OF goodD(2) [OF st], of cx "cacheKey e u" ps] keeps_fit(2) [OF goodD(2) [OF st]]
    by (intro new) metis+
  moreover have "good e okay absf fit holds
      (st\<lparr>st_cache := cg_SetIfGeneration g cx (cacheKey e u) (Permissions ps) t (st_cache st)\<rparr>)"
    if "ca_Generations cops = Some g" for g t
    using set_if_old [OF goodD(2) [OF st] that] keeps_fit(7) [OF goodD(2) [OF st] that] by (intro new) blast+
  ultimately show ?thesis using st by (auto simp: cacheFill_def co split: option.splits)
qed

text \<open>
  A permission lookup, from the cache or from the store, yields the permissions the user is
  entitled to, and leaves the store alone.
\<close>

lemma permissionsFor_good:
  assumes e: "runs_on e ops cops" and st: "good e okay absf fit holds st"
    and run: "permissionsFor e cx u st = (st', res)"
  shows "good e okay absf fit holds st'" and "st_store st' = st_store st" and "st_shutdown st' = st_shutdown st"
    and "res = Inr ps \<Longrightarrow> ps_get ps r a \<longleftrightarrow> entitled (absf (st_store st)) (userKey e u) r a"
    and "cx_Err cx = None \<Longrightarrow> \<not> st_shutdown st \<Longrightarrow> \<exists>ps. res = Inr ps"
proof -
  have store: "en_store e = ops" using e by (simp add: runs_on_def)
  have "good e okay absf fit holds st' \<and> st_store st' = st_store st \<and> st_shutdown st' = st_shutdown st \<and>
      (res = Inr ps \<longrightarrow> (ps_get ps r a \<longleftrightarrow> entitled (absf (st_store st)) (userKey e u) r a)) \<and>
      (cx_Err cx = None \<longrightarrow> \<not> st_shutdown st \<longrightarrow> (\<exists>ps. res = Inr ps))"
  proof (cases "st_shutdown st")
    case True
    with run st show ?thesis by (auto simp: permissionsFor_def)
  next
    case False
    obtain st1 hit where look: "cacheLookup e cx u st = (st1, hit)" by force
    note one = cacheLookup_good [OF e st look]
    show ?thesis
    proof (cases hit)
      case (Some ps')
      with run look False have "st' = st1" "res = Inr ps'" by (simp_all add: permissionsFor_def Let_def)
      with one Some show ?thesis by auto
    next
      case None
      obtain st2 token where tok: "cacheToken e cx u st1 = (st2, token)" by force
      note two = cacheToken_good [OF e one(1) tok]
      have okay: "okay (st_store st)" by (rule goodD(1) [OF st])
      show ?thesis
      proof (cases "loadPermissions e cx u (st_store st)")
        case (Inl er)
        with run look None tok False two one have "st' = st2" "res = Inl er"
          by (simp_all add: permissionsFor_def Let_def)
        with two one loadPermissions_live [OF store okay, of cx u] Inl show ?thesis by auto
      next
        case (Inr ps')
        note agrees = loadPermissions_entitled [OF store okay Inr]
        from Inr run look None tok False two one
        have "st' = cacheFill e cx u ps' (st_cacheGeneration st) token st2" "res = Inr ps'"
          by (simp_all add: permissionsFor_def Let_def)
        with two one agrees cacheFill_good [OF e conjunct1 [OF two], of ps' u cx "st_cacheGeneration st" token]
        show ?thesis by auto
      qed
    qed
  qed
  then show "good e okay absf fit holds st'" and "st_store st' = st_store st" and "st_shutdown st' = st_shutdown st"
    and "res = Inr ps \<Longrightarrow> ps_get ps r a \<longleftrightarrow> entitled (absf (st_store st)) (userKey e u) r a"
    and "cx_Err cx = None \<Longrightarrow> \<not> st_shutdown st \<Longrightarrow> \<exists>ps. res = Inr ps"
    by blast+
qed

end

subsection \<open>Decisions\<close>

text \<open>A decision changes neither the store nor the shutdown flag, and keeps the invariant.\<close>

lemma decided_state: "\<exists>allowed err. decided st r = (st, allowed, err)"
  by (cases r) (auto simp: decided_def)

context engine
begin

lemma decide_good:
  assumes e: "runs_on e ops cops" and st: "good e okay absf fit holds st"
  shows "good e okay absf fit holds (fst (EnforceCtx e cx u res act st)) \<and>
    st_store (fst (EnforceCtx e cx u res act st)) = st_store st \<and>
    st_shutdown (fst (EnforceCtx e cx u res act st)) = st_shutdown st"
proof -
  obtain st1 r where run: "permissionsFor e cx u st = (st1, r)" by force
  note lookup = permissionsFor_good(1-3) [OF e st run]
  have "\<exists>allowed err. same_policy st1 (fst (EnforceCtx e cx u res act st))"
  proof (cases r)
    case (Inl er)
    then have "EnforceCtx e cx u res act st = recordDecision e cx ''enforce'' u res act
        (logError e ''permission lookup failed'' er st1, False, Some er)"
      by (simp add: EnforceCtx_def run)
    then show ?thesis using same_policy_trans [OF logError_same recordDecision_same] by metis
  next
    case (Inr ps)
    obtain allowed err where d: "decided st1 (evaluateRules e cx u res act (matchPermission e ps res act)
        (cx_attrs cx) (st_store st1)) = (st1, allowed, err)"
      using decided_state [of st1] by metis
    with Inr have "EnforceCtx e cx u res act st = recordDecision e cx ''enforce'' u res act (st1, allowed, err)"
      by (simp add: EnforceCtx_def run)
    then show ?thesis using recordDecision_same by metis
  qed
  then show ?thesis using lookup same_policy_good same_policyD by metis
qed

lemma EnforceCtx_decision:
  assumes e: "runs_on e ops cops" and st: "good e okay absf fit holds st"
    and live: "cx_Err cx = None" and fair: "fair_range cx" and up: "\<not> st_shutdown st"
  obtains st1 where "good e okay absf fit holds st1" and "st_store st1 = st_store st"
    and "EnforceCtx e cx u res act st = recordDecision e cx ''enforce'' u res act
      (st1, decision e (absf (st_store st)) u res act (cx_attrs cx)
         (may e (absf (st_store st)) u res act), None)"
proof -
  obtain st1 r where run: "permissionsFor e cx u st = (st1, r)" by force
  note lookup = permissionsFor_good [OF e st run]
  obtain ps where r: "r = Inr ps" using lookup(5) live up by blast
  have "matchPermission e ps = may e (absf (st_store st)) u"
    unfolding matchPermission_permitted may_def using lookup(4) [OF r] by (rule permitted_cong)
  moreover have "en_store e = ops" using e by (simp add: runs_on_def)
  ultimately have "EnforceCtx e cx u res act st = recordDecision e cx ''enforce'' u res act
      (st1, decision e (absf (st_store st)) u res act (cx_attrs cx)
         (may e (absf (st_store st)) u res act), None)"
    using evaluateRules_decision [of e, OF _ goodD(1) [OF st] live fair]
    by (simp add: EnforceCtx_def run r lookup(2) decided_def)
  with lookup(1,2) show thesis by (rule that)
qed

lemma EnforceOwnedCtx_decision:
  assumes e: "runs_on e ops cops" and st: "good e okay absf fit holds st"
    and live: "cx_Err cx = None" and fair: "fair_range cx" and up: "\<not> st_shutdown st"
  obtains st1 where "good e okay absf fit holds st1" and "st_store st1 = st_store st"
    and "EnforceOwnedCtx e cx u owner grp res act st = recordDecision e cx ''enforce_owned'' u res act
      (st1, decision e (absf (st_store st)) u res act
         (fmupd ''resource.group'' (GVal (JStr grp)) (fmupd ''resource.owner'' (GVal (JStr owner)) (cx_attrs cx)))
         (let m = may e (absf (st_store st)) u res
          in m act \<or> m (act @ '':any'') \<or>
             (m (act @ '':self'') \<and> (owner = u \<or> act = ''create'')) \<or>
             (grp \<noteq> [] \<and> m (act @ '':grp:'' @ grp))), None)"
proof -
  obtain st1 r where run: "permissionsFor e cx u st = (st1, r)" by force
  note lookup = permissionsFor_good [OF e st run]
  obtain ps where r: "r = Inr ps" using lookup(5) live up by blast
  have m: "matchPermission e ps = may e (absf (st_store st)) u"
    unfolding matchPermission_permitted may_def using lookup(4) [OF r] by (rule permitted_cong)
  have "en_store e = ops" using e by (simp add: runs_on_def)
  note rules = evaluateRules_decision [OF this goodD(1) [OF st] live fair]
  show thesis
    by (rule that [OF lookup(1,2)])
      (auto simp: EnforceOwnedCtx_def run r lookup(2) decided_def Let_def rules ownedMatch_def m,
        simp_all add: decision_def)
qed

lemma requireManagement_good:
  assumes e: "runs_on e ops cops" and st: "good e okay absf fit holds st"
  shows "good e okay absf fit holds (fst (requireManagement e cx u st)) \<and>
    st_store (fst (requireManagement e cx u st)) = st_store st \<and>
    st_shutdown (fst (requireManagement e cx u st)) = st_shutdown st"
proof -
  have "fst (requireManagement e cx u st) = fst (EnforceCtx e cx u (en_manageRes e) (en_manageAct e) st)"
    by (simp add: requireManagement_def Let_def split: prod.split option.split)
  with decide_good [OF e st] show ?thesis by simp
qed

end

subsection \<open>The bookkeeping after a mutation\<close>

text \<open>The two changes of assignments concern one user only.\<close>

lemma spec_AssignRole_others:
  "spec_AssignRole k r A = Inr A' \<Longrightarrow> k' \<noteq> k \<Longrightarrow> entitled A' k' = entitled A k'"
  by (auto simp: spec_AssignRole_def entitled_def fun_eq_iff split: if_splits)

lemma spec_UnassignRole_others:
  "spec_UnassignRole k r A = Inr A' \<Longrightarrow> k' \<noteq> k \<Longrightarrow> entitled A' k' = entitled A k'"
  by (auto simp: spec_UnassignRole_def entitled_def fun_eq_iff split: if_splits)

lemma spec_SetRoleMetadata_entitled:
  "spec_SetRoleMetadata n m A = Inr A' \<Longrightarrow> entitled A' = entitled A"
  by (auto simp: spec_SetRoleMetadata_def entitled_def fun_eq_iff split: if_splits)

context engine
begin

lemma bump_good:
  assumes e: "runs_on e ops cops" and "okay (st_store st)"
  shows "okay (st_store (bumpPolicyVersion e cx st)) \<and>
    absf (st_store (bumpPolicyVersion e cx st)) = absf (st_store st) \<and>
    st_cache (bumpPolicyVersion e cx st) = st_cache st \<and>
    st_shutdown (bumpPolicyVersion e cx st) = st_shutdown st"
proof (cases "en_policySource e")
  case (Some p)
  with assms show ?thesis
    by (auto simp: bumpPolicyVersion_def nextVersion_def Let_def split: prod.split sum.split)
next
  case None
  show ?thesis
  proof (cases "so_PolicyVersioner ops")
    case None
    with \<open>en_policySource e = None\<close> assms show ?thesis
      by (simp add: bumpPolicyVersion_def nextVersion_def runs_on_def Let_def)
  next
    case (Some p)
    obtain s r where nxt: "pv_Next p cx (st_store st) = (s, r)" by force
    with next_version [OF Some assms(2), of cx] have "okay s \<and> absf s = absf (st_store st)" by simp
    with Some \<open>en_policySource e = None\<close> e nxt show ?thesis
      by (cases r) (simp_all add: bumpPolicyVersion_def nextVersion_def runs_on_def Let_def)
  qed
qed

lemma flush_good:
  assumes e: "runs_on e ops cops" and "okay (st_store st)" and "fit (st_cache st)"
  shows "good e okay absf fit holds (flushCache e cx st) \<and>
    st_store (flushCache e cx st) = st_store st \<and> st_shutdown (flushCache e cx st) = st_shutdown st"
proof (cases "en_cache e")
  case None
  with assms show ?thesis by (simp add: flushCache_def good_def Let_def)
next
  case (Some co)
  with e have co: "en_cache e = Some cops" by (simp add: runs_on_def)
  show ?thesis
  proof (cases "ca_FlushContext cops")
    case None
    with co flush_all [OF assms(3)] keeps_fit(4) [OF assms(3)] assms(2) show ?thesis
      by (simp add: flushCache_def Let_def good_def coherent_def)
  next
    case (Some f)
    obtain c err where run: "f (st_cache st) = (c, err)" by force
    with flush_context [OF assms(3) Some] keeps_fit(5) [OF assms(3) Some]
    have "fit c" and "\<not> holds c k v" for k v by (metis fst_conv)+
    with co Some run assms(2) show ?thesis
      by (cases err) (simp_all add: flushCache_def Let_def good_def coherent_def)
  qed
qed

lemma drop_good:
  assumes e: "runs_on e ops cops" and "okay (st_store st)" and "fit (st_cache st)"
    and old: "en_cache e \<noteq> None \<Longrightarrow> coherent e holds A (st_cache st)"
    and others: "\<And>v. v \<noteq> u \<Longrightarrow> entitled (absf (st_store st)) (userKey e v) = entitled A (userKey e v)"
  shows "good e okay absf fit holds (dropCache e cx u st) \<and>
    st_store (dropCache e cx u st) = st_store st \<and> st_shutdown (dropCache e cx u st) = st_shutdown st"
proof (cases "en_cache e")
  case None
  with assms(2,3) show ?thesis by (simp add: dropCache_def dropCacheKey_def good_def Let_def)
next
  case (Some co)
  with e have co: "en_cache e = Some cops" by (simp add: runs_on_def)
  let ?c = "ca_Delete cops cx (cacheKey e u) (st_cache st)"
  have "coherent e holds (absf (st_store st)) ?c"
    unfolding coherent_def
  proof (intro allI impI)
    fix v ps r a
    assume "holds ?c (cacheKey e v) (Permissions ps)"
    then have "v \<noteq> u" and "holds (st_cache st) (cacheKey e v) (Permissions ps)"
      using delete_old [OF assms(3)] by (metis cacheKey_inject)+
    with old co others show "ps_get ps r a \<longleftrightarrow> entitled (absf (st_store st)) (userKey e v) r a"
      using coherentD by (metis option.distinct(1))
  qed
  with co assms(2) keeps_fit(3) [OF assms(3)] show ?thesis
    by (simp add: dropCache_def dropCacheKey_def good_def Let_def)
qed

end

subsection \<open>The capability check\<close>

definition manages :: "('s, 'c, 'x) enforcer \<Rightarrow> rbac \<Rightarrow> ctx \<Rightarrow> string \<Rightarrow> bool" where
  "manages e A cx actorID \<longleftrightarrow>
     decision e A actorID (en_manageRes e) (en_manageAct e) (cx_attrs cx)
       (may e A actorID (en_manageRes e) (en_manageAct e))"

definition gate :: "bool \<Rightarrow> err + 'a \<Rightarrow> err + 'a" where
  "gate b outcome = (if b then outcome else Inl ErrPermissionDenied)"

lemma recordDecision_answer:
  assumes "snd (recordDecision e cx op u r a (st, allowed, err)) = (b, None)"
  shows "allowed = b" and "err = None"
  using assms by (auto simp: recordDecision_result split: option.splits)

context engine
begin

text \<open>A decision that ends without an error is the specified one, on any context.\<close>

lemma EnforceCtx_answer:
  assumes e: "runs_on e ops cops" and st: "good e okay absf fit holds st" and fair: "fair_range cx"
    and run: "snd (EnforceCtx e cx u res act st) = (b, None)"
  shows "\<not> st_shutdown st"
    and "b \<longleftrightarrow> decision e (absf (st_store st)) u res act (cx_attrs cx) (may e (absf (st_store st)) u res act)"
proof -
  obtain st1 r where look: "permissionsFor e cx u st = (st1, r)" by force
  note lookup = permissionsFor_good [OF e st look]
  obtain ps where r: "r = Inr ps"
    using run by (cases r) (auto simp: EnforceCtx_def look dest: recordDecision_answer)
  with look show "\<not> st_shutdown st" by (auto simp: permissionsFor_def)
  have m: "matchPermission e ps = may e (absf (st_store st)) u"
    unfolding matchPermission_permitted may_def using lookup(4) [OF r] by (rule permitted_cong)
  have store: "en_store e = ops" using e by (simp add: runs_on_def)
  let ?r = "evaluateRules e cx u res act (may e (absf (st_store st)) u res act) (cx_attrs cx) (st_store st)"
  have "?r = Inr b"
    using run by (cases ?r) (auto simp: EnforceCtx_def look r m lookup(2) decided_def dest: recordDecision_answer)
  then show "b \<longleftrightarrow> decision e (absf (st_store st)) u res act (cx_attrs cx) (may e (absf (st_store st)) u res act)"
    by (rule evaluateRules_answer [OF store goodD(1) [OF st] fair])
qed

lemma requireManagement_passed:
  assumes "runs_on e ops cops" and "good e okay absf fit holds st" and "fair_range cx"
    and "snd (requireManagement e cx u st) = None"
  shows "manages e (absf (st_store st)) cx u" and "\<not> st_shutdown st"
proof -
  have "snd (EnforceCtx e cx u (en_manageRes e) (en_manageAct e) st) = (True, None)"
    using assms(4) by (auto simp: requireManagement_def Let_def split: prod.splits option.splits if_splits)
  from EnforceCtx_answer [OF assms(1-3) this]
  show "manages e (absf (st_store st)) cx u" and "\<not> st_shutdown st" by (simp_all add: manages_def)
qed

lemma requireManagement_live:
  assumes "runs_on e ops cops" and "good e okay absf fit holds st"
    and "cx_Err cx = None" and "fair_range cx" and "\<not> st_shutdown st" and off: "en_audit e = None"
  shows "snd (requireManagement e cx u st) =
    (if manages e (absf (st_store st)) cx u then None else Some ErrPermissionDenied)"
proof -
  obtain st1 where "EnforceCtx e cx u (en_manageRes e) (en_manageAct e) st =
      recordDecision e cx ''enforce'' u (en_manageRes e) (en_manageAct e)
        (st1, manages e (absf (st_store st)) cx u, None)"
    unfolding manages_def by (rule EnforceCtx_decision [OF assms(1-5)])
  then have "snd (EnforceCtx e cx u (en_manageRes e) (en_manageAct e) st) =
      (manages e (absf (st_store st)) cx u, None)"
    by (simp add: recordDecision_off [OF off])
  then show ?thesis by (auto simp: requireManagement_def Let_def split: prod.splits)
qed

subsection \<open>Mutations\<close>

lemma after_role_good:
  assumes e: "runs_on e ops cops" and "okay (st_store st)" and "fit (st_cache st)"
  shows "good e okay absf fit holds (fst (afterRoleChange e cx op a r st)) \<and>
    absf (st_store (fst (afterRoleChange e cx op a r st))) = absf (st_store st) \<and>
    st_shutdown (fst (afterRoleChange e cx op a r st)) = st_shutdown st"
proof -
  let ?b = "bumpPolicyVersion e cx st"
  note b = bump_good [where st = st and cx = cx, OF e assms(2)]
  have f: "good e okay absf fit holds (flushCache e cx ?b) \<and>
      st_store (flushCache e cx ?b) = st_store ?b \<and> st_shutdown (flushCache e cx ?b) = st_shutdown ?b"
    by (rule flush_good [OF e]) (simp_all add: b assms(3))
  have "same_policy (flushCache e cx ?b) (fst (afterRoleChange e cx op a r st))"
    unfolding afterRoleChange_def invalidateAll_def
    by (rule same_policy_trans [OF publish_same recordMutation_same])
  with b f show ?thesis by (simp add: same_policy_good same_policyD)
qed

lemma after_user_good:
  assumes e: "runs_on e ops cops" and "okay (st_store st)" and "fit (st_cache st)"
    and "en_cache e \<noteq> None \<Longrightarrow> coherent e holds A (st_cache st)"
    and "\<And>v. v \<noteq> u \<Longrightarrow> entitled (absf (st_store st)) (userKey e v) = entitled A (userKey e v)"
  shows "good e okay absf fit holds (fst (afterUserChange e cx op a u r st)) \<and>
    absf (st_store (fst (afterUserChange e cx op a u r st))) = absf (st_store st) \<and>
    st_shutdown (fst (afterUserChange e cx op a u r st)) = st_shutdown st"
proof -
  let ?b = "bumpPolicyVersion e cx st"
  note b = bump_good [where st = st and cx = cx, OF e assms(2)]
  have f: "good e okay absf fit holds (dropCache e cx u ?b) \<and>
      st_store (dropCache e cx u ?b) = st_store ?b \<and> st_shutdown (dropCache e cx u ?b) = st_shutdown ?b"
    by (rule drop_good [OF e, where A = A]) (simp_all add: b assms(3-5))
  have "same_policy (dropCache e cx u ?b) (fst (afterUserChange e cx op a u r st))"
    unfolding afterUserChange_def invalidateUser_def
    by (rule same_policy_trans [OF publish_same recordMutation_same])
  with b f show ?thesis by (simp add: same_policy_good same_policyD)
qed

lemma recordMutation_error:
  "snd (recordMutation e cx op a u r st) = None \<or>
     (\<exists>cause. snd (recordMutation e cx op a u r st) = Some (AuditWriteError True cause))"
  by (auto simp: recordMutation_def Let_def split: prod.splits)

text \<open>
  The common shape of the mutations: a step on the store, then bookkeeping that keeps the invariant
  and whose only error is a lost audit event.
\<close>

lemma store_then:
  assumes st: "good e okay absf fit holds st" and f: "performs okay absf f (st_store st) outcome"
    and after: "\<And>st1. okay (st_store st1) \<Longrightarrow> st_cache st1 = st_cache st \<Longrightarrow> st_shutdown st1 = st_shutdown st \<Longrightarrow>
      outcome = Inr (absf (st_store st1)) \<Longrightarrow>
      good e okay absf fit holds (fst (g st1)) \<and>
        absf (st_store (fst (g st1))) = absf (st_store st1) \<and> st_shutdown (fst (g st1)) = st_shutdown st1"
    and err: "\<And>st1. snd (g st1) = None \<or> (\<exists>cause. snd (g st1) = Some (AuditWriteError True cause))"
  shows "carried_out (good e okay absf fit holds) absf (andS (on_store f) g) st outcome"
proof -
  obtain s' er where run: "f (st_store st) = (s', er)" by force
  then have step: "on_store f st = (st\<lparr>st_store := s'\<rparr>, er)" by (simp add: on_store_def)
  show ?thesis
  proof (cases er)
    case None
    with f run have "okay s'" and out: "outcome = Inr (absf s')" by (auto simp: performs_def)
    then have "good e okay absf fit holds (fst (g (st\<lparr>st_store := s'\<rparr>))) \<and>
        absf (st_store (fst (g (st\<lparr>st_store := s'\<rparr>)))) = absf s' \<and>
        st_shutdown (fst (g (st\<lparr>st_store := s'\<rparr>))) = st_shutdown st"
      using after [of "st\<lparr>st_store := s'\<rparr>"] by simp
    with err [of "st\<lparr>st_store := s'\<rparr>"] out None step show ?thesis
      by (simp add: carried_out_def andS_def)
  next
    case (Some x)
    with f run have "okay s'" and same: "absf s' = absf (st_store st)" by (auto simp: performs_def)
    with st have "good e okay absf fit holds (st\<lparr>st_store := s'\<rparr>)" by (simp add: good_def)
    with Some step same show ?thesis by (simp add: carried_out_def andS_def)
  qed
qed

lemma role_mutation:
  assumes e: "runs_on e ops cops" and st: "good e okay absf fit holds st"
    and f: "performs okay absf f (st_store st) outcome"
  shows "carried_out (good e okay absf fit holds) absf
    (andS (on_store f) (afterRoleChange e cx op a r)) st outcome"
proof (rule store_then [OF st f])
  fix st1 :: "('a, 'b, 'c) state"
  assume "okay (st_store st1)" and "st_cache st1 = st_cache st"
  then show "good e okay absf fit holds (fst (afterRoleChange e cx op a r st1)) \<and>
      absf (st_store (fst (afterRoleChange e cx op a r st1))) = absf (st_store st1) \<and>
      st_shutdown (fst (afterRoleChange e cx op a r st1)) = st_shutdown st1"
    using goodD(2) [OF st] by (intro after_role_good [OF e]) simp_all
qed (simp add: afterRoleChange_def recordMutation_error)

lemma user_mutation:
  assumes e: "runs_on e ops cops" and st: "good e okay absf fit holds st"
    and f: "performs okay absf f (st_store st) outcome"
    and others: "\<And>A' v. outcome = Inr A' \<Longrightarrow> v \<noteq> u \<Longrightarrow>
      entitled A' (userKey e v) = entitled (absf (st_store st)) (userKey e v)"
  shows "carried_out (good e okay absf fit holds) absf
    (andS (on_store f) (afterUserChange e cx op a u r)) st outcome"
proof (rule store_then [OF st f])
  fix st1 :: "('a, 'b, 'c) state"
  assume "okay (st_store st1)" and "st_cache st1 = st_cache st" and "outcome = Inr (absf (st_store st1))"
  then show "good e okay absf fit holds (fst (afterUserChange e cx op a u r st1)) \<and>
      absf (st_store (fst (afterUserChange e cx op a u r st1))) = absf (st_store st1) \<and>
      st_shutdown (fst (afterUserChange e cx op a u r st1)) = st_shutdown st1"
    using goodD(2,3) [OF st] others
    by (intro after_user_good [OF e, where A = "absf (st_store st)"]) simp_all
qed (simp add: afterUserChange_def recordMutation_error)

text \<open>Behind the capability check.\<close>

lemma guarded_carried:
  assumes e: "runs_on e ops cops" and st: "good e okay absf fit holds st" and fair: "fair_range cx"
    and g: "\<And>st1. good e okay absf fit holds st1 \<Longrightarrow> st_store st1 = st_store st \<Longrightarrow>
      st_shutdown st1 = st_shutdown st \<Longrightarrow> \<not> st_shutdown st \<Longrightarrow>
      carried_out (good e okay absf fit holds) absf g st1 outcome"
  shows "carried_out (good e okay absf fit holds) absf (guarded e cx u g) st
    (gate (manages e (absf (st_store st)) cx u) outcome)"
proof -
  obtain st1 er where run: "requireManagement e cx u st = (st1, er)" by force
  note rm = requireManagement_good [OF e st, of cx u, unfolded run fst_conv]
  show ?thesis
  proof (cases er)
    case None
    have ok: "manages e (absf (st_store st)) cx u" "\<not> st_shutdown st"
      using requireManagement_passed [OF e st fair, of u] run None by simp_all
    then have "carried_out (good e okay absf fit holds) absf g st1 outcome"
      using g rm by blast
    with rm None run ok show ?thesis
      by (simp add: carried_out_def guarded_def andS_def gate_def)
  next
    case (Some x)
    with rm run show ?thesis by (simp add: carried_out_def guarded_def andS_def)
  qed
qed

end

subsection \<open>Every mutation of the Enforcer\<close>

text \<open>
  The outcome of a registration: \<^verbatim>\<open>RegisterRole\<close> validates the unscoped role first.
\<close>

definition spec_Register ::
  "('s, 'c, 'x) enforcer \<Rightarrow> store_traits \<Rightarrow> role \<Rightarrow> rbac \<Rightarrow> err + rbac" where
  "spec_Register e tr role A =
     (if \<not> validRole role then Inl ErrInvalidRole else spec_AddRole tr (scopeRole e role) A)"

definition spec_Update :: "('s, 'c, 'x) enforcer \<Rightarrow> role \<Rightarrow> rbac \<Rightarrow> err + rbac" where
  "spec_Update e role A =
     (if \<not> validRole role then Inl ErrInvalidRole else spec_UpdateRole (scopeRole e role) A)"

definition spec_Batch ::
  "('s, 'c, 'x) enforcer \<Rightarrow> store_traits \<Rightarrow> ctx \<Rightarrow> policy_batch \<Rightarrow> rbac \<Rightarrow> err + rbac" where
  "spec_Batch e tr cx batch A =
     (case validateBatch cx batch of Some er \<Rightarrow> Inl er
      | None \<Rightarrow>
          if pb_RuleUpdates batch \<noteq> fmempty \<and> \<not> en_rulesEnabled e then Inl ErrPolicyRulesDisabled
          else spec_ApplyBatch tr cx (scopeBatch e cx batch) A)"

lemma carried_out_refused:
  "sound st \<Longrightarrow> f st = (st, Some er) \<Longrightarrow> carried_out sound absf f st outcome"
  by (simp add: carried_out_def)

lemma carried_out_cong:
  "f st = g st \<Longrightarrow> carried_out sound absf g st outcome \<Longrightarrow> carried_out sound absf f st outcome"
  by (simp add: carried_out_def)

lemma validateRules_clone: "validateRules rules = Some er \<Longrightarrow> cloneRules rules = Inl er"
  by (simp add: cloneRules_def)

context engine
begin

abbreviation effect where
  "effect e \<equiv> carried_out (good e okay absf fit holds) absf"

lemma RegisterRole_effect:
  assumes e: "runs_on e ops cops" and st: "good e okay absf fit holds st"
  shows "effect e (RegisterRole e cx role) st (spec_Register e tr role (absf (st_store st)))"
proof (cases "st_shutdown st \<or> \<not> validRole role")
  case True
  then have "\<exists>er. RegisterRole e cx role st = (st, Some er)" by (auto simp: RegisterRole_def)
  with st show ?thesis by (auto simp: carried_out_def)
next
  case False
  have "en_store e = ops" using e by (simp add: runs_on_def)
  with False role_mutation [OF e st add_role [OF goodD(1) [OF st]], of cx "scopeRole e role" cx]
  show ?thesis
    by (intro carried_out_cong [where f = "RegisterRole e cx role"])
      (simp_all add: RegisterRole_def spec_Register_def)
qed

lemma AssignRole_effect:
  assumes e: "runs_on e ops cops" and st: "good e okay absf fit holds st"
  shows "effect e (AssignRole e cx u r) st (spec_AssignRole (userKey e u) (roleKey e r) (absf (st_store st)))"
proof (cases "st_shutdown st")
  case True
  with st show ?thesis by (auto simp: AssignRole_def intro: carried_out_refused)
next
  case False
  have store: "en_store e = ops" using e by (simp add: runs_on_def)
  have "effect e (andS (on_store (so_AssignRole ops cx (userKey e u) (roleKey e r)))
      (afterUserChange e cx ''assign_role'' [] u r)) st
      (spec_AssignRole (userKey e u) (roleKey e r) (absf (st_store st)))"
    by (rule user_mutation [OF e st assign_role [OF goodD(1) [OF st]]])
      (rule spec_AssignRole_others, assumption, simp)
  with False store show ?thesis
    by (intro carried_out_cong [where f = "AssignRole e cx u r"]) (simp_all add: AssignRole_def)
qed

lemma DeleteRole_effect:
  assumes e: "runs_on e ops cops" and st: "good e okay absf fit holds st" and fair: "fair_range cx"
  shows "effect e (DeleteRole e cx actor r) st
    (gate (manages e (absf (st_store st)) cx actor) (spec_DeleteRole (roleKey e r) (absf (st_store st))))"
  unfolding DeleteRole_def
proof (rule guarded_carried [OF e st fair])
  fix st1 :: "('a, 'b, 'c) state"
  assume st1: "good e okay absf fit holds st1" "st_store st1 = st_store st"
  show "effect e (supported (so_DeleteRole (en_store e)) (\<lambda>d. andS (on_store (d cx (roleKey e r)))
      (afterRoleChange e cx ''delete_role'' actor r))) st1 (spec_DeleteRole (roleKey e r) (absf (st_store st)))"
    using role_mutation [OF e st1(1) delete_role [OF goodD(1) [OF st1(1)]], of cx "roleKey e r" cx] e st1(2)
    by (simp add: supported_def interfaces runs_on_def carried_out_def)
qed

lemma UnassignRole_effect:
  assumes e: "runs_on e ops cops" and st: "good e okay absf fit holds st" and fair: "fair_range cx"
  shows "effect e (UnassignRole e cx actor u r) st
    (gate (manages e (absf (st_store st)) cx actor)
      (spec_UnassignRole (userKey e u) (roleKey e r) (absf (st_store st))))"
  unfolding UnassignRole_def
proof (rule guarded_carried [OF e st fair])
  fix st1 :: "('a, 'b, 'c) state"
  assume st1: "good e okay absf fit holds st1" "st_store st1 = st_store st"
  have "effect e (andS (on_store (unas cx (userKey e u) (roleKey e r)))
      (afterUserChange e cx ''unassign_role'' actor u r)) st1
      (spec_UnassignRole (userKey e u) (roleKey e r) (absf (st_store st1)))"
    by (rule user_mutation [OF e st1(1) unassign_role [OF goodD(1) [OF st1(1)]]])
      (rule spec_UnassignRole_others, assumption, simp)
  with e st1(2) show "effect e (supported (so_UnassignRole (en_store e))
      (\<lambda>d. andS (on_store (d cx (userKey e u) (roleKey e r)))
        (afterUserChange e cx ''unassign_role'' actor u r))) st1
      (spec_UnassignRole (userKey e u) (roleKey e r) (absf (st_store st)))"
    by (simp add: supported_def interfaces runs_on_def carried_out_def)
qed

lemma UpdateRole_effect:
  assumes e: "runs_on e ops cops" and st: "good e okay absf fit holds st" and fair: "fair_range cx"
  shows "effect e (UpdateRole e cx actor role) st
    (gate (manages e (absf (st_store st)) cx actor) (spec_Update e role (absf (st_store st))))"
  unfolding UpdateRole_def
proof (rule guarded_carried [OF e st fair])
  fix st1 :: "('a, 'b, 'c) state"
  assume st1: "good e okay absf fit holds st1" "st_store st1 = st_store st"
  show "effect e (\<lambda>st. if \<not> validRole role then (st, Some ErrInvalidRole)
      else supported (so_UpdateRole (en_store e)) (\<lambda>u. andS (on_store (u cx (scopeRole e role)))
        (afterRoleChange e cx ''update_role'' actor (role_Name role))) st) st1 (spec_Update e role (absf (st_store st)))"
    using role_mutation [OF e st1(1) update_role [OF goodD(1) [OF st1(1)]], of cx "scopeRole e role" cx] e st1
    by (auto simp: supported_def interfaces runs_on_def carried_out_def spec_Update_def)
qed

lemma SetRoleRules_effect:
  assumes e: "runs_on e ops cops" and st: "good e okay absf fit holds st" and fair: "fair_range cx"
    and on: "en_rulesEnabled e"
  shows "effect e (SetRoleRules e cx actor r rs) st
    (gate (manages e (absf (st_store st)) cx actor) (spec_SetRoleRules (roleKey e r) rs (absf (st_store st))))"
proof -
  let ?g = "\<lambda>st. case validateRules rs of Some er \<Rightarrow> (st, Some er)
      | None \<Rightarrow> supported (so_RuleStore (en_store e)) (\<lambda>ops. andS (on_store (rs_SetRoleRules ops cx (roleKey e r) rs))
          (afterRoleChange e cx ''set_role_rules'' actor r)) st"
  have "effect e (guarded e cx actor ?g) st
      (gate (manages e (absf (st_store st)) cx actor) (spec_SetRoleRules (roleKey e r) rs (absf (st_store st))))"
  proof (rule guarded_carried [OF e st fair])
    fix st1 :: "('a, 'b, 'c) state"
    assume st1: "good e okay absf fit holds st1" "st_store st1 = st_store st"
    show "effect e ?g st1 (spec_SetRoleRules (roleKey e r) rs (absf (st_store st)))"
      using role_mutation [OF e st1(1) set_rules [OF goodD(1) [OF st1(1)]], of cx "roleKey e r" rs cx] e st1
      by (auto simp: supported_def interfaces runs_on_def carried_out_def split: option.split)
  qed
  with on show ?thesis
    by (intro carried_out_cong [where f = "SetRoleRules e cx actor r rs"]) (simp_all add: SetRoleRules_def)
qed

lemma SetRoleMetadata_effect:
  assumes e: "runs_on e ops cops" and st: "good e okay absf fit holds st" and fair: "fair_range cx"
  shows "effect e (SetRoleMetadata e cx actor r m) st
    (gate (manages e (absf (st_store st)) cx actor) (spec_SetRoleMetadata (roleKey e r) (tr_stored tr m) (absf (st_store st))))"
  unfolding SetRoleMetadata_def
proof (rule guarded_carried [OF e st fair])
  fix st1 :: "('a, 'b, 'c) state"
  assume st1: "good e okay absf fit holds st1" "st_store st1 = st_store st"
  have "effect e (andS (on_store (md_SetRoleMetadata meta cx (roleKey e r) m))
      (\<lambda>st. recordMutation e cx ''set_role_metadata'' actor [] r (bumpPolicyVersion e cx st))) st1
      (spec_SetRoleMetadata (roleKey e r) (tr_stored tr m) (absf (st_store st1)))"
  proof (rule store_then [OF st1(1) set_meta [OF goodD(1) [OF st1(1)]] _ recordMutation_error])
    fix st2 :: "('a, 'b, 'c) state"
    assume st2: "okay (st_store st2)" "st_cache st2 = st_cache st1" "st_shutdown st2 = st_shutdown st1"
      and out: "spec_SetRoleMetadata (roleKey e r) (tr_stored tr m) (absf (st_store st1)) = Inr (absf (st_store st2))"
    note b = bump_good [where st = st2 and cx = cx, OF e st2(1)]
    have "good e okay absf fit holds (bumpPolicyVersion e cx st2)"
      using b goodD [OF st1(1)] spec_SetRoleMetadata_entitled [OF out]
      by (simp add: good_def coherent_def st2)
    with b show "good e okay absf fit holds
          (fst (recordMutation e cx ''set_role_metadata'' actor [] r (bumpPolicyVersion e cx st2))) \<and>
        absf (st_store (fst (recordMutation e cx ''set_role_metadata'' actor [] r (bumpPolicyVersion e cx st2)))) =
          absf (st_store st2) \<and>
        st_shutdown (fst (recordMutation e cx ''set_role_metadata'' actor [] r (bumpPolicyVersion e cx st2))) =
          st_shutdown st2"
      using same_policy_good [OF recordMutation_same] same_policyD [OF recordMutation_same] by metis
  qed
  with e st1(2) show "effect e (supported (so_MetadataStore (en_store e))
      (\<lambda>md. andS (on_store (md_SetRoleMetadata md cx (roleKey e r) m))
        (\<lambda>st. recordMutation e cx ''set_role_metadata'' actor [] r (bumpPolicyVersion e cx st)))) st1
      (spec_SetRoleMetadata (roleKey e r) (tr_stored tr m) (absf (st_store st)))"
    by (simp add: supported_def interfaces runs_on_def carried_out_def)
qed

lemma ApplyPolicyBatch_effect:
  assumes e: "runs_on e ops cops" and st: "good e okay absf fit holds st" and fair: "fair_range cx"
  shows "effect e (ApplyPolicyBatch e cx actor b) st
    (gate (manages e (absf (st_store st)) cx actor) (spec_Batch e tr cx b (absf (st_store st))))"
  unfolding ApplyPolicyBatch_def
proof (rule guarded_carried [OF e st fair])
  fix st1 :: "('a, 'b, 'c) state"
  assume st1: "good e okay absf fit holds st1" "st_store st1 = st_store st"
  show "effect e (\<lambda>st. case validateBatch cx b of Some er \<Rightarrow> (st, Some er)
      | None \<Rightarrow> if pb_RuleUpdates b \<noteq> fmempty \<and> \<not> en_rulesEnabled e then (st, Some ErrPolicyRulesDisabled)
        else supported (so_ApplyPolicyBatch (en_store e)) (\<lambda>apply. andS (on_store (apply cx (scopeBatch e cx b)))
          (afterRoleChange e cx ''apply_policy_batch'' actor [])) st) st1 (spec_Batch e tr cx b (absf (st_store st)))"
    using role_mutation [OF e st1(1) apply_batch [OF goodD(1) [OF st1(1)] fair], of "scopeBatch e cx b" cx] e st1
    by (auto simp: supported_def interfaces runs_on_def carried_out_def spec_Batch_def split: option.split)
qed

end

subsection \<open>The exact error on a live context\<close>

context engine
begin

lemma good_okay: "good e okay absf fit holds st \<Longrightarrow> okay (st_store st)"
  by (rule goodD(1))

lemma store_then_live:
  assumes "implements okay absf f (st_store st) outcome" and "\<And>st1. snd (g st1) = None"
  shows "snd (andS (on_store f) g st) = error_of outcome"
  using assms by (cases outcome) (auto simp: implements_def andS_def on_store_def split: prod.splits option.splits)

lemma afterRoleChange_off: "en_audit e = None \<Longrightarrow> snd (afterRoleChange e cx op a r st) = None"
  by (simp add: afterRoleChange_def recordMutation_off)

lemma afterUserChange_off: "en_audit e = None \<Longrightarrow> snd (afterUserChange e cx op a u r st) = None"
  by (simp add: afterUserChange_def recordMutation_off)

lemma guarded_live:
  assumes "runs_on e ops cops" and "good e okay absf fit holds st"
    and "cx_Err cx = None" and "fair_range cx" and "\<not> st_shutdown st" and "en_audit e = None"
    and g: "\<And>st1. good e okay absf fit holds st1 \<Longrightarrow> st_store st1 = st_store st \<Longrightarrow> snd (g st1) = error_of outcome"
  shows "snd (guarded e cx u g st) = error_of (gate (manages e (absf (st_store st)) cx u) outcome)"
proof -
  obtain st1 er where run: "requireManagement e cx u st = (st1, er)" by force
  with requireManagement_live [OF assms(1-6), of u]
  have er: "er = (if manages e (absf (st_store st)) cx u then None else Some ErrPermissionDenied)" by simp
  have "good e okay absf fit holds st1" "st_store st1 = st_store st"
    using requireManagement_good [OF assms(1,2), of cx u] run by simp_all
  from g [OF this] er run show ?thesis by (simp add: guarded_def andS_def gate_def)
qed

lemma RegisterRole_error:
  assumes e: "runs_on e ops cops" and st: "good e okay absf fit holds st"
    and live: "cx_Err cx = None" and up: "\<not> st_shutdown st" and off: "en_audit e = None"
  shows "snd (RegisterRole e cx role st) = error_of (spec_Register e tr role (absf (st_store st)))"
  using store_then_live [OF add_role_live [OF goodD(1) [OF st] live] afterRoleChange_off [OF off]] e up
  by (simp add: RegisterRole_def spec_Register_def runs_on_def)

lemma AssignRole_error:
  assumes e: "runs_on e ops cops" and st: "good e okay absf fit holds st"
    and live: "cx_Err cx = None" and up: "\<not> st_shutdown st" and off: "en_audit e = None"
  shows "snd (AssignRole e cx u r st) =
    error_of (spec_AssignRole (userKey e u) (roleKey e r) (absf (st_store st)))"
  using store_then_live [OF assign_role_live [OF goodD(1) [OF st] live] afterUserChange_off [OF off]] e up
  by (simp add: AssignRole_def runs_on_def)

lemma DeleteRole_error:
  assumes e: "runs_on e ops cops" and st: "good e okay absf fit holds st"
    and live: "cx_Err cx = None" and fair: "fair_range cx" and up: "\<not> st_shutdown st" and off: "en_audit e = None"
  shows "snd (DeleteRole e cx actor r st) =
    error_of (gate (manages e (absf (st_store st)) cx actor) (spec_DeleteRole (roleKey e r) (absf (st_store st))))"
  unfolding DeleteRole_def
  by (rule guarded_live [OF e st live fair up off])
    (use store_then_live [OF delete_role_live [OF good_okay live] afterRoleChange_off [OF off]] e in
      \<open>simp add: supported_def interfaces runs_on_def\<close>)

lemma UnassignRole_error:
  assumes e: "runs_on e ops cops" and st: "good e okay absf fit holds st"
    and live: "cx_Err cx = None" and fair: "fair_range cx" and up: "\<not> st_shutdown st" and off: "en_audit e = None"
  shows "snd (UnassignRole e cx actor u r st) =
    error_of (gate (manages e (absf (st_store st)) cx actor)
      (spec_UnassignRole (userKey e u) (roleKey e r) (absf (st_store st))))"
  unfolding UnassignRole_def
  by (rule guarded_live [OF e st live fair up off])
    (use store_then_live [OF unassign_role_live [OF good_okay live] afterUserChange_off [OF off]] e in
      \<open>simp add: supported_def interfaces runs_on_def\<close>)

lemma UpdateRole_error:
  assumes e: "runs_on e ops cops" and st: "good e okay absf fit holds st"
    and live: "cx_Err cx = None" and fair: "fair_range cx" and up: "\<not> st_shutdown st" and off: "en_audit e = None"
  shows "snd (UpdateRole e cx actor role st) =
    error_of (gate (manages e (absf (st_store st)) cx actor) (spec_Update e role (absf (st_store st))))"
  unfolding UpdateRole_def
  by (rule guarded_live [OF e st live fair up off])
    (use store_then_live [OF update_role_live [OF good_okay live] afterRoleChange_off [OF off]] e in
      \<open>simp add: supported_def interfaces runs_on_def spec_Update_def\<close>)

lemma ApplyPolicyBatch_error:
  assumes e: "runs_on e ops cops" and st: "good e okay absf fit holds st"
    and live: "cx_Err cx = None" and fair: "fair_range cx" and up: "\<not> st_shutdown st" and off: "en_audit e = None"
  shows "snd (ApplyPolicyBatch e cx actor b st) =
    error_of (gate (manages e (absf (st_store st)) cx actor) (spec_Batch e tr cx b (absf (st_store st))))"
  unfolding ApplyPolicyBatch_def
  by (rule guarded_live [OF e st live fair up off])
    (use store_then_live [OF apply_batch_live [OF good_okay live fair] afterRoleChange_off [OF off]] e in
      \<open>simp add: supported_def interfaces runs_on_def spec_Batch_def split: option.split\<close>)

end

subsection \<open>Outcomes, refusals and queries\<close>

text \<open>
  What an action does: the abstract state it leaves and its error. An all-or-nothing outcome leaves the
  state alone when it is an error.
\<close>

definition settled :: "(rbac \<Rightarrow> err + rbac) \<Rightarrow> rbac \<Rightarrow> rbac \<times> err option" where
  "settled g A = (case g A of Inl er \<Rightarrow> (A, Some er) | Inr A' \<Rightarrow> (A', None))"

definition meets ::
  "('s \<Rightarrow> rbac) \<Rightarrow> ('s, 'c, 'x) action \<Rightarrow> ('s, 'c, 'x) state \<Rightarrow> rbac \<times> err option \<Rightarrow> bool" where
  "meets absf f st outcome \<longleftrightarrow> (absf (st_store (fst (f st))), snd (f st)) = outcome"

lemma carried_out_meets:
  "carried_out sound absf f st (g (absf (st_store st))) \<Longrightarrow> snd (f st) = error_of (g (absf (st_store st))) \<Longrightarrow>
     meets absf f st (settled g (absf (st_store st)))"
  by (cases "g (absf (st_store st))") (auto simp: carried_out_def meets_def settled_def)

text \<open>The registration of several roles: in order, up to the first error; what came before it stays.\<close>

fun spec_RegisterRoles ::
  "('s, 'c, 'x) enforcer \<Rightarrow> store_traits \<Rightarrow> role list \<Rightarrow> rbac \<Rightarrow> rbac \<times> err option" where
  "spec_RegisterRoles e tr [] A = (A, None)"
| "spec_RegisterRoles e tr (role # roles) A =
     (case spec_Register e tr role A of Inl er \<Rightarrow> (A, Some er) | Inr A' \<Rightarrow> spec_RegisterRoles e tr roles A')"

text \<open>The calls on behalf of an actor.\<close>

definition managed_calls :: "('s, 'c, 'x) enforcer \<Rightarrow> ctx \<Rightarrow> string \<Rightarrow> ('s, 'c, 'x) action set" where
  "managed_calls e cx actor =
     range (DeleteRole e cx actor) \<union> (\<Union>u. range (UnassignRole e cx actor u)) \<union>
     range (UpdateRole e cx actor) \<union> (\<Union>r. range (SetRoleRules e cx actor r)) \<union>
     (\<Union>r. range (SetRoleMetadata e cx actor r)) \<union> range (RegisterRoleAs e cx actor) \<union>
     range (RegisterRolesAs e cx actor) \<union> (\<Union>u. range (AssignRoleAs e cx actor u)) \<union>
     range (ApplyPolicyBatch e cx actor)"

lemma managed_calls_guarded:
  assumes "f \<in> managed_calls e cx actor"
  shows "(\<exists>g. f = guarded e cx actor g) \<or> (\<forall>st. \<exists>er. f st = (st, Some er)) \<or>
    (\<exists>g. \<forall>st. f st = guarded e cx actor g st)"
proof -
  have rules: "(\<forall>st. \<exists>er. SetRoleRules e cx actor r rs st = (st, Some er)) \<or>
      (\<exists>g. \<forall>st. SetRoleRules e cx actor r rs st = guarded e cx actor g st)" for r rs
    by (cases "en_rulesEnabled e") (auto simp: SetRoleRules_def)
  show ?thesis
    using assms rules unfolding managed_calls_def
    by (auto simp: DeleteRole_def UnassignRole_def UpdateRole_def SetRoleMetadata_def RegisterRoleAs_def
        RegisterRolesAs_def AssignRoleAs_def ApplyPolicyBatch_def)
qed

lemma guarded_failed:
  assumes "requireManagement e cx actor st = (st1, Some er)"
  shows "guarded e cx actor g st = (st1, Some er)"
  using assms by (simp add: guarded_def andS_def)

text \<open>After a shutdown a lookup fails, and with it every decision and every managed call.\<close>

lemma shutdown_decision:
  assumes "st_shutdown st"
  shows "snd (EnforceCtx e cx u res act st) \<noteq> (b, None)"
    and "st_store (fst (EnforceCtx e cx u res act st)) = st_store st"
proof -
  have run: "EnforceCtx e cx u res act st = recordDecision e cx ''enforce'' u res act
      (logError e ''permission lookup failed'' ErrEnforcerClosed st, False, Some ErrEnforcerClosed)"
    using assms by (simp add: EnforceCtx_def permissionsFor_def)
  show "snd (EnforceCtx e cx u res act st) \<noteq> (b, None)"
    unfolding run by (simp add: recordDecision_result split: option.split)
  show "st_store (fst (EnforceCtx e cx u res act st)) = st_store st"
    unfolding run by (simp add: same_policyD [OF recordDecision_same])
qed

lemma shutdown_management:
  assumes "st_shutdown st"
  shows "\<exists>st1 er. requireManagement e cx u st = (st1, Some er) \<and> st_store st1 = st_store st"
proof -
  obtain st1 ok err where run: "EnforceCtx e cx u (en_manageRes e) (en_manageAct e) st = (st1, ok, err)"
    by (metis prod_cases3)
  with shutdown_decision(1) [OF assms, of e cx u "en_manageRes e" "en_manageAct e" ok]
    shutdown_decision(2) [OF assms, of e cx u "en_manageRes e" "en_manageAct e"] have "err \<noteq> None"
    and "st_store st1 = st_store st" by simp_all
  with run show ?thesis by (auto simp: requireManagement_def)
qed

context engine
begin

lemma unauthorized_guarded:
  assumes e: "runs_on e ops cops" and st: "good e okay absf fit holds st" and fair: "fair_range cx"
    and no: "\<not> manages e (absf (st_store st)) cx actor"
  shows "\<exists>er. snd (guarded e cx actor g st) = Some er"
    and "st_store (fst (guarded e cx actor g st)) = st_store st"
proof -
  obtain st1 er where run: "requireManagement e cx actor st = (st1, er)" by force
  then obtain x where er: "er = Some x"
    using requireManagement_passed(1) [OF e st fair, of actor] no by (cases er) auto
  show "\<exists>er. snd (guarded e cx actor g st) = Some er"
    and "st_store (fst (guarded e cx actor g st)) = st_store st"
    using guarded_failed [OF run [unfolded er]] requireManagement_good [OF e st, of cx actor] run by simp_all
qed

lemma HasRole_holds:
  assumes e: "runs_on e ops cops" and st: "good e okay absf fit holds st"
    and live: "cx_Err cx = None" and up: "\<not> st_shutdown st"
  shows "HasRole e cx u r st = Inr (holds_role (absf (st_store st)) (userKey e u) (roleKey e r))"
proof -
  have s: "okay (st_store st)" by (rule goodD(1) [OF st])
  obtain names seen where "so_GetRoles ops cx (userKey e u) (st_store st) = Inr names"
    and "collectRoleNames (so_Getter ops cx (st_store st)) names {||} = Inr seen"
    by (rule collectRoleNames_live [OF s live])
  with collectRoleNames_holds [OF s this] e up show ?thesis by (simp add: HasRole_def runs_on_def)
qed

lemma ListRoles_listed:
  assumes e: "runs_on e ops cops" and st: "good e okay absf fit holds st"
    and live: "cx_Err cx = None" and fair: "fair_range cx" and up: "\<not> st_shutdown st"
  shows "\<exists>found. ListRoles e cx st = Inr (sort_key role_Name (map (unscopeRole e) found)) \<and>
    distinct (map role_Name found) \<and>
    (\<forall>r. r \<in> set found \<longleftrightarrow>
      fmlookup (g_roles (so_Getter ops cx (st_store st))) (role_Name r) = Some r \<and>
      HasPrefix (role_Name r) (en_tenant e @ tenantSep))"
proof -
  have s: "okay (st_store st)" by (rule goodD(1) [OF st])
  obtain found where "prefixed cx (en_tenant e @ tenantSep) (st_store st) = Inr found"
    using list_roles_live [OF s live] by blast
  with list_roles [OF s fair this] e up interfaces show ?thesis
    by (intro exI [of _ found]) (simp add: ListRoles_def runs_on_def Let_def)
qed

end

subsection \<open>The engine over the memory store and the LRU cache\<close>

interpretation embedded: engine mem_ops mem_traits mem_ok mem_abs
  mem_UpdateRole mem_DeleteRole mem_UnassignRole mem_ListRolesByPrefix mem_rules_ops
  mem_metadata_ops mem_ApplyPolicyBatch lru_ops lru_ok lru_holds lru_valid
  by unfold_locales

end
