(* ===== verification/PolicyCalls.thy ===== *)
theory PolicyCalls
  imports Engine
begin

text \<open>
  The calls of an Enforcer that change the policy, each with its outcome on the abstract state: the
  trusted ones, and those behind the capability check. A live call without an audit sink has exactly
  that outcome, over any store and cache that keep their contracts.
\<close>

text \<open>Behind the capability check: without the capability the call is refused.\<close>

definition managed ::
  "('s, 'c, 'x) enforcer \<Rightarrow> ctx \<Rightarrow> string \<Rightarrow> (rbac \<Rightarrow> rbac \<times> err option) \<Rightarrow> rbac \<Rightarrow> rbac \<times> err option" where
  "managed e cx actor g A = (if manages e A cx actor then g A else (A, Some ErrPermissionDenied))"

lemma settled_gate: "settled (\<lambda>A. gate (manages e A cx actor) (g A)) = managed e cx actor (settled g)"
  by (simp add: fun_eq_iff settled_def managed_def gate_def)

definition policy_calls ::
  "('s, 'c, 'x) enforcer \<Rightarrow> store_traits \<Rightarrow> ctx \<Rightarrow> string \<Rightarrow>
     (('s, 'c, 'x) action \<times> (rbac \<Rightarrow> rbac \<times> err option)) set" where
  "policy_calls e tr cx actor =
     {(RegisterRole e cx role, settled (spec_Register e tr role)) |role. True} \<union>
     {(RegisterRoles e cx roles, spec_RegisterRoles e tr roles) |roles. True} \<union>
     {(AssignRole e cx u r, settled (spec_AssignRole (userKey e u) (roleKey e r))) |u r. True} \<union>
     {(RegisterRoleAs e cx actor role, managed e cx actor (settled (spec_Register e tr role))) |role. True} \<union>
     {(RegisterRolesAs e cx actor roles, managed e cx actor (spec_RegisterRoles e tr roles)) |roles. True} \<union>
     {(AssignRoleAs e cx actor u r, managed e cx actor (settled (spec_AssignRole (userKey e u) (roleKey e r)))) |u r. True} \<union>
     {(UpdateRole e cx actor role, managed e cx actor (settled (spec_Update e role))) |role. True} \<union>
     {(DeleteRole e cx actor r, managed e cx actor (settled (spec_DeleteRole (roleKey e r)))) |r. True} \<union>
     {(UnassignRole e cx actor u r, managed e cx actor (settled (spec_UnassignRole (userKey e u) (roleKey e r)))) |u r. True} \<union>
     {(SetRoleRules e cx actor r rules,
       \<lambda>A. if \<not> en_rulesEnabled e then (A, Some ErrPolicyRulesDisabled)
         else managed e cx actor (settled (spec_SetRoleRules (roleKey e r) rules)) A) |r rules. True} \<union>
     {(SetRoleMetadata e cx actor r m,
       managed e cx actor (settled (spec_SetRoleMetadata (roleKey e r) (tr_stored tr m)))) |r m. True} \<union>
     {(ApplyPolicyBatch e cx actor b, managed e cx actor (settled (spec_Batch e tr cx b))) |b. True}"

context engine
begin

lemma SetRoleRules_error:
  assumes e: "runs_on e ops cops" and st: "good e okay absf fit holds st"
    and live: "cx_Err cx = None" and fair: "fair_range cx" and up: "\<not> st_shutdown st" and off: "en_audit e = None"
    and on: "en_rulesEnabled e"
  shows "snd (SetRoleRules e cx actor r rs st) =
    error_of (gate (manages e (absf (st_store st)) cx actor) (spec_SetRoleRules (roleKey e r) rs (absf (st_store st))))"
proof -
  have "snd (guarded e cx actor (\<lambda>st. case validateRules rs of Some er \<Rightarrow> (st, Some er)
      | None \<Rightarrow> supported (so_RuleStore (en_store e)) (\<lambda>ops. andS (on_store (rs_SetRoleRules ops cx (roleKey e r) rs))
          (afterRoleChange e cx ''set_role_rules'' actor r)) st) st) =
      error_of (gate (manages e (absf (st_store st)) cx actor) (spec_SetRoleRules (roleKey e r) rs (absf (st_store st))))"
  proof (rule guarded_live [OF e st live fair up off])
    fix st1 :: "('a, 'b, 'c) state"
    assume st1: "good e okay absf fit holds st1" "st_store st1 = st_store st"
    show "snd (case validateRules rs of Some er \<Rightarrow> (st1, Some er)
      | None \<Rightarrow> supported (so_RuleStore (en_store e)) (\<lambda>ops. andS (on_store (rs_SetRoleRules ops cx (roleKey e r) rs))
          (afterRoleChange e cx ''set_role_rules'' actor r)) st1) =
      error_of (spec_SetRoleRules (roleKey e r) rs (absf (st_store st)))"
    proof (cases "validateRules rs")
      case None
      with store_then_live [OF set_rules_live [OF good_okay [OF st1(1)] live] afterRoleChange_off [OF off]] e st1(2)
      show ?thesis by (simp add: supported_def interfaces runs_on_def)
    next
      case (Some er)
      then show ?thesis by (simp add: spec_SetRoleRules_def validateRules_clone)
    qed
  qed
  with on show ?thesis by (simp add: SetRoleRules_def)
qed

lemma SetRoleMetadata_error:
  assumes e: "runs_on e ops cops" and st: "good e okay absf fit holds st"
    and live: "cx_Err cx = None" and fair: "fair_range cx" and up: "\<not> st_shutdown st" and off: "en_audit e = None"
  shows "snd (SetRoleMetadata e cx actor r m st) =
    error_of (gate (manages e (absf (st_store st)) cx actor) (spec_SetRoleMetadata (roleKey e r) (tr_stored tr m) (absf (st_store st))))"
  unfolding SetRoleMetadata_def
  by (rule guarded_live [OF e st live fair up off])
    (use store_then_live [OF set_meta_live [OF good_okay live] recordMutation_off [OF off]] e in
      \<open>simp add: supported_def interfaces runs_on_def\<close>)

text \<open>A call with an outcome, behind the capability check.\<close>

lemma guarded_meets:
  assumes e: "runs_on e ops cops" and st: "good e okay absf fit holds st"
    and live: "cx_Err cx = None" and fair: "fair_range cx" and up: "\<not> st_shutdown st" and off: "en_audit e = None"
    and f: "\<And>st. good e okay absf fit holds st \<Longrightarrow> \<not> st_shutdown st \<Longrightarrow> meets absf f st (g (absf (st_store st)))"
  shows "meets absf (guarded e cx actor f) st (managed e cx actor g (absf (st_store st)))"
proof -
  obtain st1 er where run: "requireManagement e cx actor st = (st1, er)" by force
  with requireManagement_live [OF assms(1-6), of actor]
  have er: "er = (if manages e (absf (st_store st)) cx actor then None else Some ErrPermissionDenied)" by simp
  have st1: "good e okay absf fit holds st1" "st_store st1 = st_store st" "\<not> st_shutdown st1"
    using requireManagement_good [OF e st, of cx actor] run up by simp_all
  show ?thesis
  proof (cases "manages e (absf (st_store st)) cx actor")
    case True
    with er run have "guarded e cx actor f st = f st1" by (simp add: guarded_def andS_def)
    with f [OF st1(1,3)] True st1(2) show ?thesis by (simp add: managed_def meets_def)
  next
    case False
    with er run have "guarded e cx actor f st = (st1, Some ErrPermissionDenied)" by (simp add: guarded_def andS_def)
    with False st1(2) show ?thesis by (simp add: managed_def meets_def)
  qed
qed

lemma RegisterRole_meets:
  assumes "runs_on e ops cops" and "good e okay absf fit holds st"
    and "cx_Err cx = None" and "\<not> st_shutdown st" and "en_audit e = None"
  shows "meets absf (RegisterRole e cx role) st (settled (spec_Register e tr role) (absf (st_store st)))"
  by (rule carried_out_meets [where g = "spec_Register e tr role", OF RegisterRole_effect RegisterRole_error]) (simp_all add: assms)

text \<open>Registering several roles does exactly what registering one after the other does, up to the first error.\<close>

lemma RegisterRoles_meets:
  assumes e: "runs_on e ops cops" and st: "good e okay absf fit holds st"
    and live: "cx_Err cx = None" and up: "\<not> st_shutdown st" and off: "en_audit e = None"
  shows "meets absf (RegisterRoles e cx roles) st (spec_RegisterRoles e tr roles (absf (st_store st)))"
proof -
  have "(absf (st_store (fst (forS (RegisterRole e cx) roles st))), snd (forS (RegisterRole e cx) roles st)) =
      spec_RegisterRoles e tr roles (absf (st_store st))"
    using st up
  proof (induction roles arbitrary: st)
    case Nil
    then show ?case by simp
  next
    case (Cons role roles)
    obtain st1 er where run: "RegisterRole e cx role st = (st1, er)" by force
    note eff = RegisterRole_effect [OF e Cons.prems(1), of cx role]
    have st1: "good e okay absf fit holds st1" "\<not> st_shutdown st1"
      using eff run Cons.prems(2) by (simp_all add: carried_out_def)
    from RegisterRole_meets [OF e Cons.prems(1) live Cons.prems(2) off, of role] run
    have out: "settled (spec_Register e tr role) (absf (st_store st)) = (absf (st_store st1), er)"
      by (simp add: meets_def)
    show ?case
    proof (cases "spec_Register e tr role (absf (st_store st))")
      case (Inl a)
      with out run show ?thesis by (auto simp: settled_def)
    next
      case (Inr A)
      with out have er: "er = None" "A = absf (st_store st1)" by (simp_all add: settled_def)
      then have "forS (RegisterRole e cx) (role # roles) st = forS (RegisterRole e cx) roles st1" by (simp add: run)
      with Cons.IH [OF st1] Inr er show ?thesis by (simp only:) simp
    qed
  qed
  with up show ?thesis by (simp add: RegisterRoles_def meets_def)
qed

lemma policy_call_outcome:
  assumes e: "runs_on e ops cops" and st: "good e okay absf fit holds st"
    and live: "cx_Err cx = None" and fair: "fair_range cx" and up: "\<not> st_shutdown st" and off: "en_audit e = None"
    and call: "(f, g) \<in> policy_calls e tr cx actor"
  shows "meets absf f st (g (absf (st_store st)))"
proof -
  let ?A = "absf (st_store st)"
  have live': "cx_Err (withAuditActor cx actor) = None" using live by (simp add: withAuditActor_def)
  note register = RegisterRole_meets [OF e _ _ _ off] and registers = RegisterRoles_meets [OF e _ _ _ off]
  have assign: "meets absf (AssignRole e cx' u r) st (settled (spec_AssignRole (userKey e u) (roleKey e r)) (absf (st_store st)))"
    if "good e okay absf fit holds st" "\<not> st_shutdown st" "cx_Err cx' = None" for cx' u r and st :: "('a, 'b, 'c) state"
    by (rule carried_out_meets [where g = "spec_AssignRole (userKey e u) (roleKey e r)", OF AssignRole_effect AssignRole_error]) (simp_all add: e that off)
  note guard = guarded_meets [OF e st live fair up off]
  have register_as: "meets absf (RegisterRoleAs e cx actor role) st (managed e cx actor (settled (spec_Register e tr role)) ?A)" for role
    unfolding RegisterRoleAs_def by (rule guard) (rule register [OF _ live'])
  have registers_as: "meets absf (RegisterRolesAs e cx actor roles) st (managed e cx actor (spec_RegisterRoles e tr roles) ?A)" for roles
    unfolding RegisterRolesAs_def by (rule guard) (rule registers [OF _ live'])
  have assign_as: "meets absf (AssignRoleAs e cx actor u r) st
      (managed e cx actor (settled (spec_AssignRole (userKey e u) (roleKey e r))) ?A)" for u r
    unfolding AssignRoleAs_def by (rule guard) (rule assign [OF _ _ live'])
  note base = e st fair and more = e st live fair up off
  have behind: "meets absf action st (managed e cx actor (settled spec) ?A)"
    if "effect e action st (gate (manages e ?A cx actor) (spec ?A))"
      "snd (action st) = error_of (gate (manages e ?A cx actor) (spec ?A))" for action spec
    using carried_out_meets [where g = "\<lambda>A. gate (manages e A cx actor) (spec A)", OF that] by (simp add: settled_gate)
  have rules: "meets absf (SetRoleRules e cx actor r rs) st (if \<not> en_rulesEnabled e then (?A, Some ErrPolicyRulesDisabled)
      else managed e cx actor (settled (spec_SetRoleRules (roleKey e r) rs)) ?A)" for r rs
  proof (cases "en_rulesEnabled e")
    case True
    have "meets absf (SetRoleRules e cx actor r rs) st (managed e cx actor (settled (spec_SetRoleRules (roleKey e r) rs)) ?A)"
      by (rule behind [of _ "spec_SetRoleRules (roleKey e r) rs", OF SetRoleRules_effect [OF base True] SetRoleRules_error [OF more True]])
    with True show ?thesis by simp
  qed (simp add: SetRoleRules_def meets_def)
  have update: "meets absf (UpdateRole e cx actor role) st (managed e cx actor (settled (spec_Update e role)) ?A)" for role
    by (rule behind [of _ "spec_Update e role", OF UpdateRole_effect [OF base] UpdateRole_error [OF more]])
  have delete: "meets absf (DeleteRole e cx actor r) st (managed e cx actor (settled (spec_DeleteRole (roleKey e r))) ?A)" for r
    by (rule behind [of _ "spec_DeleteRole (roleKey e r)", OF DeleteRole_effect [OF base] DeleteRole_error [OF more]])
  have unassign: "meets absf (UnassignRole e cx actor u r) st (managed e cx actor (settled (spec_UnassignRole (userKey e u) (roleKey e r))) ?A)" for u r
    by (rule behind [of _ "spec_UnassignRole (userKey e u) (roleKey e r)", OF UnassignRole_effect [OF base] UnassignRole_error [OF more]])
  have metadata: "meets absf (SetRoleMetadata e cx actor r m) st (managed e cx actor (settled (spec_SetRoleMetadata (roleKey e r) (tr_stored tr m))) ?A)" for r m
    by (rule behind [of _ "spec_SetRoleMetadata (roleKey e r) (tr_stored tr m)", OF SetRoleMetadata_effect [OF base] SetRoleMetadata_error [OF more]])
  have batch: "meets absf (ApplyPolicyBatch e cx actor b) st (managed e cx actor (settled (spec_Batch e tr cx b)) ?A)" for b
    by (rule behind [of _ "spec_Batch e tr cx b", OF ApplyPolicyBatch_effect [OF base] ApplyPolicyBatch_error [OF more]])
  show ?thesis
    using call register [OF st live up] registers [OF st live up] assign [OF st up live] register_as registers_as assign_as
      update delete unassign rules metadata batch
    unfolding policy_calls_def by (elim UnE CollectE exE conjE Pair_inject) (simp_all only:)
qed

subsection \<open>Reading the policy back\<close>

lemma guarded_query_answer:
  assumes e: "runs_on e ops cops" and st: "good e okay absf fit holds st"
    and live: "cx_Err cx = None" and fair: "fair_range cx" and up: "\<not> st_shutdown st" and off: "en_audit e = None"
    and q: "\<And>st'. st_store st' = st_store st \<Longrightarrow> q st' = out"
  shows "snd (guarded_query e cx actor q st) = gate (manages e (absf (st_store st)) cx actor) out"
proof -
  obtain st1 er where run: "requireManagement e cx actor st = (st1, er)" by force
  then have "st_store st1 = st_store st" using requireManagement_good [OF e st, of cx actor] by simp
  with run requireManagement_live [OF assms(1-6), of actor] q [of st1] show ?thesis
    by (simp add: guarded_query_def gate_def)
qed

lemma RoleRules_answer:
  assumes e: "runs_on e ops cops" and st: "good e okay absf fit holds st"
    and live: "cx_Err cx = None" and fair: "fair_range cx" and up: "\<not> st_shutdown st" and off: "en_audit e = None"
  shows "snd (RoleRules e cx actor r st) = gate (manages e (absf (st_store st)) cx actor)
      (if fmhas (ab_roles (absf (st_store st))) (roleKey e r) then Inr (rules_of (absf (st_store st)) (roleKey e r))
       else Inl ErrRoleNotFound)"
  unfolding RoleRules_def
  by (rule guarded_query_answer [OF assms])
    (use e get_rules_live [OF goodD(1) [OF st] live] in \<open>simp add: interfaces runs_on_def\<close>)

lemma RoleMetadata_answer:
  assumes e: "runs_on e ops cops" and st: "good e okay absf fit holds st"
    and live: "cx_Err cx = None" and fair: "fair_range cx" and up: "\<not> st_shutdown st" and off: "en_audit e = None"
  shows "snd (RoleMetadata e cx actor r st) = gate (manages e (absf (st_store st)) cx actor)
      (if fmhas (ab_roles (absf (st_store st))) (roleKey e r) then Inr (meta_of (absf (st_store st)) (roleKey e r))
       else Inl ErrRoleNotFound)"
  unfolding RoleMetadata_def
  by (rule guarded_query_answer [OF assms])
    (use e get_meta [OF goodD(1) [OF st] live] in \<open>simp add: interfaces runs_on_def\<close>)

text \<open>What a successful call leaves in the store, and that reading it yields what can be written again.\<close>

lemma carried_out_success:
  assumes "effect e f st outcome" and "f st = (st1, None)"
  shows "good e okay absf fit holds st1" "st_shutdown st1 = st_shutdown st" "outcome = Inr (absf (st_store st1))"
  using assms by (auto simp: carried_out_def)

lemma SetRoleRules_stored:
  assumes e: "runs_on e ops cops" and st: "good e okay absf fit holds st" and fair: "fair_range cx"
    and run: "SetRoleRules e cx actor r rs st = (st1, None)"
  shows "good e okay absf fit holds st1" "st_shutdown st1 = st_shutdown st" "en_rulesEnabled e"
    "\<exists>stored. cloneRules rs = Inr stored \<and> rules_of (absf (st_store st1)) (roleKey e r) = stored \<and>
      fmhas (ab_roles (absf (st_store st1))) (roleKey e r) \<and>
      spec_SetRoleRules (roleKey e r) stored (absf (st_store st1)) = Inr (absf (st_store st1))"
proof -
  show on: "en_rulesEnabled e" using run by (auto simp: SetRoleRules_def split: if_splits)
  note wrote = carried_out_success [OF SetRoleRules_effect [OF e st fair on] run]
  show "good e okay absf fit holds st1" "st_shutdown st1 = st_shutdown st" by (rule wrote)+
  from wrote(3) obtain stored where "cloneRules rs = Inr stored" "fmhas (ab_roles (absf (st_store st))) (roleKey e r)"
    and "absf (st_store st1) = (absf (st_store st))\<lparr>ab_rules := fmupd (roleKey e r) stored (ab_rules (absf (st_store st)))\<rparr>"
    by (auto simp: gate_def spec_SetRoleRules_def split: if_splits sum.splits)
  with cloneRules_stable(2) show "\<exists>stored. cloneRules rs = Inr stored \<and> rules_of (absf (st_store st1)) (roleKey e r) = stored \<and>
      fmhas (ab_roles (absf (st_store st1))) (roleKey e r) \<and>
      spec_SetRoleRules (roleKey e r) stored (absf (st_store st1)) = Inr (absf (st_store st1))"
    by (auto simp: rules_of_def spec_SetRoleRules_def)
qed

lemma SetRoleMetadata_stored:
  assumes e: "runs_on e ops cops" and st: "good e okay absf fit holds st" and fair: "fair_range cx"
    and run: "SetRoleMetadata e cx actor r m st = (st1, None)"
  shows "good e okay absf fit holds st1" "st_shutdown st1 = st_shutdown st"
    "fmlookup (ab_meta (absf (st_store st1))) (roleKey e r) = Some (tr_stored tr m)"
    "fmhas (ab_roles (absf (st_store st1))) (roleKey e r)"
proof -
  note wrote = carried_out_success [OF SetRoleMetadata_effect [OF e st fair] run]
  show "good e okay absf fit holds st1" "st_shutdown st1 = st_shutdown st" by (rule wrote)+
  from wrote(3) have "absf (st_store st1) = (absf (st_store st))\<lparr>ab_meta := fmupd (roleKey e r) (tr_stored tr m) (ab_meta (absf (st_store st)))\<rparr>"
    and "fmhas (ab_roles (absf (st_store st))) (roleKey e r)"
    by (auto simp: gate_def spec_SetRoleMetadata_def split: if_splits)
  then show "fmlookup (ab_meta (absf (st_store st1))) (roleKey e r) = Some (tr_stored tr m)"
    "fmhas (ab_roles (absf (st_store st1))) (roleKey e r)"
    by simp_all
qed

lemma rules_round_trip:
  assumes e: "runs_on e ops cops" and st: "good e okay absf fit holds st"
    and live: "cx_Err cx = None" and fair: "fair_range cx" and up: "\<not> st_shutdown st" and off: "en_audit e = None"
    and run: "SetRoleRules e cx actor r rs st = (st1, None)"
  shows "\<exists>stored. cloneRules rs = Inr stored \<and>
    snd (RoleRules e cx reader r st1) = gate (manages e (absf (st_store st1)) cx reader) (Inr stored) \<and>
    meets absf (SetRoleRules e cx reader r stored) st1 (managed e cx reader (\<lambda>A. (A, None)) (absf (st_store st1)))"
proof -
  note wrote = SetRoleRules_stored [OF e st fair run]
  then obtain stored where stored: "cloneRules rs = Inr stored" "rules_of (absf (st_store st1)) (roleKey e r) = stored"
    "fmhas (ab_roles (absf (st_store st1))) (roleKey e r)"
    "spec_SetRoleRules (roleKey e r) stored (absf (st_store st1)) = Inr (absf (st_store st1))" by blast
  have up1: "\<not> st_shutdown st1" using wrote(2) up by simp
  note now = e wrote(1) live fair up1 off
  have "(SetRoleRules e cx reader r stored, \<lambda>A. if \<not> en_rulesEnabled e then (A, Some ErrPolicyRulesDisabled)
      else managed e cx reader (settled (spec_SetRoleRules (roleKey e r) stored)) A) \<in> policy_calls e tr cx reader"
    unfolding policy_calls_def by blast
  from policy_call_outcome [OF now this] RoleRules_answer [OF now, of reader r] stored wrote(3) show ?thesis
    by (auto simp: managed_def settled_def)
qed

lemma metadata_round_trip:
  assumes e: "runs_on e ops cops" and st: "good e okay absf fit holds st"
    and live: "cx_Err cx = None" and fair: "fair_range cx" and up: "\<not> st_shutdown st" and off: "en_audit e = None"
    and run: "SetRoleMetadata e cx actor r m st = (st1, None)"
  shows "snd (RoleMetadata e cx reader r st1) = gate (manages e (absf (st_store st1)) cx reader) (Inr (tr_stored tr m))"
    and "tr_stored tr (tr_stored tr m) = tr_stored tr m \<Longrightarrow>
      meets absf (SetRoleMetadata e cx reader r (tr_stored tr m)) st1 (managed e cx reader (\<lambda>A. (A, None)) (absf (st_store st1)))"
proof -
  note wrote = SetRoleMetadata_stored [OF e st fair run]
  have up1: "\<not> st_shutdown st1" using wrote(2) up by simp
  note now = e wrote(1) live fair up1 off
  from RoleMetadata_answer [OF now, of reader r] wrote(3,4)
  show "snd (RoleMetadata e cx reader r st1) = gate (manages e (absf (st_store st1)) cx reader) (Inr (tr_stored tr m))"
    by (simp add: meta_of_def)
  assume same: "tr_stored tr (tr_stored tr m) = tr_stored tr m"
  have "(SetRoleMetadata e cx reader r (tr_stored tr m),
      managed e cx reader (settled (spec_SetRoleMetadata (roleKey e r) (tr_stored tr (tr_stored tr m))))) \<in> policy_calls e tr cx reader"
    unfolding policy_calls_def by blast
  from policy_call_outcome [OF now this] wrote(3,4)
  show "meets absf (SetRoleMetadata e cx reader r (tr_stored tr m)) st1 (managed e cx reader (\<lambda>A. (A, None)) (absf (st_store st1)))"
    by (auto simp: managed_def settled_def spec_SetRoleMetadata_def same)
qed

end

end
