(* ===== verification/Tenancy.thy ===== *)
theory Tenancy
  imports Engine
begin

text \<open>
  Tenants that share one store. \<^verbatim>\<open>WithTenant\<close> (\<^verbatim>\<open>options.go\<close>) accepts a tenant, the Enforcer
  prefixes every stored name with it, and the calls of one Enforcer are the steps of a transition
  system. A step of one tenant leaves the decisions of every tenant with disjoint keys alone.
\<close>

subsection \<open>Tenants and keys\<close>

definition WithTenant :: "string \<Rightarrow> ('s, 'c, 'x) enforcer \<Rightarrow> err + ('s, 'c, 'x) enforcer" where
  "WithTenant tenant e =
     (if blank tenant then Inl (ErrConfig ''rbacgo: empty tenant'')
      else let t = TrimSpace tenant
           in if Contains t tenantSep then Inl (ErrConfig ''rbacgo: tenant contains the reserved separator'')
              else Inr (e\<lparr>en_tenant := t\<rparr>))"

text \<open>The stored names of a tenant.\<close>

definition own :: "string \<Rightarrow> string \<Rightarrow> bool" where
  "own t k \<longleftrightarrow> HasPrefix k (t @ tenantSep)"

definition disjoint_tenants :: "string \<Rightarrow> string \<Rightarrow> bool" where
  "disjoint_tenants s t \<longleftrightarrow> (\<forall>k. \<not> (own s k \<and> own t k))"

lemma own_iff: "own t k \<longleftrightarrow> (\<exists>n. k = t @ tenantSep @ n)"
  by (auto simp: own_def HasPrefix_iff)

lemma own_keys [simp]: "own (en_tenant e) (roleKey e n)" "own (en_tenant e) (userKey e n)"
  by (auto simp: own_iff roleKey_def userKey_def)

lemma disjoint_tenantsD: "disjoint_tenants s t \<Longrightarrow> own s k \<Longrightarrow> \<not> own t k"
  by (auto simp: disjoint_tenants_def)

lemma WithTenant_tenant:
  assumes "WithTenant tenant e = Inr e'"
  shows "en_tenant e' = TrimSpace tenant" and "en_tenant e' \<noteq> []" and "\<not> Contains (en_tenant e') tenantSep"
  using assms by (auto simp: WithTenant_def blank_def Let_def split: if_splits)

text \<open>
  When the keys of two accepted tenants meet: only if one is the other with one more colon.
\<close>

lemma prefix_meet:
  assumes eq: "s @ tenantSep @ x = t @ tenantSep @ y" and "\<not> Contains t tenantSep" and "length s \<le> length t"
  shows "t = s \<or> t = s @ '':''"
proof -
  from eq assms(3) obtain r where t: "t = s @ r" by (auto simp: append_eq_append_conv2)
  with eq have rest: "tenantSep @ x = r @ tenantSep @ y" by simp
  show ?thesis
  proof (cases r)
    case Nil
    with t show ?thesis by simp
  next
    case (Cons a r1)
    show ?thesis
    proof (cases r1)
      case Nil
      with Cons rest t show ?thesis by (simp add: tenantSep_def)
    next
      case (Cons b r2)
      with \<open>r = a # r1\<close> rest t have "t = s @ tenantSep @ r2" by (auto simp: tenantSep_def)
      with assms(2) show ?thesis unfolding Contains_iff by blast
    qed
  qed
qed

lemma disjoint_tenants_iff:
  assumes "\<not> Contains s tenantSep" and "\<not> Contains t tenantSep"
  shows "disjoint_tenants s t \<longleftrightarrow> s \<noteq> t \<and> t \<noteq> s @ '':'' \<and> s \<noteq> t @ '':''"
proof
  assume d: "disjoint_tenants s t"
  have "own s (s @ tenantSep @ n)" for s n by (auto simp: own_iff)
  moreover have "(s @ '':'') @ tenantSep @ [] = s @ tenantSep @ '':''" for s by (simp add: tenantSep_def)
  ultimately show "s \<noteq> t \<and> t \<noteq> s @ '':'' \<and> s \<noteq> t @ '':''"
    using d unfolding disjoint_tenants_def by metis
next
  assume n: "s \<noteq> t \<and> t \<noteq> s @ '':'' \<and> s \<noteq> t @ '':''"
  show "disjoint_tenants s t"
    unfolding disjoint_tenants_def own_iff
  proof (intro allI notI)
    fix k
    assume "(\<exists>n. k = s @ tenantSep @ n) \<and> (\<exists>n. k = t @ tenantSep @ n)"
    then obtain x y where eq: "s @ tenantSep @ x = t @ tenantSep @ y" by auto
    with prefix_meet [OF eq assms(2)] prefix_meet [OF eq [symmetric] assms(1)] n show False
      by (cases "length s \<le> length t") auto
  qed
qed

subsection \<open>What belongs to a tenant\<close>

text \<open>A tenant's users hold the tenant's roles, and these inherit from the tenant's roles.\<close>

definition separated :: "string \<Rightarrow> rbac \<Rightarrow> bool" where
  "separated t A \<longleftrightarrow>
     (\<forall>u r. own t u \<longrightarrow> (u, r) |\<in>| ab_assign A \<longrightarrow> own t r) \<and>
     (\<forall>n p. own t n \<longrightarrow> ab_parent (ab_roles A) n p \<longrightarrow> own t p)"

definition untouched :: "string \<Rightarrow> rbac \<Rightarrow> rbac \<Rightarrow> bool" where
  "untouched t A A' \<longleftrightarrow>
     (\<forall>k. own t k \<longrightarrow> fmlookup (ab_roles A') k = fmlookup (ab_roles A) k \<and>
        fmlookup (ab_rules A') k = fmlookup (ab_rules A) k \<and>
        fmlookup (ab_meta A') k = fmlookup (ab_meta A) k) \<and>
     (\<forall>u r. own t u \<longrightarrow> ((u, r) |\<in>| ab_assign A' \<longleftrightarrow> (u, r) |\<in>| ab_assign A))"

lemma untouched_refl [simp]: "untouched t A A"
  by (simp add: untouched_def)

lemma untouched_sym: "untouched t A A' \<Longrightarrow> untouched t A' A"
  by (simp add: untouched_def)

lemma untouched_trans: "untouched t A B \<Longrightarrow> untouched t B C \<Longrightarrow> untouched t A C"
  by (simp add: untouched_def)

lemma untouched_parent:
  "untouched t A A' \<Longrightarrow> own t n \<Longrightarrow> ab_parent (ab_roles A') n p \<longleftrightarrow> ab_parent (ab_roles A) n p"
  by (simp add: untouched_def ab_parent_def)

lemma untouched_separated: "untouched t A A' \<Longrightarrow> separated t A \<Longrightarrow> separated t A'"
  unfolding separated_def using untouched_parent unfolding untouched_def by blast

lemma untouched_reach:
  assumes "untouched t A A'" and "separated t A" and "own t n"
    and "(ab_parent (ab_roles A))\<^sup>*\<^sup>* n x"
  shows "own t x \<and> (ab_parent (ab_roles A'))\<^sup>*\<^sup>* n x"
  using assms(4)
proof (induction rule: rtranclp_induct)
  case base
  with assms(3) show ?case by simp
next
  case (step y z)
  then have "own t z" using assms(2) unfolding separated_def by blast
  moreover have "ab_parent (ab_roles A') y z" using untouched_parent [OF assms(1)] step by blast
  ultimately show ?case using step.IH by (auto intro: rtranclp.rtrancl_into_rtrancl)
qed

lemma untouched_reach_iff:
  assumes "untouched t A A'" and "separated t A" and "own t n"
  shows "(ab_parent (ab_roles A'))\<^sup>*\<^sup>* n x \<longleftrightarrow> (ab_parent (ab_roles A))\<^sup>*\<^sup>* n x"
  using untouched_reach [OF assms] untouched_reach [OF untouched_sym [OF assms(1)]
      untouched_separated [OF assms(1,2)] assms(3)] by blast

lemma untouched_assigned:
  assumes "untouched t A A'" and "separated t A" and "own t u"
  shows "(u, r) |\<in>| ab_assign A' \<longleftrightarrow> (u, r) |\<in>| ab_assign A"
    and "(u, r) |\<in>| ab_assign A \<Longrightarrow> own t r"
  using assms unfolding untouched_def separated_def by blast+

lemma untouched_entitled:
  assumes un: "untouched t A A'" and sep: "separated t A" and u: "own t u"
  shows "entitled A' u = entitled A u"
proof -
  have "ab_grants (ab_roles A') r res act \<longleftrightarrow> ab_grants (ab_roles A) r res act" if "own t r" for r res act
  proof -
    have "fmlookup (ab_roles A') x = fmlookup (ab_roles A) x" if "(ab_parent (ab_roles A))\<^sup>*\<^sup>* r x" for x
      using untouched_reach [OF un sep \<open>own t r\<close> that] un unfolding untouched_def by blast
    then show ?thesis
      unfolding ab_grants_def untouched_reach_iff [OF un sep that] by metis
  qed
  then show ?thesis
    using untouched_assigned [OF un sep u] by (auto simp: entitled_def fun_eq_iff)
qed

lemma untouched_holds_role:
  assumes un: "untouched t A A'" and sep: "separated t A" and u: "own t u"
  shows "holds_role A' u x \<longleftrightarrow> holds_role A u x" and "holds_role A u x \<Longrightarrow> own t x"
proof -
  have reach: "own t x" if "(u, r) |\<in>| ab_assign A" "(ab_parent (ab_roles A))\<^sup>*\<^sup>* r x" for r
    using untouched_reach [OF un sep _ that(2)] untouched_assigned(2) [OF un sep u that(1)] by blast
  then show "holds_role A u x \<Longrightarrow> own t x" by (auto simp: holds_role_def)
  have "fmhas (ab_roles A') x \<longleftrightarrow> fmhas (ab_roles A) x" if "own t x"
    using un that unfolding untouched_def fmhas_def by simp
  then show "holds_role A' u x \<longleftrightarrow> holds_role A u x"
    unfolding holds_role_def
    using reach untouched_assigned [OF un sep u] untouched_reach_iff [OF un sep] by metis
qed

text \<open>The decisions for a tenant's users depend on what belongs to the tenant only.\<close>

lemma untouched_decision:
  assumes un: "untouched (en_tenant e) A A'" and sep: "separated (en_tenant e) A"
  shows "may e A' u = may e A u" and "decision e A' u = decision e A u"
proof -
  note u = own_keys(2) [of e u]
  show "may e A' u = may e A u"
    by (simp add: may_def untouched_entitled [OF un sep u])
  have "rules_of A' x = rules_of A x" if "holds_role A (userKey e u) x" for x
    using untouched_holds_role(2) [OF un sep u that] un by (simp add: rules_of_def untouched_def)
  then show "decision e A' u = decision e A u"
    unfolding decision_def fun_eq_iff
    using untouched_holds_role(1) [OF un sep u] by (auto simp: Let_def)
qed

subsection \<open>The operations of another tenant\<close>

lemma spec_AddRole_untouched:
  "spec_AddRole tr role A = Inr A' \<Longrightarrow> \<not> own t (role_Name role) \<Longrightarrow> untouched t A A'"
  by (auto simp: spec_AddRole_def untouched_def split: if_splits)

lemma spec_UpdateRole_untouched:
  "spec_UpdateRole role A = Inr A' \<Longrightarrow> \<not> own t (role_Name role) \<Longrightarrow> untouched t A A'"
  by (auto simp: spec_UpdateRole_def untouched_def Let_def split: if_splits)

lemma spec_AssignRole_untouched:
  "spec_AssignRole u r A = Inr A' \<Longrightarrow> \<not> own t u \<Longrightarrow> untouched t A A'"
  by (auto simp: spec_AssignRole_def untouched_def split: if_splits)

lemma spec_UnassignRole_untouched:
  "spec_UnassignRole u r A = Inr A' \<Longrightarrow> \<not> own t u \<Longrightarrow> untouched t A A'"
  by (auto simp: spec_UnassignRole_def untouched_def split: if_splits)

lemma spec_SetRoleRules_untouched:
  "spec_SetRoleRules n rules A = Inr A' \<Longrightarrow> \<not> own t n \<Longrightarrow> untouched t A A'"
  by (auto simp: spec_SetRoleRules_def untouched_def split: if_splits sum.splits)

lemma spec_SetRoleMetadata_untouched:
  "spec_SetRoleMetadata n m A = Inr A' \<Longrightarrow> \<not> own t n \<Longrightarrow> untouched t A A'"
  by (auto simp: spec_SetRoleMetadata_def untouched_def split: if_splits)

lemma spec_DeleteRole_untouched:
  assumes "spec_DeleteRole n A = Inr A'" and n: "\<not> own t n" and sep: "separated t A"
  shows "untouched t A A'"
proof -
  from assms(1) have A': "A' = A\<lparr>ab_roles := fmmap (\<lambda>e. (fst e, snd e |-| {|n|})) (fmdrop n (ab_roles A)),
      ab_rules := fmdrop n (ab_rules A), ab_meta := fmdrop n (ab_meta A)\<rparr>"
    by (auto simp: spec_DeleteRole_def split: if_splits)
  have "fmlookup (ab_roles A') k = fmlookup (ab_roles A) k" if k: "own t k" for k
  proof (cases "fmlookup (ab_roles A) k")
    case None
    then show ?thesis by (simp add: A')
  next
    case (Some e)
    have "n |\<notin>| snd e"
      using sep k n Some unfolding separated_def ab_parent_def by (metis prod.collapse)
    then have "snd e |-| {|n|} = snd e" by auto
    moreover have "k \<noteq> n" using k n by blast
    ultimately show ?thesis using Some by (simp add: A')
  qed
  then show ?thesis using n by (auto simp: untouched_def A')
qed

subsection \<open>Changes confined to a tenant\<close>

text \<open>
  A change by tenant \<open>s\<close> that keeps the tenant's own part separated and leaves every other tenant
  with disjoint keys untouched.
\<close>

definition policy_change :: "string \<Rightarrow> rbac \<Rightarrow> rbac \<Rightarrow> bool" where
  "policy_change s A A' \<longleftrightarrow>
     (\<forall>t. disjoint_tenants s t \<longrightarrow> separated t A \<longrightarrow> untouched t A A') \<and>
     (separated s A \<longrightarrow> separated s A')"

lemma policy_change_refl [simp]: "policy_change s A A"
  by (simp add: policy_change_def)

lemma policy_change_trans: "policy_change s A B \<Longrightarrow> policy_change s B C \<Longrightarrow> policy_change s A C"
  unfolding policy_change_def using untouched_separated untouched_trans by blast

lemma policy_changeI:
  assumes "\<And>t. \<not> own t k \<Longrightarrow> separated t A \<Longrightarrow> untouched t A A'" and "own s k"
    and "separated s A \<Longrightarrow> separated s A'"
  shows "policy_change s A A'"
  using assms disjoint_tenantsD unfolding policy_change_def by blast

text \<open>How the own part of the acting tenant stays separated.\<close>

lemma separatedI:
  assumes "\<And>u r. own t u \<Longrightarrow> (u, r) |\<in>| ab_assign A \<Longrightarrow> own t r"
    and "\<And>n p. own t n \<Longrightarrow> ab_parent (ab_roles A) n p \<Longrightarrow> own t p"
  shows "separated t A"
  using assms unfolding separated_def by blast

lemma separatedD:
  assumes "separated t A"
  shows "own t u \<Longrightarrow> (u, r) |\<in>| ab_assign A \<Longrightarrow> own t r"
    and "own t n \<Longrightarrow> ab_parent (ab_roles A) n p \<Longrightarrow> own t p"
  using assms unfolding separated_def by blast+

text \<open>A state with fewer assignments and edges, or with edges to the tenant's own roles.\<close>

lemma separated_by:
  assumes sep: "separated t A"
    and "\<And>u r. own t u \<Longrightarrow> (u, r) |\<in>| ab_assign A' \<Longrightarrow> (u, r) |\<in>| ab_assign A \<or> own t r"
    and "\<And>n p. ab_parent (ab_roles A') n p \<Longrightarrow> ab_parent (ab_roles A) n p \<or> own t p"
  shows "separated t A'"
  by (rule separatedI) (use assms(2,3) separatedD [OF sep] in blast)+

lemma spec_role_separated:
  assumes "\<And>p. p \<in> set (role_Parents role) \<Longrightarrow> own s p" and "separated s A"
  shows "spec_AddRole tr role A = Inr A' \<Longrightarrow> separated s A'"
    and "spec_UpdateRole role A = Inr A' \<Longrightarrow> separated s A'"
proof -
  have "separated s (A\<lparr>ab_roles := fmupd (role_Name role) (role_entry role) (ab_roles A)\<rparr>)"
    by (rule separated_by [OF assms(2)])
      (use assms(1) in \<open>auto simp: ab_parent_fmupd role_entry_def split: if_splits\<close>)
  then show "spec_AddRole tr role A = Inr A' \<Longrightarrow> separated s A'"
    and "spec_UpdateRole role A = Inr A' \<Longrightarrow> separated s A'"
    by (auto simp: spec_AddRole_def spec_UpdateRole_def Let_def split: if_splits)
qed

lemma spec_other_separated:
  assumes "separated s A"
  shows "spec_DeleteRole n A = Inr A' \<Longrightarrow> separated s A'"
    and "own s r \<Longrightarrow> spec_AssignRole u r A = Inr A' \<Longrightarrow> separated s A'"
    and "spec_UnassignRole u r A = Inr A' \<Longrightarrow> separated s A'"
    and "spec_SetRoleRules n rules A = Inr A' \<Longrightarrow> separated s A'"
    and "spec_SetRoleMetadata n m A = Inr A' \<Longrightarrow> separated s A'"
  by (rule separated_by [OF assms];
      auto simp: spec_DeleteRole_def spec_AssignRole_def spec_UnassignRole_def spec_SetRoleRules_def
        spec_SetRoleMetadata_def ab_parent_delete split: if_splits sum.splits)+

lemma spec_policy_change:
  "own s (role_Name role) \<Longrightarrow> (\<And>p. p \<in> set (role_Parents role) \<Longrightarrow> own s p) \<Longrightarrow>
     spec_AddRole tr role A = Inr A' \<Longrightarrow> policy_change s A A'"
  "own s (role_Name role) \<Longrightarrow> (\<And>p. p \<in> set (role_Parents role) \<Longrightarrow> own s p) \<Longrightarrow>
     spec_UpdateRole role A = Inr A' \<Longrightarrow> policy_change s A A'"
  "own s n \<Longrightarrow> spec_DeleteRole n A = Inr A' \<Longrightarrow> policy_change s A A'"
  "own s u \<Longrightarrow> own s r \<Longrightarrow> spec_AssignRole u r A = Inr A' \<Longrightarrow> policy_change s A A'"
  "own s u \<Longrightarrow> spec_UnassignRole u r A = Inr A' \<Longrightarrow> policy_change s A A'"
  "own s n \<Longrightarrow> spec_SetRoleRules n rules A = Inr A' \<Longrightarrow> policy_change s A A'"
  "own s n \<Longrightarrow> spec_SetRoleMetadata n m A = Inr A' \<Longrightarrow> policy_change s A A'"
  subgoal by (rule policy_changeI [OF spec_AddRole_untouched]) (assumption+, rule spec_role_separated(1))
  subgoal by (rule policy_changeI [OF spec_UpdateRole_untouched]) (assumption+, rule spec_role_separated(2))
  subgoal by (rule policy_changeI [OF spec_DeleteRole_untouched]) (assumption+, rule spec_other_separated(1))
  subgoal by (rule policy_changeI [OF spec_AssignRole_untouched]) (assumption+, rule spec_other_separated(2))
  subgoal by (rule policy_changeI [OF spec_UnassignRole_untouched]) (assumption+, rule spec_other_separated(3))
  subgoal by (rule policy_changeI [OF spec_SetRoleRules_untouched]) (assumption+, rule spec_other_separated(4))
  subgoal by (rule policy_changeI [OF spec_SetRoleMetadata_untouched]) (assumption+, rule spec_other_separated(5))
  done

text \<open>A loop of confined changes is confined.\<close>

lemma forE_policy_change:
  assumes "\<And>x B B'. x \<in> set xs \<Longrightarrow> f x B = Inr B' \<Longrightarrow> policy_change s B B'"
    and "forE f xs A = Inr A'"
  shows "policy_change s A A'"
  by (rule forE_wf [where P = "policy_change s A", OF _ policy_change_refl assms(2)])
    (blast intro: policy_change_trans assms(1))

lemma spec_ApplyBatch_change:
  assumes fair: "fair_range cx"
    and keys: "\<And>role. role \<in> set (pb_Register b) \<union> set (pb_Update b) \<Longrightarrow> own s (role_Name role)"
      "\<And>role p. role \<in> set (pb_Register b) \<union> set (pb_Update b) \<Longrightarrow> p \<in> set (role_Parents role) \<Longrightarrow> own s p"
      "\<And>n rules. fmlookup (pb_RuleUpdates b) n = Some rules \<Longrightarrow> own s n"
      "\<And>n m. fmlookup (pb_MetadataUpdates b) n = Some m \<Longrightarrow> own s n"
      "\<And>ra. ra \<in> set (pb_Unassign b) \<union> set (pb_Assign b) \<Longrightarrow> own s (ra_UserID ra)"
      "\<And>ra. ra \<in> set (pb_Assign b) \<Longrightarrow> own s (ra_RoleName ra)"
      "\<And>n. n \<in> set (pb_Delete b) \<Longrightarrow> own s n"
    and run: "spec_ApplyBatch tr cx b A = Inr A'"
  shows "policy_change s A A'"
proof -
  from run obtain A1 A2 A3 A4 A5 A6 where steps:
      "forE (spec_AddRole tr) (pb_Register b) A = Inr A1"
      "forE spec_UpdateRole (pb_Update b) A1 = Inr A2"
      "forE (\<lambda>(n, rs). spec_SetRoleRules n rs) (ranged cx (pb_RuleUpdates b)) A2 = Inr A3"
      "forE (\<lambda>(n, m). spec_SetRoleMetadata n (tr_stored tr m)) (ranged cx (pb_MetadataUpdates b)) A3 = Inr A4"
      "forE (\<lambda>ra. spec_UnassignRole (ra_UserID ra) (ra_RoleName ra)) (pb_Unassign b) A4 = Inr A5"
      "forE (\<lambda>ra. spec_AssignRole (ra_UserID ra) (ra_RoleName ra)) (pb_Assign b) A5 = Inr A6"
      "forE spec_DeleteRole (pb_Delete b) A6 = Inr A'"
    by (auto simp: spec_ApplyBatch_def bindE_Inr split: option.splits)
  have 1: "policy_change s A A1"
    by (rule forE_policy_change [OF _ steps(1)]) (auto intro: spec_policy_change keys)
  have 2: "policy_change s A1 A2"
    by (rule forE_policy_change [OF _ steps(2)]) (auto intro: spec_policy_change keys)
  have 3: "policy_change s A2 A3"
    by (rule forE_policy_change [OF _ steps(3)])
      (auto simp: set_ranged [OF fair] intro: spec_policy_change(6) keys)
  have 4: "policy_change s A3 A4"
    by (rule forE_policy_change [OF _ steps(4)])
      (auto simp: set_ranged [OF fair] intro: spec_policy_change(7) keys)
  have 5: "policy_change s A4 A5"
    by (rule forE_policy_change [OF _ steps(5)]) (auto intro: spec_policy_change(5) keys)
  have 6: "policy_change s A5 A6"
    by (rule forE_policy_change [OF _ steps(6)]) (auto intro: spec_policy_change(4) keys)
  have 7: "policy_change s A6 A'"
    by (rule forE_policy_change [OF _ steps(7)]) (auto intro: spec_policy_change(3) keys)
  show ?thesis using 1 2 3 4 5 6 7 by (blast intro: policy_change_trans)
qed

lemma fold_scope_keys:
  "fmlookup (fold (\<lambda>(name, v). fmupd (roleKey e name) v) xs m) k = Some v \<Longrightarrow>
     (\<exists>name. k = roleKey e name) \<or> fmlookup m k = Some v"
  by (induction xs arbitrary: m) (auto split: if_splits, metis fmupd_lookup)

lemma scopeMap_own: "fmlookup (scopeMap e cx m) k = Some v \<Longrightarrow> own (en_tenant e) k"
  unfolding scopeMap_def by (drule fold_scope_keys) auto

lemma spec_Batch_change:
  assumes "fair_range cx" and "spec_Batch e tr cx b A = Inr A'"
  shows "policy_change (en_tenant e) A A'"
proof (rule spec_ApplyBatch_change [OF assms(1), where b = "scopeBatch e cx b"])
  show "spec_ApplyBatch tr cx (scopeBatch e cx b) A = Inr A'"
    using assms(2) by (auto simp: spec_Batch_def split: option.splits if_splits)
qed (auto simp: scopeBatch_def scopeRole_def scopeAssignment_def dest: scopeMap_own)

subsection \<open>The calls of an Enforcer\<close>

text \<open>
  Every call that may change the state of an Enforcer, as a step. Go ranges over a map in any order
  that visits each key once, which is all that a step may assume of its context.
\<close>

inductive enforcer_step ::
  "('s, 'c, 'x) enforcer \<Rightarrow> ('s, 'c, 'x) state \<Rightarrow> ('s, 'c, 'x) state \<Rightarrow> bool" for e where
  "fair_range cx \<Longrightarrow> enforcer_step e st (fst (RegisterRole e cx role st))"
| "fair_range cx \<Longrightarrow> enforcer_step e st (fst (RegisterRoles e cx roles st))"
| "fair_range cx \<Longrightarrow> enforcer_step e st (fst (AssignRole e cx u r st))"
| "fair_range cx \<Longrightarrow> enforcer_step e st (fst (DeleteRole e cx actor r st))"
| "fair_range cx \<Longrightarrow> enforcer_step e st (fst (UnassignRole e cx actor u r st))"
| "fair_range cx \<Longrightarrow> enforcer_step e st (fst (UpdateRole e cx actor role st))"
| "fair_range cx \<Longrightarrow> enforcer_step e st (fst (SetRoleRules e cx actor r rules st))"
| "fair_range cx \<Longrightarrow> enforcer_step e st (fst (SetRoleMetadata e cx actor r m st))"
| "fair_range cx \<Longrightarrow> enforcer_step e st (fst (RegisterRoleAs e cx actor role st))"
| "fair_range cx \<Longrightarrow> enforcer_step e st (fst (RegisterRolesAs e cx actor roles st))"
| "fair_range cx \<Longrightarrow> enforcer_step e st (fst (AssignRoleAs e cx actor u r st))"
| "fair_range cx \<Longrightarrow> enforcer_step e st (fst (ApplyPolicyBatch e cx actor b st))"
| "fair_range cx \<Longrightarrow> enforcer_step e st (fst (EnforceCtx e cx u res act st))"
| "fair_range cx \<Longrightarrow> enforcer_step e st (fst (EnforceOwnedCtx e cx u owner grp res act st))"
| "fair_range cx \<Longrightarrow> enforcer_step e st (fst (PermissionView e cx u st))"
| "fair_range cx \<Longrightarrow> enforcer_step e st (invalidationStep e cx ev st)"
| "enforcer_step e st (fst (Shutdown e finished cx st))"

text \<open>An action that keeps the invariant and changes the policy of its tenant only.\<close>

definition confined ::
  "(('s, 'c, 'x) state \<Rightarrow> bool) \<Rightarrow> ('s \<Rightarrow> rbac) \<Rightarrow> string \<Rightarrow> ('s, 'c, 'x) action \<Rightarrow> bool" where
  "confined sound absf t f \<longleftrightarrow>
     (\<forall>st. sound st \<longrightarrow> sound (fst (f st)) \<and>
        policy_change t (absf (st_store st)) (absf (st_store (fst (f st)))))"

lemma confined_carried:
  assumes "\<And>st. sound st \<Longrightarrow> carried_out sound absf f st (outcome st)"
    and "\<And>st A'. outcome st = Inr A' \<Longrightarrow> policy_change t (absf (st_store st)) A'"
  shows "confined sound absf t f"
  unfolding confined_def
proof (intro allI impI)
  fix st
  assume "sound st"
  from assms(1) [OF this] assms(2) [of st]
  show "sound (fst (f st)) \<and> policy_change t (absf (st_store st)) (absf (st_store (fst (f st))))"
    unfolding carried_out_def by (elim conjE disjE) simp_all
qed

lemma confinedD:
  "confined sound absf t f \<Longrightarrow> sound st \<Longrightarrow>
     sound (fst (f st)) \<and> policy_change t (absf (st_store st)) (absf (st_store (fst (f st))))"
  by (simp add: confined_def)

lemma confined_keeps:
  fixes f :: "('s, 'c, 'x) action"
  assumes "\<And>st0 :: ('s, 'c, 'x) state. keeps (\<lambda>st. sound st \<and> policy_change t (absf (st_store st0)) (absf (st_store st))) f"
  shows "confined sound absf t f"
  unfolding confined_def
proof (intro allI impI)
  fix st :: "('s, 'c, 'x) state"
  assume "sound st"
  with keepsD [OF assms [of st], of st]
  show "sound (fst (f st)) \<and> policy_change t (absf (st_store st)) (absf (st_store (fst (f st))))"
    by simp
qed

lemma keeps_confined:
  assumes "confined sound absf t f"
  shows "keeps (\<lambda>st. sound st \<and> policy_change t A0 (absf (st_store st))) f"
  by (rule keepsI) (use confinedD [OF assms] policy_change_trans in blast)

lemma confined_forS: "(\<And>x. x \<in> set xs \<Longrightarrow> confined sound absf t (f x)) \<Longrightarrow> confined sound absf t (forS f xs)"
  by (rule confined_keeps, rule keeps_forS, rule keeps_confined)

lemma confined_andS:
  "confined sound absf t f \<Longrightarrow> confined sound absf t g \<Longrightarrow> confined sound absf t (andS f g)"
  by (rule confined_keeps, rule keeps_andS; rule keeps_confined)

lemma confined_quiet:
  assumes "\<And>st. sound st \<Longrightarrow> sound (fst (f st)) \<and> st_store (fst (f st)) = st_store st"
  shows "confined sound absf t f"
  using assms by (simp add: confined_def)

lemma gate_Inr: "gate b outcome = Inr A \<longleftrightarrow> b \<and> outcome = Inr A"
  by (simp add: gate_def)

lemma withAuditActor_range [simp]: "fair_range (withAuditActor cx a) \<longleftrightarrow> fair_range cx"
  by (simp add: fair_range_def withAuditActor_def)

lemma scopeRole_own [simp]: "own (en_tenant e) (role_Name (scopeRole e role))"
  "p \<in> set (role_Parents (scopeRole e role)) \<Longrightarrow> own (en_tenant e) p"
  by (auto simp: scopeRole_def)

context engine
begin

lemma RegisterRole_confined:
  assumes "runs_on e ops cops"
  shows "confined (good e okay absf fit holds) absf (en_tenant e) (RegisterRole e cx role)"
  by (rule confined_carried [OF RegisterRole_effect [OF assms]])
    (auto simp: spec_Register_def intro: spec_policy_change(1) [rotated 2] split: if_splits)

lemma AssignRole_confined:
  assumes "runs_on e ops cops"
  shows "confined (good e okay absf fit holds) absf (en_tenant e) (AssignRole e cx u r)"
  by (rule confined_carried [OF AssignRole_effect [OF assms]], assumption)
    (rule spec_policy_change(4) [rotated 2], assumption, simp_all)

lemma RegisterRoles_confined:
  assumes "runs_on e ops cops"
  shows "confined (good e okay absf fit holds) absf (en_tenant e) (RegisterRoles e cx roles)"
proof -
  have "confined (good e okay absf fit holds) absf (en_tenant e) (forS (RegisterRole e cx) roles)"
    by (rule confined_forS) (rule RegisterRole_confined [OF assms])
  then show ?thesis by (auto simp: confined_def RegisterRoles_def)
qed

lemma guarded_confined:
  assumes "runs_on e ops cops" and "confined (good e okay absf fit holds) absf (en_tenant e) f"
  shows "confined (good e okay absf fit holds) absf (en_tenant e) (guarded e cx actor f)"
  unfolding guarded_def
  by (intro confined_andS confined_quiet assms(2)) (use requireManagement_good [OF assms(1)] in blast)

lemma managed_confined:
  assumes e: "runs_on e ops cops" and fair: "fair_range cx"
  shows "confined (good e okay absf fit holds) absf (en_tenant e) (DeleteRole e cx actor r)"
    and "confined (good e okay absf fit holds) absf (en_tenant e) (UnassignRole e cx actor u r)"
    and "confined (good e okay absf fit holds) absf (en_tenant e) (UpdateRole e cx actor role)"
    and "confined (good e okay absf fit holds) absf (en_tenant e) (SetRoleMetadata e cx actor r m)"
    and "confined (good e okay absf fit holds) absf (en_tenant e) (ApplyPolicyBatch e cx actor b)"
proof -
  show "confined (good e okay absf fit holds) absf (en_tenant e) (DeleteRole e cx actor r)"
    by (rule confined_carried [OF DeleteRole_effect [OF e _ fair]])
      (auto simp: gate_Inr intro: spec_policy_change(3) [rotated])
  show "confined (good e okay absf fit holds) absf (en_tenant e) (UnassignRole e cx actor u r)"
    by (rule confined_carried [OF UnassignRole_effect [OF e _ fair]])
      (auto simp: gate_Inr intro: spec_policy_change(5) [rotated])
  show "confined (good e okay absf fit holds) absf (en_tenant e) (UpdateRole e cx actor role)"
    by (rule confined_carried [OF UpdateRole_effect [OF e _ fair]])
      (auto simp: gate_Inr spec_Update_def intro: spec_policy_change(2) [rotated 2] split: if_splits)
  show "confined (good e okay absf fit holds) absf (en_tenant e) (SetRoleMetadata e cx actor r m)"
    by (rule confined_carried [OF SetRoleMetadata_effect [OF e _ fair]])
      (auto simp: gate_Inr intro: spec_policy_change(7) [rotated])
  show "confined (good e okay absf fit holds) absf (en_tenant e) (ApplyPolicyBatch e cx actor b)"
    by (rule confined_carried [OF ApplyPolicyBatch_effect [OF e _ fair]])
      (auto simp: gate_Inr intro: spec_Batch_change [OF fair])
qed

lemma SetRoleRules_confined:
  assumes e: "runs_on e ops cops" and fair: "fair_range cx"
  shows "confined (good e okay absf fit holds) absf (en_tenant e) (SetRoleRules e cx actor r rs)"
proof (cases "en_rulesEnabled e")
  case True
  show ?thesis
    by (rule confined_carried [OF SetRoleRules_effect [OF e _ fair True]])
      (auto simp: gate_Inr intro: spec_policy_change(6) [rotated])
next
  case False
  then show ?thesis by (simp add: confined_def SetRoleRules_def)
qed

lemma decisions_confined:
  assumes e: "runs_on e ops cops" and st: "good e okay absf fit holds st"
  shows "good e okay absf fit holds (fst (EnforceOwnedCtx e cx u owner grp res act st)) \<and>
      st_store (fst (EnforceOwnedCtx e cx u owner grp res act st)) = st_store st"
    and "good e okay absf fit holds (fst (PermissionView e cx u st)) \<and>
      st_store (fst (PermissionView e cx u st)) = st_store st"
proof -
  obtain st1 r where run: "permissionsFor e cx u st = (st1, r)" by force
  note lookup = permissionsFor_good(1,2) [OF e st run]
  have "\<exists>st2 allowed err. same_policy st1 st2 \<and> EnforceOwnedCtx e cx u owner grp res act st =
      recordDecision e cx ''enforce_owned'' u res act (st2, allowed, err)"
  proof (cases r)
    case (Inl er)
    then show ?thesis using logError_same by (fastforce simp: EnforceOwnedCtx_def run)
  next
    case (Inr ps)
    then show ?thesis
      by (cases "evaluateRules e cx u res act (ownedMatch e ps u owner grp res act)
            (fmupd ''resource.group'' (GVal (JStr grp)) (fmupd ''resource.owner'' (GVal (JStr owner)) (cx_attrs cx)))
            (st_store st1)"; cases "en_rulesEnabled e")
        (auto simp: EnforceOwnedCtx_def run Let_def decided_def intro: same_policy_refl)
  qed
  then obtain st2 where "same_policy st1 st2"
    and "same_policy st2 (fst (EnforceOwnedCtx e cx u owner grp res act st))"
    using recordDecision_same by metis
  then show "good e okay absf fit holds (fst (EnforceOwnedCtx e cx u owner grp res act st)) \<and>
      st_store (fst (EnforceOwnedCtx e cx u owner grp res act st)) = st_store st"
    using lookup by (simp add: same_policy_good same_policyD)
  have "good e okay absf fit holds (fst (currentPolicyVersion e cx st1)) \<and>
      st_store (fst (currentPolicyVersion e cx st1)) = st_store st1"
    using lookup(1) by (simp add: currentPolicyVersion_def good_def Let_def split: option.split sum.split)
  with lookup st show "good e okay absf fit holds (fst (PermissionView e cx u st)) \<and>
      st_store (fst (PermissionView e cx u st)) = st_store st"
    by (cases r) (auto simp: PermissionView_def run Let_def split_beta split: sum.splits)
qed

lemma dropKey_good:
  assumes e: "runs_on e ops cops" and st: "good e okay absf fit holds st"
  shows "good e okay absf fit holds (dropCacheKey e cx k st) \<and> st_store (dropCacheKey e cx k st) = st_store st"
proof (cases "en_cache e")
  case None
  with st show ?thesis by (simp add: dropCacheKey_def good_def Let_def)
next
  case (Some co)
  with e have co: "en_cache e = Some cops" by (simp add: runs_on_def)
  have "coherent e holds (absf (st_store st)) (ca_Delete cops cx k (st_cache st))"
    using goodD(3) [OF st] co delete_old [OF goodD(2) [OF st]] unfolding coherent_def by blast
  with st co keeps_fit(3) [OF goodD(2) [OF st]] show ?thesis
    by (simp add: dropCacheKey_def good_def Let_def)
qed

lemma invalidationStep_good:
  assumes e: "runs_on e ops cops" and st: "good e okay absf fit holds st"
  shows "good e okay absf fit holds (invalidationStep e cx ev st) \<and>
    st_store (invalidationStep e cx ev st) = st_store st"
  using flush_good [OF e goodD(1,2) [OF st]] dropKey_good [OF e st] st
  by (auto simp: invalidationStep_def applyInvalidation_def)

text \<open>Every call keeps the invariant and leaves the tenants with disjoint keys untouched.\<close>

theorem enforcer_step_confined:
  assumes step: "enforcer_step e st st'" and e: "runs_on e ops cops" and st: "good e okay absf fit holds st"
  shows "good e okay absf fit holds st' \<and> policy_change (en_tenant e) (absf (st_store st)) (absf (st_store st'))"
  using step
proof cases
  case (17 finished cx)
  with st show ?thesis by (simp add: Shutdown_def Close_def good_def)
qed (use confinedD [where sound = "good e okay absf fit holds" and absf = absf and t = "en_tenant e" and st = st] st RegisterRole_confined [OF e] RegisterRoles_confined [OF e]
    AssignRole_confined [OF e] managed_confined [OF e] SetRoleRules_confined [OF e]
    guarded_confined [OF e] decide_good [OF e st] decisions_confined [OF e st] invalidationStep_good [OF e st]
    in \<open>simp_all add: RegisterRoleAs_def RegisterRolesAs_def AssignRoleAs_def\<close>)

end

subsection \<open>Removing the prefix\<close>

lemma TrimPrefix_roleKey [simp]: "TrimPrefix (roleKey e n) (en_tenant e @ tenantSep) = n"
  using TrimPrefix_append [of "en_tenant e @ tenantSep" n] by (simp add: roleKey_def)

lemma roleKey_TrimPrefix: "own (en_tenant e) k \<Longrightarrow> roleKey e (TrimPrefix k (en_tenant e @ tenantSep)) = k"
  by (metis TrimPrefix_roleKey own_iff roleKey_def)

lemma role_Name_unscope: "role_Name (unscopeRole e r) = TrimPrefix (role_Name r) (en_tenant e @ tenantSep)"
  by (simp add: unscopeRole_def)

lemma distinct_unscope:
  fixes e :: "('s, 'c, 'x) enforcer"
  assumes "distinct ks" and "\<And>k. k \<in> set ks \<Longrightarrow> own (en_tenant e) k"
  shows "distinct (map (\<lambda>k. TrimPrefix k (en_tenant e @ tenantSep)) ks)"
proof -
  have "inj_on (\<lambda>k. TrimPrefix k (en_tenant e @ tenantSep)) (set ks)"
    by (rule inj_on_inverseI [where g = "roleKey e"]) (simp add: assms(2) roleKey_TrimPrefix)
  with assms(1) show ?thesis by (simp add: distinct_map)
qed

lemma strictly_sorted_sort: "distinct ks \<Longrightarrow> sorted_wrt (<) (sort (ks :: string list))"
  by (simp add: strict_sorted_iff)

end
