(* ===== verification/Deployment.thy ===== *)
theory Deployment
  imports Tenancy
begin

text \<open>
  Several Enforcers over one shared store, each with its own cache and tenant: the multi-tenant
  deployment of the README. The calls of all Enforcers interleave in any order.
\<close>

record ('s, 'c, 'x) deployment =
  dp_store :: 's
  dp_local :: "nat \<Rightarrow> ('s, 'c, 'x) state"

text \<open>What Enforcer \<open>i\<close> sees: its own state and the shared store.\<close>

definition instance_of :: "('s, 'c, 'x) deployment \<Rightarrow> nat \<Rightarrow> ('s, 'c, 'x) state" where
  "instance_of d i = (dp_local d i)\<lparr>st_store := dp_store d\<rparr>"

inductive deploy_step ::
  "(nat \<Rightarrow> ('s, 'c, 'x) enforcer) \<Rightarrow> nat \<Rightarrow> ('s, 'c, 'x) deployment \<Rightarrow> ('s, 'c, 'x) deployment \<Rightarrow> bool"
  for en i where
  "enforcer_step (en i) (instance_of d i) st' \<Longrightarrow>
     deploy_step en i d (d\<lparr>dp_store := st_store st', dp_local := (dp_local d)(i := st')\<rparr>)"

inductive_cases deploy_stepE: "deploy_step en i d d'"

definition deploy_ok ::
  "('s \<Rightarrow> bool) \<Rightarrow> ('s \<Rightarrow> rbac) \<Rightarrow> ('c \<Rightarrow> bool) \<Rightarrow> ('c \<Rightarrow> string \<Rightarrow> cache_value \<Rightarrow> bool) \<Rightarrow> nat \<Rightarrow>
     (nat \<Rightarrow> ('s, 'c, 'x) enforcer) \<Rightarrow> ('s, 'c, 'x) deployment \<Rightarrow> bool" where
  "deploy_ok okay absf fit holds n en d \<longleftrightarrow>
     (\<forall>i < n. good (en i) okay absf fit holds (instance_of d i) \<and>
        separated (en_tenant (en i)) (absf (dp_store d)))"

text \<open>The tenants of the deployment have pairwise disjoint keys.\<close>

definition tenants_apart :: "nat \<Rightarrow> (nat \<Rightarrow> ('s, 'c, 'x) enforcer) \<Rightarrow> bool" where
  "tenants_apart n en \<longleftrightarrow>
     (\<forall>i < n. \<forall>j < n. i \<noteq> j \<longrightarrow> disjoint_tenants (en_tenant (en i)) (en_tenant (en j)))"

lemma coherent_cong:
  assumes "\<And>u. entitled A' (userKey e u) = entitled A (userKey e u)"
  shows "coherent e holds A' c \<longleftrightarrow> coherent e holds A c"
  using assms by (simp add: coherent_def)

context engine
begin

lemma deploy_step_ok:
  assumes step: "deploy_step en i d d'" and i: "i < n" and apart: "tenants_apart n en"
    and runs: "\<And>j. j < n \<Longrightarrow> runs_on (en j) ops cops" and ok: "deploy_ok okay absf fit holds n en d"
  shows "deploy_ok okay absf fit holds n en d'"
    and "j < n \<Longrightarrow> j \<noteq> i \<Longrightarrow> untouched (en_tenant (en j)) (absf (dp_store d)) (absf (dp_store d'))"
proof -
  from step obtain st' where st': "enforcer_step (en i) (instance_of d i) st'"
    and d': "d' = d\<lparr>dp_store := st_store st', dp_local := (dp_local d)(i := st')\<rparr>"
    by (rule deploy_stepE)
  have good_i: "good (en i) okay absf fit holds (instance_of d i)"
    and sep: "\<And>j. j < n \<Longrightarrow> separated (en_tenant (en j)) (absf (dp_store d))"
    using ok i unfolding deploy_ok_def by blast+
  from enforcer_step_confined [OF st' runs [OF i] good_i]
  have new: "good (en i) okay absf fit holds st'"
    and change: "policy_change (en_tenant (en i)) (absf (dp_store d)) (absf (st_store st'))"
    by (simp_all add: instance_of_def)
  have un: "untouched (en_tenant (en j)) (absf (dp_store d)) (absf (st_store st'))" if "j < n" "j \<noteq> i" for j
    using change apart sep [OF that(1)] i that unfolding tenants_apart_def policy_change_def by metis
  have "good (en j) okay absf fit holds (instance_of d' j) \<and> separated (en_tenant (en j)) (absf (dp_store d'))"
    if j: "j < n" for j
  proof (cases "j = i")
    case True
    have "separated (en_tenant (en i)) (absf (st_store st'))"
      using change sep [OF i] unfolding policy_change_def by blast
    with True new show ?thesis by (simp add: d' instance_of_def)
  next
    case False
    have "good (en j) okay absf fit holds (instance_of d j)" using ok j unfolding deploy_ok_def by blast
    moreover have coh: "coherent (en j) holds (absf (st_store st')) c \<longleftrightarrow> coherent (en j) holds (absf (dp_store d)) c" for c
      by (rule coherent_cong) (rule untouched_entitled [OF un [OF j False] sep [OF j] own_keys(2)])
    ultimately have "okay (st_store st')" "fit (st_cache (instance_of d j))"
      "en_cache (en j) \<noteq> None \<longrightarrow> coherent (en j) holds (absf (st_store st')) (st_cache (instance_of d j))"
      using new coh by (simp_all add: good_def instance_of_def)
    with untouched_separated [OF un [OF j False] sep [OF j]] False show ?thesis
      by (simp add: d' instance_of_def good_def)
  qed
  then show "deploy_ok okay absf fit holds n en d'" by (simp add: deploy_ok_def)
  show "j < n \<Longrightarrow> j \<noteq> i \<Longrightarrow> untouched (en_tenant (en j)) (absf (dp_store d)) (absf (dp_store d'))"
    using un by (simp add: d')
qed

text \<open>The decisions of Enforcer \<open>j\<close> are the same before and after a call of Enforcer \<open>i\<close>.\<close>

lemma deploy_step_decision:
  assumes "deploy_step en i d d'" and "i < n" and "tenants_apart n en"
    and "\<And>j. j < n \<Longrightarrow> runs_on (en j) ops cops" and ok: "deploy_ok okay absf fit holds n en d"
    and j: "j < n" "j \<noteq> i"
  shows "may (en j) (absf (dp_store d')) u = may (en j) (absf (dp_store d)) u"
    and "decision (en j) (absf (dp_store d')) u = decision (en j) (absf (dp_store d)) u"
proof -
  have un: "untouched (en_tenant (en j)) (absf (dp_store d)) (absf (dp_store d'))"
    using deploy_step_ok(2) [OF assms(1-5)] j by blast
  have sep: "separated (en_tenant (en j)) (absf (dp_store d))"
    using ok j unfolding deploy_ok_def by blast
  show "may (en j) (absf (dp_store d')) u = may (en j) (absf (dp_store d)) u"
    and "decision (en j) (absf (dp_store d')) u = decision (en j) (absf (dp_store d)) u"
    using untouched_decision [OF un sep] by blast+
qed

end

text \<open>Runs of a deployment over the memory store, from empty.\<close>

definition deploy_start :: "(mem, lru, 'x) deployment \<Rightarrow> bool" where
  "deploy_start d \<longleftrightarrow>
     dp_store d = NewMemoryStore \<and> (\<forall>i. \<exists>capacity ttl. st_cache (dp_local d i) = NewMemoryLRU capacity ttl)"

inductive deploy_run ::
  "nat \<Rightarrow> (nat \<Rightarrow> (mem, lru, 'x) enforcer) \<Rightarrow> (mem, lru, 'x) deployment \<Rightarrow> bool" for n en where
  start: "deploy_start d \<Longrightarrow> deploy_run n en d"
| call: "deploy_run n en d \<Longrightarrow> i < n \<Longrightarrow> deploy_step en i d d' \<Longrightarrow> deploy_run n en d'"

lemma empty_separated: "separated t (mem_abs NewMemoryStore)"
  by (simp add: separated_def NewMemoryStore_abs ab_parent_def)

lemma deploy_run_ok:
  assumes "deploy_run n en d" and "tenants_apart n en" and "\<And>j. j < n \<Longrightarrow> runs_on (en j) mem_ops lru_ops"
  shows "deploy_ok mem_ok mem_abs lru_ok lru_holds n en d"
  using assms(1)
proof induction
  case (start d)
  then have "st_cache (dp_local d i) = NewMemoryLRU capacity ttl \<Longrightarrow>
      good (en i) mem_ok mem_abs lru_ok lru_holds (instance_of d i)" for i capacity ttl
    by (simp add: good_def instance_of_def deploy_start_def NewMemoryStore_ok NewMemoryLRU_ok coherent_def)
  with start show ?case
    unfolding deploy_ok_def deploy_start_def using empty_separated by metis
next
  case (call d i d')
  then show ?case using embedded.deploy_step_ok(1) [OF _ _ assms(2,3)] by blast
qed

text \<open>One Enforcer alone is a deployment of one.\<close>

inductive local_run :: "(mem, lru, 'x) enforcer \<Rightarrow> (mem, lru, 'x) state \<Rightarrow> bool" for e where
  start: "st_store st = NewMemoryStore \<Longrightarrow> st_cache st = NewMemoryLRU capacity ttl \<Longrightarrow> local_run e st"
| call: "local_run e st \<Longrightarrow> enforcer_step e st st' \<Longrightarrow> local_run e st'"

lemma local_run_good:
  assumes "local_run e st" and "runs_on e mem_ops lru_ops"
  shows "good e mem_ok mem_abs lru_ok lru_holds st"
  using assms(1)
proof induction
  case (start st capacity ttl)
  then show ?case
    by (simp add: good_def NewMemoryStore_ok NewMemoryLRU_ok coherent_def)
next
  case (call st st')
  then show ?case using embedded.enforcer_step_confined [OF _ assms(2)] by blast
qed

lemma local_run_separated:
  assumes "local_run e st" and e: "runs_on e mem_ops lru_ops"
  shows "separated (en_tenant e) (mem_abs (st_store st))"
  using assms(1)
proof induction
  case (start st capacity ttl)
  then show ?case by (simp add: empty_separated)
next
  case (call st st')
  then have "policy_change (en_tenant e) (mem_abs (st_store st)) (mem_abs (st_store st'))"
    using embedded.enforcer_step_confined [OF _ e local_run_good [OF _ e]] by blast
  with call.IH show ?case by (simp add: policy_change_def)
qed

end
