(* ===== verification/Scenario.thy ===== *)
theory Scenario
  imports Deployment
begin

text \<open>
  A small deployment on which the properties are evaluated: tenant \<^verbatim>\<open>acme\<close> over the memory store
  with an LRU cache, wildcards and policy rules on, three roles, two users and one deny rule.
\<close>

type_synonym local_enforcer = "(mem, lru, unit) enforcer"
type_synonym local_state = "(mem, lru, unit) state"

definition no_metrics :: metrics where
  "no_metrics = \<lparr>mt_decisions = 0, mt_allowed = 0, mt_denied = 0, mt_errors = 0, mt_cacheHits = 0,
     mt_cacheMisses = 0, mt_mutations = 0, mt_auditErrors = 0, mt_invalidationErrors = 0,
     mt_policyVersionErrors = 0, mt_decisionNanoseconds = 0\<rparr>"

definition acme :: local_enforcer where
  "acme = \<lparr>en_store = mem_ops, en_cache = Some lru_ops, en_logger = True, en_metrics = True,
     en_audit = None, en_wildcards = True, en_rulesEnabled = True, en_tenant = ''acme'',
     en_manageRes = ''roles'', en_manageAct = ''manage'', en_policySource = None, en_publish = None\<rparr>"

definition fresh_state :: local_state where
  "fresh_state = \<lparr>st_store = NewMemoryStore, st_cache = NewMemoryLRU 1024 five_minutes, st_ext = (),
     st_cacheGeneration = 0, st_policyVersion = 0, st_subscribed = False, st_shutdown = False,
     st_metrics = no_metrics, st_log = []\<rparr>"

definition a_role :: "string \<Rightarrow> (string \<times> string) list \<Rightarrow> string list \<Rightarrow> role" where
  "a_role n ps parents = \<lparr>role_Name = n,
     role_Permissions = map (\<lambda>(r, a). \<lparr>perm_Resource = r, perm_Action = a\<rparr>) ps, role_Parents = parents\<rparr>"

definition viewer :: role where "viewer = a_role ''viewer'' [(''doc'', ''read'')] []"
definition editor :: role where "editor = a_role ''editor'' [(''doc'', ''edit:self'')] [''viewer'']"
definition admin :: role where "admin = a_role ''admin'' [(''roles'', ''manage'')] [''editor'']"

definition after_hours :: policy_rule where
  "after_hours = \<lparr>rule_Effect = EffectDeny, rule_Resource = ''doc'', rule_Action = ''*'',
     rule_Conditions = [\<lparr>cond_Attribute = ''environment.hour'', cond_Operator = ''gt'',
       cond_Value = GVal (JNum ''18''), cond_OtherAttribute = []\<rparr>]\<rparr>"

definition run_all :: "(local_state \<Rightarrow> local_state \<times> err option) list \<Rightarrow> local_state \<Rightarrow> local_state" where
  "run_all fs st = fold (\<lambda>f st. fst (f st)) fs st"

definition acme_state :: local_state where
  "acme_state = run_all
     [RegisterRole acme background viewer, RegisterRole acme background editor,
      RegisterRole acme background admin, AssignRole acme background ''alice'' ''admin'',
      AssignRole acme background ''bob'' ''editor'',
      SetRoleRules acme background ''alice'' ''viewer'' [after_hours]] fresh_state"

definition at_hour :: "string \<Rightarrow> ctx" where
  "at_hour h = WithAttributes background (fmupd ''environment.hour'' (GVal (JNum h)) fmempty)"

lemma at_hour_ctx [simp]: "cx_Err (at_hour h) = None" "fair_range (at_hour h)"
  using fair_background by (simp_all add: at_hour_def WithAttributes_def fair_range_def)

lemma acme_runs [simp]: "runs_on acme mem_ops lru_ops" "en_audit acme = None"
  by (simp_all add: runs_on_def acme_def)

lemma run_all_local:
  assumes "\<And>f st. f \<in> set fs \<Longrightarrow> enforcer_step e st (fst (f st))" and "local_run e st"
  shows "local_run e (run_all fs st)"
  using assms
proof (induction fs arbitrary: st)
  case Nil
  then show ?case by (simp add: run_all_def)
next
  case (Cons f fs)
  then have "local_run e (fst (f st))" by (meson list.set_intros(1) local_run.call)
  with Cons show ?case by (simp add: run_all_def)
qed

lemma fresh_run: "local_run e fresh_state"
  by (rule local_run.start) (simp_all add: fresh_state_def)

lemma acme_run: "local_run acme acme_state"
  unfolding acme_state_def
  by (rule run_all_local [OF _ fresh_run]) (auto intro: enforcer_step.intros fair_background)

lemma acme_up [simp]: "\<not> st_shutdown acme_state"
  by code_simp

text \<open>A batch that gives bob a new role and takes the old one.\<close>

definition move_bob :: policy_batch where
  "move_bob = \<lparr>pb_Register = [a_role ''auditor'' [(''log'', ''read'')] []], pb_Update = [],
     pb_RuleUpdates = fmempty, pb_MetadataUpdates = fmempty,
     pb_Unassign = [\<lparr>ra_UserID = ''bob'', ra_RoleName = ''editor''\<rparr>],
     pb_Assign = [\<lparr>ra_UserID = ''bob'', ra_RoleName = ''auditor''\<rparr>], pb_Delete = []\<rparr>"

end
