(* ===== verification/Coherence.thy ===== *)
theory Coherence
  imports Scenario
begin

text \<open>
  One Enforcer used by many goroutines at once. \<^verbatim>\<open>permissionsFor\<close> is not atomic: it reads the
  cache generation, asks the cache, takes a token, reads the user's roles and every role of the
  hierarchy one by one, and only then fills the cache; a mutation writes the store first and
  invalidates the cache later. Here these sections interleave freely (\<open>coherence_step\<close>), with the
  sections themselves as the functions of the Enforcer.

  The reads of one traversal see the store at different times. If a write that concerns the user
  falls among them, the traversal may return anything: it is marked \<open>torn\<close> and its result is left
  arbitrary, which covers every mixture of old and new roles. A write of another user's assignments
  changes nothing that this traversal reads.
\<close>

subsection \<open>Readers, writers and their interleaving\<close>

datatype invalidation = FlushAll | DropUser string

fun covers :: "invalidation \<Rightarrow> string \<Rightarrow> bool" where
  "covers FlushAll _ = True"
| "covers (DropUser u) v = (u = v)"

text \<open>A call of \<^verbatim>\<open>permissionsFor\<close> by the section it has finished.\<close>

datatype reader =
    Generated string "64 word"
  | Missed string "64 word"
  | Loading string "64 word" "string option" bool
  | Loaded string "64 word" "string option" permissionSet
  | Answered string permissionSet
  | Failed

record ('s, 'c, 'x) concurrent =
  cn_state :: "('s, 'c, 'x) state"
  cn_readers :: "reader list"
  cn_pending :: "invalidation list"
  cn_rounds :: nat

fun tear :: "invalidation option \<Rightarrow> reader \<Rightarrow> reader" where
  "tear (Some iv) (Loading u g t torn) = Loading u g t (torn \<or> covers iv u)"
| "tear _ r = r"

text \<open>The store operations of the mutations, with the invalidation that follows each of them.\<close>

inductive store_op :: "('s, 'c, 'x) enforcer \<Rightarrow> 's mutation \<Rightarrow> invalidation option \<Rightarrow> bool" for e where
  "store_op e (so_AddRole (en_store e) cx r) (Some FlushAll)"
| "so_UpdateRole (en_store e) = Some upd \<Longrightarrow> store_op e (upd cx r) (Some FlushAll)"
| "so_DeleteRole (en_store e) = Some del \<Longrightarrow> store_op e (del cx n) (Some FlushAll)"
| "so_ApplyPolicyBatch (en_store e) = Some batch \<Longrightarrow> fair_range cx \<Longrightarrow> store_op e (batch cx b) (Some FlushAll)"
| "so_RuleStore (en_store e) = Some rules \<Longrightarrow> store_op e (rs_SetRoleRules rules cx n rs) (Some FlushAll)"
| "store_op e (so_AssignRole (en_store e) cx (userKey e u) n) (Some (DropUser u))"
| "so_UnassignRole (en_store e) = Some unas \<Longrightarrow> store_op e (unas cx (userKey e u) n) (Some (DropUser u))"
| "so_MetadataStore (en_store e) = Some meta \<Longrightarrow> store_op e (md_SetRoleMetadata meta cx n m) None"

definition invalidate :: "('s, 'c, 'x) enforcer \<Rightarrow> ctx \<Rightarrow> invalidation \<Rightarrow> ('s, 'c, 'x) state \<Rightarrow> ('s, 'c, 'x) state" where
  "invalidate e cx iv st = (case iv of FlushAll \<Rightarrow> flushCache e cx st | DropUser u \<Rightarrow> dropCache e cx u st)"

abbreviation set_reader :: "nat \<Rightarrow> reader \<Rightarrow> ('s, 'c, 'x) state \<Rightarrow> ('s, 'c, 'x) concurrent \<Rightarrow> ('s, 'c, 'x) concurrent" where
  "set_reader i r st c \<equiv> c\<lparr>cn_state := st, cn_readers := (cn_readers c)[i := r]\<rparr>"

inductive coherence_step ::
  "('s, 'c, 'x) enforcer \<Rightarrow> ('s, 'c, 'x) concurrent \<Rightarrow> ('s, 'c, 'x) concurrent \<Rightarrow> bool" for e c where
  entered: "coherence_step e c (c\<lparr>cn_readers := cn_readers c @ [Generated u (st_cacheGeneration (cn_state c))]\<rparr>)"
| hits: "i < length (cn_readers c) \<Longrightarrow> cn_readers c ! i = Generated u g \<Longrightarrow>
    cacheLookup e cx u (cn_state c) = (st, Some ps) \<Longrightarrow> coherence_step e c (set_reader i (Answered u ps) st c)"
| misses: "i < length (cn_readers c) \<Longrightarrow> cn_readers c ! i = Generated u g \<Longrightarrow>
    cacheLookup e cx u (cn_state c) = (st, None) \<Longrightarrow> coherence_step e c (set_reader i (Missed u g) st c)"
| took_token: "i < length (cn_readers c) \<Longrightarrow> cn_readers c ! i = Missed u g \<Longrightarrow>
    cacheToken e cx u (cn_state c) = (st, t) \<Longrightarrow> coherence_step e c (set_reader i (Loading u g t False) st c)"
| loaded: "i < length (cn_readers c) \<Longrightarrow> cn_readers c ! i = Loading u g t torn \<Longrightarrow>
    torn \<or> loadPermissions e cx u (st_store (cn_state c)) = Inr ps \<Longrightarrow>
    coherence_step e c (set_reader i (Loaded u g t ps) (cn_state c) c)"
| failed: "i < length (cn_readers c) \<Longrightarrow> cn_readers c ! i = Loading u g t torn \<Longrightarrow>
    coherence_step e c (set_reader i Failed (cn_state c) c)"
| filled: "i < length (cn_readers c) \<Longrightarrow> cn_readers c ! i = Loaded u g t ps \<Longrightarrow>
    coherence_step e c (set_reader i (Answered u ps) (cacheFill e cx u ps g t (cn_state c)) c)"
| stored: "store_op e f iv \<Longrightarrow> f (st_store (cn_state c)) = (s, None) \<Longrightarrow>
    coherence_step e c (c\<lparr>cn_state := (cn_state c)\<lparr>st_store := s\<rparr>, cn_readers := map (tear iv) (cn_readers c),
      cn_pending := cn_pending c @ (case iv of None \<Rightarrow> [] | Some p \<Rightarrow> [p])\<rparr>)"
| rejected: "store_op e f iv \<Longrightarrow> f (st_store (cn_state c)) = (s, Some er) \<Longrightarrow>
    coherence_step e c (c\<lparr>cn_state := (cn_state c)\<lparr>st_store := s\<rparr>\<rparr>)"
| invalidated: "cn_pending c = ps @ p # qs \<Longrightarrow>
    coherence_step e c (c\<lparr>cn_state := invalidate e cx p (cn_state c), cn_pending := ps @ qs, cn_rounds := cn_rounds c + 1\<rparr>)"
| flush_event: "coherence_step e c (c\<lparr>cn_state := flushCache e cx (cn_state c), cn_rounds := cn_rounds c + 1\<rparr>)"
| drop_event: "coherence_step e c (c\<lparr>cn_state := dropCacheKey e cx k (cn_state c), cn_rounds := cn_rounds c + 1\<rparr>)"

subsection \<open>The invariant\<close>

definition agrees :: "('s, 'c, 'x) enforcer \<Rightarrow> rbac \<Rightarrow> string \<Rightarrow> permissionSet \<Rightarrow> bool" where
  "agrees e A u ps \<longleftrightarrow> (\<forall>r a. ps_get ps r a \<longleftrightarrow> entitled A (userKey e u) r a)"

definition awaited :: "invalidation list \<Rightarrow> string \<Rightarrow> bool" where
  "awaited pending u \<longleftrightarrow> (\<exists>p \<in> set pending. covers p u)"

definition reader_ok :: "('s, 'c, 'x) enforcer \<Rightarrow> rbac \<Rightarrow> invalidation list \<Rightarrow> nat \<Rightarrow> reader \<Rightarrow> bool" where
  "reader_ok e A pending rounds r \<longleftrightarrow>
     (case r of
        Generated u g \<Rightarrow> \<exists>k \<le> rounds. g = of_nat k
      | Missed u g \<Rightarrow> \<exists>k \<le> rounds. g = of_nat k
      | Loading u g t torn \<Rightarrow> \<exists>k \<le> rounds. g = of_nat k \<and> (k = rounds \<and> torn \<longrightarrow> awaited pending u)
      | Loaded u g t ps \<Rightarrow> \<exists>k \<le> rounds. g = of_nat k \<and> (k = rounds \<longrightarrow> agrees e A u ps \<or> awaited pending u)
      | _ \<Rightarrow> True)"

definition interleaved_ok ::
  "('s, 'c, 'x) enforcer \<Rightarrow> ('s \<Rightarrow> bool) \<Rightarrow> ('s \<Rightarrow> rbac) \<Rightarrow> ('c \<Rightarrow> bool) \<Rightarrow> ('c \<Rightarrow> string \<Rightarrow> cache_value \<Rightarrow> bool) \<Rightarrow>
     ('s, 'c, 'x) concurrent \<Rightarrow> bool" where
  "interleaved_ok e okay absf fit holds c \<longleftrightarrow>
     okay (st_store (cn_state c)) \<and> fit (st_cache (cn_state c)) \<and>
     st_cacheGeneration (cn_state c) = of_nat (cn_rounds c) \<and>
     (\<forall>u ps. holds (st_cache (cn_state c)) (cacheKey e u) (Permissions ps) \<longrightarrow>
        agrees e (absf (st_store (cn_state c))) u ps \<or> awaited (cn_pending c) u) \<and>
     (\<forall>r \<in> set (cn_readers c). reader_ok e (absf (st_store (cn_state c))) (cn_pending c) (cn_rounds c) r)"

lemma interleaved_okD:
  assumes "interleaved_ok e okay absf fit holds c"
  shows "okay (st_store (cn_state c))" "fit (st_cache (cn_state c))"
    "st_cacheGeneration (cn_state c) = of_nat (cn_rounds c)"
    "holds (st_cache (cn_state c)) (cacheKey e u) (Permissions ps) \<Longrightarrow>
      agrees e (absf (st_store (cn_state c))) u ps \<or> awaited (cn_pending c) u"
    "i < length (cn_readers c) \<Longrightarrow> reader_ok e (absf (st_store (cn_state c))) (cn_pending c) (cn_rounds c) (cn_readers c ! i)"
  using assms by (auto simp: interleaved_ok_def)

lemma of_nat_rounds:
  assumes "k \<le> n" and "n < 2 ^ 64" and "(of_nat k :: 64 word) = of_nat n"
  shows "k = n"
proof -
  have "k mod 2 ^ 64 = n mod 2 ^ 64"
    using assms(3) by (simp add: word_of_nat_eq_iff take_bit_eq_mod)
  with assms(1,2) show ?thesis by simp
qed

text \<open>After one more round every earlier generation is outdated.\<close>

lemma reader_outdated:
  assumes "reader_ok e A pending n r"
  shows "reader_ok e A pending' (Suc n) r"
proof -
  have "\<exists>k \<le> Suc n. g = of_nat k \<and> (k = Suc n \<longrightarrow> Q)" if "\<exists>k \<le> n. g = of_nat k \<and> P k" for g :: "64 word" and P Q
    using that by (metis Suc_n_not_le_n le_SucI)
  with assms show ?thesis by (cases r) (auto simp: reader_ok_def intro: le_SucI)
qed

text \<open>A step of one reader that only narrows the cache.\<close>

lemma set_reader_ok:
  assumes c: "interleaved_ok e okay absf fit holds c"
    and "st_store st = st_store (cn_state c)" and "fit (st_cache st)"
    and "st_cacheGeneration st = st_cacheGeneration (cn_state c)"
    and "\<And>u ps. holds (st_cache st) (cacheKey e u) (Permissions ps) \<Longrightarrow>
      holds (st_cache (cn_state c)) (cacheKey e u) (Permissions ps) \<or>
      agrees e (absf (st_store (cn_state c))) u ps \<or> awaited (cn_pending c) u"
    and "reader_ok e (absf (st_store (cn_state c))) (cn_pending c) (cn_rounds c) r"
  shows "interleaved_ok e okay absf fit holds (set_reader i r st c)"
  using assms set_update_subset_insert [of "cn_readers c" i r] by (fastforce simp: interleaved_ok_def)

context engine
begin

lemma lookup_narrows:
  assumes e: "en_cache e = Some cops" and fit: "fit (st_cache st)" and run: "cacheLookup e cx u st = (st', res)"
  shows "st_store st' = st_store st" "st_cacheGeneration st' = st_cacheGeneration st" "fit (st_cache st')"
    "holds (st_cache st') k v \<Longrightarrow> holds (st_cache st) k v"
    "res = Some ps \<Longrightarrow> holds (st_cache st) (cacheKey e u) (Permissions ps)"
proof -
  obtain c' found where get: "ca_Get cops cx (cacheKey e u) (st_cache st) = (c', found)" by force
  have c': "fit c'" "holds c' k v \<Longrightarrow> holds (st_cache st) k v" for k v
    using keeps_fit(1) [OF fit, of cx "cacheKey e u"] get_old [OF fit, of cx "cacheKey e u" k v] get by auto
  have held: "found = Some v \<Longrightarrow> holds (st_cache st) (cacheKey e u) v" for v
    using get_held [OF fit] get by blast
  from run e get have "st_store st' = st_store st \<and> st_cacheGeneration st' = st_cacheGeneration st \<and> st_cache st' = c' \<and>
      (\<forall>ps. res = Some ps \<longrightarrow> found = Some (Permissions ps))"
    by (auto simp: cacheLookup_def Let_def metric_def split: option.splits cache_value.splits if_splits)
  with c' held show "st_store st' = st_store st" "st_cacheGeneration st' = st_cacheGeneration st" "fit (st_cache st')"
    "holds (st_cache st') k v \<Longrightarrow> holds (st_cache st) k v"
    "res = Some ps \<Longrightarrow> holds (st_cache st) (cacheKey e u) (Permissions ps)" by auto
qed

lemma token_narrows:
  assumes e: "en_cache e = Some cops" and fit: "fit (st_cache st)" and run: "cacheToken e cx u st = (st', t)"
  shows "st_store st' = st_store st" "st_cacheGeneration st' = st_cacheGeneration st" "fit (st_cache st')"
    "holds (st_cache st') k v \<Longrightarrow> holds (st_cache st) k v"
proof -
  have "st_store st' = st_store st \<and> st_cacheGeneration st' = st_cacheGeneration st \<and> fit (st_cache st') \<and>
      (holds (st_cache st') k v \<longrightarrow> holds (st_cache st) k v)"
  proof (cases "ca_Generations cops")
    case None
    with run e fit show ?thesis by (auto simp: cacheToken_def generations_of_def)
  next
    case (Some g)
    obtain c' t' where gen: "cg_Generation g cx (cacheKey e u) (st_cache st) = (c', t')" by force
    with run e Some keeps_fit(6) [OF fit Some, of cx "cacheKey e u"] token_old [OF fit Some, of cx "cacheKey e u" k v]
    show ?thesis by (auto simp: cacheToken_def generations_of_def)
  qed
  then show "st_store st' = st_store st" "st_cacheGeneration st' = st_cacheGeneration st" "fit (st_cache st')"
    "holds (st_cache st') k v \<Longrightarrow> holds (st_cache st) k v" by auto
qed

lemma fill_adds:
  assumes e: "en_cache e = Some cops" and fit: "fit (st_cache st)"
  shows "st_store (cacheFill e cx u ps g t st) = st_store st"
    "st_cacheGeneration (cacheFill e cx u ps g t st) = st_cacheGeneration st"
    "fit (st_cache (cacheFill e cx u ps g t st))"
    "holds (st_cache (cacheFill e cx u ps g t st)) k v \<Longrightarrow>
      holds (st_cache st) k v \<or> g = st_cacheGeneration st \<and> k = cacheKey e u \<and> v = Permissions ps"
proof -
  let ?st = "cacheFill e cx u ps g t st"
  have "st_store ?st = st_store st \<and> st_cacheGeneration ?st = st_cacheGeneration st \<and> fit (st_cache ?st) \<and>
      (holds (st_cache ?st) k v \<longrightarrow> holds (st_cache st) k v \<or> g = st_cacheGeneration st \<and> k = cacheKey e u \<and> v = Permissions ps)"
  proof (cases "g = st_cacheGeneration st")
    case False
    with e fit show ?thesis by (simp add: cacheFill_def)
  next
    case True
    show ?thesis
    proof (cases "ca_Generations cops")
      case None
      with True e keeps_fit(2) [OF fit, of cx "cacheKey e u" "Permissions ps"]
        set_old [OF fit, of cx "cacheKey e u" ps k v]
      show ?thesis by (auto simp: cacheFill_def split: if_splits)
    next
      case (Some gs)
      show ?thesis
      proof (cases t)
        case None
        with True e Some fit show ?thesis by (simp add: cacheFill_def)
      next
        case (Some t')
        with True e \<open>ca_Generations cops = Some gs\<close> keeps_fit(7) [OF fit \<open>ca_Generations cops = Some gs\<close>]
          set_if_old [OF fit \<open>ca_Generations cops = Some gs\<close>, of cx "cacheKey e u" ps t' k v]
        show ?thesis by (auto simp: cacheFill_def)
      qed
    qed
  qed
  then show "st_store ?st = st_store st" "st_cacheGeneration ?st = st_cacheGeneration st" "fit (st_cache ?st)"
    "holds (st_cache ?st) k v \<Longrightarrow>
      holds (st_cache st) k v \<or> g = st_cacheGeneration st \<and> k = cacheKey e u \<and> v = Permissions ps"
    by blast+
qed

lemma flush_clears:
  assumes e: "en_cache e = Some cops" and fit: "fit (st_cache st)"
  shows "st_store (flushCache e cx st) = st_store st"
    "st_cacheGeneration (flushCache e cx st) = st_cacheGeneration st + 1"
    "fit (st_cache (flushCache e cx st))" "\<not> holds (st_cache (flushCache e cx st)) k v"
proof -
  let ?st = "flushCache e cx st"
  have "st_store ?st = st_store st \<and> st_cacheGeneration ?st = st_cacheGeneration st + 1 \<and> fit (st_cache ?st) \<and>
      \<not> holds (st_cache ?st) k v"
  proof (cases "ca_FlushContext cops")
    case None
    with e flush_all [OF fit, of cx k v] keeps_fit(4) [OF fit, of cx] show ?thesis
      by (simp add: flushCache_def Let_def)
  next
    case (Some f)
    obtain c' er where run: "f (st_cache st) = (c', er)" by force
    with flush_context [OF fit Some, of k v] keeps_fit(5) [OF fit Some] have "fit c'" "\<not> holds c' k v" by auto
    with e Some run show ?thesis
      by (cases er) (auto simp: flushCache_def Let_def logError_def metric_def)
  qed
  then show "st_store ?st = st_store st" "st_cacheGeneration ?st = st_cacheGeneration st + 1" "fit (st_cache ?st)"
    "\<not> holds (st_cache ?st) k v" by blast+
qed

lemma drop_clears:
  assumes e: "en_cache e = Some cops" and fit: "fit (st_cache st)"
  shows "st_store (dropCacheKey e cx key st) = st_store st"
    "st_cacheGeneration (dropCacheKey e cx key st) = st_cacheGeneration st + 1"
    "fit (st_cache (dropCacheKey e cx key st))"
    "holds (st_cache (dropCacheKey e cx key st)) k v \<Longrightarrow> k \<noteq> key \<and> holds (st_cache st) k v"
  using e keeps_fit(3) [OF fit, of cx key] delete_old [OF fit, of cx key k v] by (auto simp: dropCacheKey_def Let_def)

lemma store_op_effect:
  assumes f: "store_op e f iv" and e: "en_store e = ops" and s: "okay s"
  shows "okay (fst (f s))"
    and "snd (f s) \<noteq> None \<Longrightarrow> absf (fst (f s)) = absf s"
    and "iv = None \<or> \<not> covers (the iv) u \<Longrightarrow> entitled (absf (fst (f s))) (userKey e u) = entitled (absf s) (userKey e u)"
proof -
  let ?same = "\<lambda>A. iv = None \<or> \<not> covers (the iv) u \<longrightarrow> entitled A (userKey e u) = entitled (absf s) (userKey e u)"
  let ?goal = "okay (fst (f s)) \<and> (snd (f s) \<noteq> None \<longrightarrow> absf (fst (f s)) = absf s) \<and> ?same (absf (fst (f s)))"
  have effect: ?goal if "performs okay absf f s out" and "\<And>A. out = Inr A \<Longrightarrow> ?same A" for out
    using that by (cases "snd (f s)") (auto simp: performs_def)
  have ?goal
    using f
  proof cases
    case (1 cx r)
    show ?thesis by (rule effect [OF add_role [OF s, of cx r, folded e, folded 1(1)]]) (simp add: 1)
  next
    case (2 upd' cx r)
    then have "upd' = upd" using e interfaces by simp
    with update_role [OF s, of cx r] 2 show ?thesis by (intro effect) auto
  next
    case (3 del' cx n)
    then have "del' = del" using e interfaces by simp
    with delete_role [OF s, of cx n] 3 show ?thesis by (intro effect) auto
  next
    case (4 batch' cx b)
    then have "batch' = batch" using e interfaces by simp
    with apply_batch [OF s \<open>fair_range cx\<close>, of b] 4 show ?thesis by (intro effect) auto
  next
    case (5 rules' cx n rs)
    then have "rules' = rules" using e interfaces by simp
    with set_rules [OF s, of cx n rs] 5 show ?thesis by (intro effect) auto
  next
    case (6 cx v n)
    show ?thesis
      by (rule effect [OF assign_role [OF s, of cx "userKey e v" n, folded e, folded 6(1)]])
        (auto simp: 6 dest!: spec_AssignRole_others [where k' = "userKey e u"])
  next
    case (7 unas' cx v n)
    then have "unas' = unas" using e interfaces by simp
    with unassign_role [OF s, of cx "userKey e v" n] 7 show ?thesis
      by (intro effect) (auto dest!: spec_UnassignRole_others [where k' = "userKey e u"])
  next
    case (8 meta' cx n m)
    then have "meta' = meta" using e interfaces by simp
    with set_meta [OF s, of cx n m] 8 show ?thesis
      by (intro effect) (auto dest!: spec_SetRoleMetadata_entitled)
  qed
  then show "okay (fst (f s))" "snd (f s) \<noteq> None \<Longrightarrow> absf (fst (f s)) = absf s"
    "iv = None \<or> \<not> covers (the iv) u \<Longrightarrow> entitled (absf (fst (f s))) (userKey e u) = entitled (absf s) (userKey e u)"
    by blast+
qed

text \<open>Every step keeps the invariant, as long as the generation counter has not been once around.\<close>

lemma coherence_step_ok:
  assumes step: "coherence_step e c c'" and c: "interleaved_ok e okay absf fit holds c"
    and e: "en_store e = ops" "en_cache e = Some cops" and rounds: "cn_rounds c < 2 ^ 64"
  shows "interleaved_ok e okay absf fit holds c'"
proof -
  let ?A = "absf (st_store (cn_state c))"
  note ok = interleaved_okD [OF c]
  have old: "reader_ok e ?A pending (Suc (cn_rounds c)) r" if "r \<in> set (cn_readers c)" for r pending
    using c that by (auto simp: interleaved_ok_def intro: reader_outdated)
  show ?thesis
    using step
  proof cases
    case (entered u)
    have "\<exists>k \<le> cn_rounds c. st_cacheGeneration (cn_state c) = of_nat k" using ok(3) by blast
    with entered c show ?thesis by (auto simp: interleaved_ok_def reader_ok_def)
  next
    case (hits i u g cx st ps)
    note n = lookup_narrows [OF e(2) ok(2) hits(4)]
    show ?thesis unfolding hits(1)
      by (rule set_reader_ok [OF c n(1,3,2)]) (use n(4) ok(4) in \<open>auto simp: reader_ok_def\<close>)
  next
    case (misses i u g cx st)
    note n = lookup_narrows [OF e(2) ok(2) misses(4)]
    show ?thesis unfolding misses(1)
      by (rule set_reader_ok [OF c n(1,3,2)]) (use n(4) ok(5) [OF misses(2)] misses(3) in \<open>auto simp: reader_ok_def\<close>)
  next
    case (took_token i u g cx st t)
    note n = token_narrows [OF e(2) ok(2) took_token(4)]
    show ?thesis unfolding took_token(1)
      by (rule set_reader_ok [OF c n(1,3,2)]) (use n(4) ok(5) [OF took_token(2)] took_token(3) in \<open>auto simp: reader_ok_def\<close>)
  next
    case (loaded i u g t torn cx ps)
    have "agrees e ?A u ps" if "loadPermissions e cx u (st_store (cn_state c)) = Inr ps"
      using loadPermissions_entitled [OF e(1) ok(1) that] by (simp add: agrees_def)
    with loaded(4) ok(5) [OF loaded(2)] loaded(3)
    have "reader_ok e ?A (cn_pending c) (cn_rounds c) (Loaded u g t ps)" by (auto simp: reader_ok_def)
    then show ?thesis unfolding loaded(1) by (intro set_reader_ok [OF c]) (use ok in auto)
  next
    case (failed i u g t torn)
    show ?thesis unfolding failed(1)
      by (rule set_reader_ok [OF c]) (use ok in \<open>auto simp: reader_ok_def\<close>)
  next
    case (filled i u g t ps cx)
    note f = fill_adds [OF e(2) ok(2), of cx u ps g t]
    obtain k where k: "k \<le> cn_rounds c" "g = of_nat k" "k = cn_rounds c \<Longrightarrow> agrees e ?A u ps \<or> awaited (cn_pending c) u"
      using ok(5) [OF filled(2)] filled(3) by (auto simp: reader_ok_def)
    have "k = cn_rounds c" if "g = st_cacheGeneration (cn_state c)"
      using of_nat_rounds [OF k(1) rounds] that k(2) ok(3) by simp
    with k(3) have fresh: "agrees e ?A u ps \<or> awaited (cn_pending c) u" if "g = st_cacheGeneration (cn_state c)"
      using that by blast
    have "holds (st_cache (cn_state c)) (cacheKey e v) (Permissions ps') \<or>
        agrees e ?A v ps' \<or> awaited (cn_pending c) v"
      if "holds (st_cache (cacheFill e cx u ps g t (cn_state c))) (cacheKey e v) (Permissions ps')" for v ps'
      using f(4) [OF that] fresh by auto
    then show ?thesis unfolding filled(1) by (intro set_reader_ok [OF c f(1,3,2)]) (auto simp: reader_ok_def)
  next
    case (stored f iv s)
    let ?new = "case iv of None \<Rightarrow> [] | Some p \<Rightarrow> [p]"
    note eff = store_op_effect [OF stored(2) e(1) ok(1)]
    have s: "s = fst (f (st_store (cn_state c)))" using stored(3) by simp
    have covered: "awaited (cn_pending c @ ?new) u" if "\<not> (iv = None \<or> \<not> covers (the iv) u)" for u
      using that by (auto simp: awaited_def)
    have more: "awaited (cn_pending c @ ?new) u" if "awaited (cn_pending c) u" for u
      using that by (auto simp: awaited_def)
    have keep: "agrees e (absf s) u ps \<or> awaited (cn_pending c @ ?new) u" if "agrees e ?A u ps \<or> awaited (cn_pending c) u" for u ps
      using that eff(3) [of u] covered [of u] more [of u] unfolding s agrees_def by metis
    have reader: "reader_ok e (absf s) (cn_pending c @ ?new) (cn_rounds c) (tear iv r)"
      if "reader_ok e ?A (cn_pending c) (cn_rounds c) r" for r
    proof (cases r)
      case (Loading u g t torn)
      with that obtain k where k: "k \<le> cn_rounds c" "g = of_nat k" "k = cn_rounds c \<and> torn \<longrightarrow> awaited (cn_pending c) u"
        by (auto simp: reader_ok_def)
      with more [of u] covered [of u] Loading show ?thesis by (cases iv) (auto simp: reader_ok_def)
    next
      case (Loaded u g t ps)
      with that keep [of u ps] show ?thesis by (cases iv) (auto simp: reader_ok_def)
    qed (use that in \<open>cases iv; auto simp: reader_ok_def\<close>)+
    show ?thesis
      unfolding stored(1) interleaved_ok_def using ok(2-4) eff(1) [folded s] keep reader ok(5) by (auto simp: in_set_conv_nth)
  next
    case (rejected f iv s er)
    have "absf s = ?A" "okay s" using store_op_effect(1,2) [OF rejected(2) e(1) ok(1)] rejected(3) by simp_all
    with c show ?thesis unfolding rejected(1) by (simp add: interleaved_ok_def)
  next
    case (invalidated ps p qs cx)
    show ?thesis
    proof (cases p)
      case FlushAll
      with flush_clears [OF e(2) ok(2), of cx] ok(1,3) old show ?thesis
        unfolding invalidated(1) by (simp add: interleaved_ok_def invalidate_def)
    next
      case (DropUser v)
      note d = drop_clears [OF e(2) ok(2), of cx "cacheKey e v"]
      have "agrees e ?A u pset \<or> awaited (ps @ qs) u"
        if "holds (st_cache (dropCacheKey e cx (cacheKey e v) (cn_state c))) (cacheKey e u) (Permissions pset)" for u pset
        using d(4) [OF that] ok(4) [of u pset] invalidated(2) DropUser by (auto simp: awaited_def)
      with d(1-3) ok(1,3) old DropUser show ?thesis
        unfolding invalidated(1) by (simp add: interleaved_ok_def invalidate_def dropCache_def)
    qed
  next
    case (flush_event cx)
    with flush_clears [OF e(2) ok(2), of cx] ok(1,3) old show ?thesis by (simp add: interleaved_ok_def)
  next
    case (drop_event cx k)
    with drop_clears [OF e(2) ok(2), of cx k] ok(1,3,4) old show ?thesis by (auto simp: interleaved_ok_def)
  qed
qed

text \<open>
  A decision is exact as soon as a hit of its own lookup would be: a miss reads the store.
\<close>

lemma lookup_decides:
  assumes e: "en_store e = ops" "en_cache e = Some cops" and okay: "okay (st_store st)" and fit: "fit (st_cache st)"
    and hit: "\<And>ps. snd (cacheLookup e cx u st) = Some ps \<Longrightarrow> agrees e (absf (st_store st)) u ps"
    and live: "cx_Err cx = None" and fair: "fair_range cx" and up: "\<not> st_shutdown st" and quiet: "en_audit e = None"
  shows "snd (Enforce e cx u res act st) \<longleftrightarrow>
    decision e (absf (st_store st)) u res act (cx_attrs cx) (may e (absf (st_store st)) u res act)"
proof -
  obtain st1 found where look: "cacheLookup e cx u st = (st1, found)" by force
  note one = lookup_narrows [OF e(2) fit look]
  have "\<exists>st' ps. permissionsFor e cx u st = (st', Inr ps) \<and> st_store st' = st_store st \<and> agrees e (absf (st_store st)) u ps"
  proof (cases found)
    case (Some ps)
    with look hit one(1) up show ?thesis by (auto simp: permissionsFor_def)
  next
    case None
    obtain st2 token where tok: "cacheToken e cx u st1 = (st2, token)" by force
    note two = token_narrows [OF e(2) one(3) tok]
    obtain ps where load: "loadPermissions e cx u (st_store st) = Inr ps"
      using loadPermissions_live [OF e(1) okay, of cx u] live by blast
    have "fit (st_cache st2)" by (rule two(3))
    from fill_adds(1) [OF e(2) this, of cx u ps "st_cacheGeneration st" token] None look tok load up one(1) two(1)
    show ?thesis using loadPermissions_entitled [OF e(1) okay load] by (simp add: permissionsFor_def agrees_def)
  qed
  then obtain st' ps where run: "permissionsFor e cx u st = (st', Inr ps)" "st_store st' = st_store st"
    and ps: "agrees e (absf (st_store st)) u ps" by blast
  have "matchPermission e ps = may e (absf (st_store st)) u"
    unfolding matchPermission_permitted may_def by (rule permitted_cong) (use ps in \<open>simp add: agrees_def\<close>)
  with evaluateRules_decision [of e, OF e(1) okay live fair] show ?thesis
    by (simp add: Enforce_def EnforceCtx_def run decided_def recordDecision_off [OF quiet] split_beta)
qed

end

subsection \<open>Interleaved calls over the memory store and the LRU cache\<close>

inductive coherence_run :: "local_enforcer \<Rightarrow> (mem, lru, unit) concurrent \<Rightarrow> bool" for e where
  begun: "local_run e st \<Longrightarrow> coherence_run e
    \<lparr>cn_state = st, cn_readers = [], cn_pending = [], cn_rounds = unat (st_cacheGeneration st)\<rparr>"
| stepped: "coherence_run e c \<Longrightarrow> coherence_step e c c' \<Longrightarrow> coherence_run e c'"

lemma coherence_step_rounds: "coherence_step e c c' \<Longrightarrow> cn_rounds c \<le> cn_rounds c'"
  by (cases rule: coherence_step.cases) auto

lemma coherence_run_ok:
  assumes "coherence_run e c" and "runs_on e mem_ops lru_ops" and "en_cache e = Some lru_ops"
    and "cn_rounds c < 2 ^ 64"
  shows "interleaved_ok e mem_ok mem_abs lru_ok lru_holds c"
  using assms(1,4)
proof induction
  case (begun st)
  have "good e mem_ok mem_abs lru_ok lru_holds st" by (rule local_run_good [OF begun(1) assms(2)])
  with assms(3) show ?case by (auto simp: good_def coherent_def interleaved_ok_def agrees_def)
next
  case (stepped c c')
  have e: "en_store e = mem_ops" using assms(2) by (simp add: runs_on_def)
  have "cn_rounds c < 2 ^ 64" using coherence_step_rounds [OF stepped(2)] stepped.prems by linarith
  with stepped.IH show ?case by (intro embedded.coherence_step_ok [OF stepped(2) _ e assms(3)]) auto
qed

definition bob_removed :: "(mem, lru, unit) concurrent" where
  "bob_removed =
    (let st = fst (EnforceCtx acme background ''bob'' ''doc'' ''read'' acme_state)
     in \<lparr>cn_state = st\<lparr>st_store := fst (mem_UnassignRole background ''acme::bob'' ''acme::editor'' (st_store st))\<rparr>,
         cn_readers = [], cn_pending = [DropUser ''bob''], cn_rounds = unat (st_cacheGeneration st)\<rparr>)"

lemma bob_removed_run: "coherence_run acme bob_removed"
proof -
  let ?st = "fst (EnforceCtx acme background ''bob'' ''doc'' ''read'' acme_state)"
  let ?f = "mem_UnassignRole background (userKey acme ''bob'') ''acme::editor''"
  let ?c = "\<lparr>cn_state = ?st, cn_readers = [], cn_pending = [], cn_rounds = unat (st_cacheGeneration ?st)\<rparr>"
  have "local_run acme ?st" by (rule local_run.call [OF acme_run]) (auto intro: enforcer_step.intros fair_background)
  then have run: "coherence_run acme ?c" by (rule coherence_run.begun)
  have op: "store_op acme ?f (Some (DropUser ''bob''))"
    by (rule store_op.intros(7)) (simp add: acme_def mem_ops_def mem_base_ops_def)
  have "snd (?f (st_store ?st)) = None" by code_simp
  then have "?f (st_store (cn_state ?c)) = (fst (?f (st_store ?st)), None)" by (simp add: prod_eq_iff)
  from coherence_run.stepped [OF run coherence_step.stored [OF op this]]
  show ?thesis by (simp add: bob_removed_def Let_def userKey_def acme_def tenantSep_def)
qed

lemma bob_removed_rounds: "cn_rounds bob_removed = 6"
proof -
  have "st_cacheGeneration (fst (EnforceCtx acme background ''bob'' ''doc'' ''read'' acme_state)) = 6" by code_simp
  then show ?thesis by (simp add: bob_removed_def Let_def)
qed

text \<open>
  C36. However readers, mutations and invalidations of one Enforcer interleave, its decision on a user is
  exactly as specified for the policy in the store, unless the invalidation of a mutation that is already
  in the store and concerns this user has not been carried out yet. In particular no reader that was
  overtaken by an invalidation leaves a stale set behind, and once every mutation has carried out its
  invalidation, all decisions are exact, whatever readers are still under way.
\<close>

theorem settled_exact:
  assumes "coherence_run e c" and "runs_on e mem_ops lru_ops" and "en_cache e = Some lru_ops"
    and "cn_rounds c < 2 ^ 64" and "\<And>p. p \<in> set (cn_pending c) \<Longrightarrow> \<not> covers p u" and "en_audit e = None"
    and "cx_Err cx = None" and "fair_range cx" and "\<not> st_shutdown (cn_state c)"
  shows "snd (Enforce e cx u res act (cn_state c)) \<longleftrightarrow>
    decision e (mem_abs (st_store (cn_state c))) u res act (cx_attrs cx)
      (may e (mem_abs (st_store (cn_state c))) u res act)"
proof -
  note c = interleaved_okD [OF coherence_run_ok [OF assms(1-4)]]
  have e: "en_store e = mem_ops" using assms(2) by (simp add: runs_on_def)
  have "agrees e (mem_abs (st_store (cn_state c))) u ps" if "snd (cacheLookup e cx u (cn_state c)) = Some ps" for ps
    using c(4) [OF embedded.lookup_narrows(5) [OF assms(3) c(2) prod.collapse [symmetric] that]] assms(5)
    by (auto simp: awaited_def)
  from embedded.lookup_decides [OF e assms(3) c(1,2) this assms(7-9,6)] show ?thesis .
qed

definition bob_dropped :: "(mem, lru, unit) concurrent" where
  "bob_dropped = bob_removed\<lparr>cn_state := dropCache acme background ''bob'' (cn_state bob_removed),
     cn_pending := [], cn_rounds := cn_rounds bob_removed + 1\<rparr>"

theorem settled_exact_witness:
  "\<not> decision acme (mem_abs (st_store (cn_state bob_dropped))) ''bob'' ''doc'' ''read'' (cx_attrs background)
     (may acme (mem_abs (st_store (cn_state bob_dropped))) ''bob'' ''doc'' ''read'')"
proof -
  have pending: "cn_pending bob_removed = [] @ DropUser ''bob'' # []" by (simp add: bob_removed_def Let_def)
  have run: "coherence_run acme bob_dropped"
    using coherence_run.stepped [OF bob_removed_run coherence_step.invalidated [OF pending, where cx = background]]
    by (simp add: bob_dropped_def invalidate_def)
  have rounds: "cn_rounds bob_dropped < 2 ^ 64" by (simp add: bob_dropped_def bob_removed_rounds)
  have none: "p \<in> set (cn_pending bob_dropped) \<Longrightarrow> \<not> covers p ''bob''" for p by (simp add: bob_dropped_def)
  have "\<not> st_shutdown (cn_state bob_dropped)" by code_simp
  moreover have "snd (Enforce acme background ''bob'' ''doc'' ''read'' (cn_state bob_dropped)) = False" by code_simp
  ultimately show ?thesis
    using settled_exact [OF run acme_runs(1) _ rounds none acme_runs(2) background_Err fair_background]
    by (auto simp: acme_def)
qed

end
