(* ===== verification/Broker.thy ===== *)
theory Broker
  imports Coherence
begin

text \<open>
  The invalidation broker of \<^verbatim>\<open>invalidation.go\<close>: one goroutine receives events from Redis and hands them
  to a buffered channel per subscriber. Redis itself is outside; what its client returns is an
  argument. A channel is a number, its buffer a queue; \<open>bk_panic\<close> and \<open>bk_blocked\<close> record a send on or
  close of a closed channel and a send that would wait for room while it holds the mutex.
\<close>

subsection \<open>State and operations\<close>

record channel =
  ch_queue :: "invalidation_event list"
  ch_closed :: bool

record broker =
  bk_channel :: string
  bk_subs :: "nat fset"
  bk_chans :: "nat \<Rightarrow> channel"
  bk_next :: nat
  bk_closed :: bool
  bk_ready :: bool
  bk_cancelled :: bool
  bk_once :: bool
  bk_running :: bool
  bk_waiting :: bool
  bk_delay :: int
  bk_panic :: bool
  bk_blocked :: bool

definition flush_event :: invalidation_event where
  "flush_event = \<lparr>ev_Kind = InvalidateFlush, ev_User = []\<rparr>"

abbreviation is_flush :: "invalidation_event \<Rightarrow> bool" where "is_flush ev \<equiv> ev_Kind ev = InvalidateFlush"

definition NewRedisInvalidator :: "string \<Rightarrow> broker" where
  "NewRedisInvalidator channel =
     \<lparr>bk_channel = (if channel = [] then ''rbacgo:invalidation'' else channel), bk_subs = {||},
      bk_chans = (\<lambda>_. \<lparr>ch_queue = [], ch_closed = False\<rparr>), bk_next = 0, bk_closed = False, bk_ready = False,
      bk_cancelled = False, bk_once = False, bk_running = True, bk_waiting = False, bk_delay = 50000000, bk_panic = False,
      bk_blocked = False\<rparr>"

text \<open>A send that does not wait, and the loop that takes what is there.\<close>

definition try_send :: "invalidation_event \<Rightarrow> invalidation_event list \<Rightarrow> invalidation_event list option" where
  "try_send ev q = (if length q < 64 then Some (q @ [ev]) else None)"

fun drain :: "invalidation_event list \<Rightarrow> invalidation_event list" where
  "drain [] = []"
| "drain (_ # q) = drain q"

definition deliver :: "invalidation_event \<Rightarrow> invalidation_event list \<Rightarrow> invalidation_event list option" where
  "deliver ev q =
     (case try_send ev q of
        Some q' \<Rightarrow> Some q'
      | None \<Rightarrow> if is_flush ev then try_send ev (drain q) else Some q)"

definition send ::
  "(invalidation_event list \<Rightarrow> invalidation_event list option) \<Rightarrow> nat \<Rightarrow> broker \<Rightarrow> broker" where
  "send f n b =
     (let c = bk_chans b n
      in if ch_closed c then b\<lparr>bk_panic := True\<rparr>
         else case f (ch_queue c) of
             None \<Rightarrow> b\<lparr>bk_blocked := True\<rparr>
           | Some q \<Rightarrow> b\<lparr>bk_chans := (bk_chans b)(n := c\<lparr>ch_queue := q\<rparr>)\<rparr>)"

text \<open>\<open>order\<close> is the order in which the runtime ranges over the subscribers.\<close>

definition broadcastLocked :: "nat list \<Rightarrow> invalidation_event \<Rightarrow> broker \<Rightarrow> broker" where
  "broadcastLocked order ev b = fold (send (deliver ev)) order b"

definition close_chan :: "nat \<Rightarrow> broker \<Rightarrow> broker" where
  "close_chan n b =
     (let c = bk_chans b n
      in if ch_closed c then b\<lparr>bk_panic := True\<rparr>
         else b\<lparr>bk_chans := (bk_chans b)(n := c\<lparr>ch_closed := True\<rparr>)\<rparr>)"

definition Messages :: "broker \<Rightarrow> nat \<times> broker" where
  "Messages b =
     (let n = bk_next b;
          b = b\<lparr>bk_next := n + 1, bk_chans := (bk_chans b)(n := \<lparr>ch_queue = [], ch_closed = False\<rparr>)\<rparr>
      in (n, if bk_closed b then close_chan n b
             else let b = b\<lparr>bk_subs := finsert n (bk_subs b)\<rparr>
                  in if bk_ready b then send (try_send flush_event) n b else b))"

definition unsubscribe :: "nat \<Rightarrow> broker \<Rightarrow> broker" where
  "unsubscribe n b =
     (if n |\<in>| bk_subs b then close_chan n (b\<lparr>bk_subs := bk_subs b |-| {|n|}\<rparr>) else b)"

definition closeSubscribers :: "nat list \<Rightarrow> broker \<Rightarrow> broker" where
  "closeSubscribers order b =
     fold (\<lambda>n b. close_chan n (b\<lparr>bk_subs := bk_subs b |-| {|n|}\<rparr>)) order (b\<lparr>bk_closed := True\<rparr>)"

definition CloseBroker :: "nat list \<Rightarrow> broker \<Rightarrow> broker" where
  "CloseBroker order b =
     (if bk_once b then b else closeSubscribers order (b\<lparr>bk_once := True, bk_cancelled := True\<rparr>))"

text \<open>
  One round of \<^verbatim>\<open>run\<close>: what \<^verbatim>\<open>Receive\<close> returned. A message carries the event its payload decodes to, if
  it does. After an error the loop waits, for the timer or for the end of the broker.
\<close>

datatype received =
    ReceiveFailed
  | Subscription string string
  | Message "invalidation_event option"
  | Pong

definition run_ends :: "nat list \<Rightarrow> broker \<Rightarrow> broker" where
  "run_ends order b = closeSubscribers order (b\<lparr>bk_running := False, bk_waiting := False\<rparr>)"

definition run_round :: "nat list \<Rightarrow> received \<Rightarrow> broker \<Rightarrow> broker" where
  "run_round order msg b =
     (case msg of
        ReceiveFailed \<Rightarrow>
          if bk_cancelled b then run_ends order b else b\<lparr>bk_ready := False, bk_waiting := True\<rparr>
      | Subscription kind channel \<Rightarrow>
          let b = b\<lparr>bk_delay := 50000000\<rparr>
          in if kind = ''subscribe'' \<and> channel = bk_channel b
             then broadcastLocked order flush_event (b\<lparr>bk_ready := True\<rparr>) else b
      | Message event \<Rightarrow>
          let b = b\<lparr>bk_delay := 50000000\<rparr>
          in (case event of None \<Rightarrow> b | Some ev \<Rightarrow> broadcastLocked order ev b)
      | Pong \<Rightarrow> b\<lparr>bk_delay := 50000000\<rparr>)"

definition run_wait :: "nat list \<Rightarrow> bool \<Rightarrow> broker \<Rightarrow> broker" where
  "run_wait order timer b =
     (if timer then b\<lparr>bk_waiting := False, bk_delay := min (2 * bk_delay b) 1000000000\<rparr>
      else if bk_cancelled b then run_ends order b else b)"

text \<open>A subscriber takes the oldest event of its channel.\<close>

definition take_event :: "nat \<Rightarrow> broker \<Rightarrow> broker" where
  "take_event n b = b\<lparr>bk_chans := (bk_chans b)(n := (bk_chans b n)\<lparr>ch_queue := tl (ch_queue (bk_chans b n))\<rparr>)\<rparr>"

subsection \<open>Steps\<close>

text \<open>The label is the event that a subscriber got in the step.\<close>

definition lists_subs :: "nat list \<Rightarrow> broker \<Rightarrow> bool" where
  "lists_subs order b \<longleftrightarrow> distinct order \<and> set order = fset (bk_subs b)"

inductive broker_step :: "broker \<Rightarrow> (nat \<times> invalidation_event) option \<Rightarrow> broker \<Rightarrow> bool" where
  runs: "bk_running b \<Longrightarrow> \<not> bk_waiting b \<Longrightarrow> lists_subs order b \<Longrightarrow> broker_step b None (run_round order msg b)"
| waits: "bk_running b \<Longrightarrow> bk_waiting b \<Longrightarrow> lists_subs order b \<Longrightarrow> broker_step b None (run_wait order timer b)"
| subscribes: "broker_step b None (snd (Messages b))"
| leaves: "broker_step b None (unsubscribe n b)"
| closes: "lists_subs order b \<Longrightarrow> broker_step b None (CloseBroker order b)"
| takes: "ch_queue (bk_chans b n) = ev # q \<Longrightarrow> broker_step b (Some (n, ev)) (take_event n b)"

inductive broker_run :: "broker \<Rightarrow> bool" where
  begins: "broker_run (NewRedisInvalidator channel)"
| goes_on: "broker_run b \<Longrightarrow> broker_step b l b' \<Longrightarrow> broker_run b'"

text \<open>Steps in which subscriber \<open>n\<close> gets no flush.\<close>

inductive no_flush_run :: "nat \<Rightarrow> broker \<Rightarrow> broker \<Rightarrow> bool" for n b where
  here: "no_flush_run n b b"
| later: "no_flush_run n b b' \<Longrightarrow> broker_step b' l b'' \<Longrightarrow> (\<And>ev. l = Some (n, ev) \<Longrightarrow> \<not> is_flush ev) \<Longrightarrow>
    no_flush_run n b b''"

subsection \<open>The invariant\<close>

definition broker_ok :: "broker \<Rightarrow> bool" where
  "broker_ok b \<longleftrightarrow> \<not> bk_panic b \<and> \<not> bk_blocked b \<and>
     (\<forall>n. length (ch_queue (bk_chans b n)) \<le> 64) \<and>
     (\<forall>n. n |\<in>| bk_subs b \<longrightarrow> n < bk_next b \<and> \<not> ch_closed (bk_chans b n)) \<and>
     (bk_closed b \<longrightarrow> bk_subs b = {||}) \<and> 50000000 \<le> bk_delay b \<and> bk_delay b \<le> 1000000000"

lemma broker_okI:
  assumes "\<not> bk_panic b" and "\<not> bk_blocked b" and "\<And>n. length (ch_queue (bk_chans b n)) \<le> 64"
    and "\<And>n. n |\<in>| bk_subs b \<Longrightarrow> n < bk_next b \<and> \<not> ch_closed (bk_chans b n)"
    and "bk_closed b \<Longrightarrow> bk_subs b = {||}" and "50000000 \<le> bk_delay b" and "bk_delay b \<le> 1000000000"
  shows "broker_ok b"
  using assms by (simp add: broker_ok_def)

lemma broker_okD:
  assumes "broker_ok b"
  shows "\<not> bk_panic b" "\<not> bk_blocked b" "length (ch_queue (bk_chans b n)) \<le> 64"
    "n |\<in>| bk_subs b \<Longrightarrow> n < bk_next b" "n |\<in>| bk_subs b \<Longrightarrow> \<not> ch_closed (bk_chans b n)"
    "bk_closed b \<Longrightarrow> bk_subs b = {||}" "50000000 \<le> bk_delay b" "bk_delay b \<le> 1000000000"
  using assms by (simp_all add: broker_ok_def)

definition has_flush :: "nat \<Rightarrow> broker \<Rightarrow> bool" where
  "has_flush n b \<longleftrightarrow> (\<exists>ev \<in> set (ch_queue (bk_chans b n)). is_flush ev)"

text \<open>
  Delivering never waits and never loses the last flush: a full buffer is emptied for a flush only,
  and then holds that flush.
\<close>

lemma drain_Nil [simp]: "drain q = []"
  by (induction q) auto

lemma deliver_effect:
  obtains q' where "deliver ev q = Some q'" and "length q \<le> 64 \<Longrightarrow> length q' \<le> 64"
    and "is_flush ev \<Longrightarrow> ev \<in> set q'" and "\<And>x. x \<in> set q \<Longrightarrow> is_flush x \<Longrightarrow> \<exists>y \<in> set q'. is_flush y"
proof (cases "length q < 64")
  case True
  then show ?thesis by (intro that [of "q @ [ev]"]) (auto simp: deliver_def try_send_def)
next
  case False
  then show ?thesis
    by (cases "is_flush ev") (auto simp: deliver_def try_send_def intro: that [of "[ev]"] that [of q])
qed

definition delivered :: "invalidation_event \<Rightarrow> channel \<Rightarrow> channel" where
  "delivered ev c = c\<lparr>ch_queue := the (deliver ev (ch_queue c))\<rparr>"

lemma broadcastLocked_eq:
  assumes "distinct order" and "\<And>n. n \<in> set order \<Longrightarrow> \<not> ch_closed (bk_chans b n)"
  shows "broadcastLocked order ev b =
    b\<lparr>bk_chans := (\<lambda>m. if m \<in> set order then delivered ev (bk_chans b m) else bk_chans b m)\<rparr>"
  using assms unfolding broadcastLocked_def
proof (induction order arbitrary: b)
  case (Cons n order)
  have "send (deliver ev) n b = b\<lparr>bk_chans := (bk_chans b)(n := delivered ev (bk_chans b n))\<rparr>"
    using Cons.prems(2) [of n] by (auto simp: send_def delivered_def Let_def intro: deliver_effect [of ev "ch_queue (bk_chans b n)"])
  moreover have "fold (send (deliver ev)) order (b\<lparr>bk_chans := (bk_chans b)(n := delivered ev (bk_chans b n))\<rparr>) =
      b\<lparr>bk_chans := (\<lambda>m. if m \<in> set order then delivered ev (bk_chans b m)
        else ((bk_chans b)(n := delivered ev (bk_chans b n))) m)\<rparr>"
    using Cons.prems by (subst Cons.IH) (auto simp: fun_eq_iff intro!: broker.equality)
  ultimately show ?case using Cons.prems by (auto simp: fun_eq_iff intro!: broker.equality)
qed simp

lemma closeSubscribers_eq:
  assumes "distinct order" and "\<And>n. n \<in> set order \<Longrightarrow> \<not> ch_closed (bk_chans b n)"
  shows "closeSubscribers order b =
    b\<lparr>bk_closed := True, bk_subs := bk_subs b |-| fset_of_list order,
      bk_chans := (\<lambda>m. if m \<in> set order then (bk_chans b m)\<lparr>ch_closed := True\<rparr> else bk_chans b m)\<rparr>"
proof -
  let ?f = "\<lambda>n b. close_chan n (b\<lparr>bk_subs := bk_subs b |-| {|n|}\<rparr>)"
  have "fold ?f order b =
      b\<lparr>bk_subs := bk_subs b |-| fset_of_list order,
        bk_chans := (\<lambda>m. if m \<in> set order then (bk_chans b m)\<lparr>ch_closed := True\<rparr> else bk_chans b m)\<rparr>"
    if "distinct order" "\<And>n. n \<in> set order \<Longrightarrow> \<not> ch_closed (bk_chans b n)" for b
    using that
  proof (induction order arbitrary: b)
    case (Cons n order)
    let ?b = "b\<lparr>bk_subs := bk_subs b |-| {|n|}, bk_chans := (bk_chans b)(n := (bk_chans b n)\<lparr>ch_closed := True\<rparr>)\<rparr>"
    have "?f n b = ?b" using Cons.prems(2) [of n] by (simp add: close_chan_def Let_def)
    moreover have "fold ?f order ?b = ?b\<lparr>bk_subs := bk_subs ?b |-| fset_of_list order,
        bk_chans := (\<lambda>m. if m \<in> set order then (bk_chans ?b m)\<lparr>ch_closed := True\<rparr> else bk_chans ?b m)\<rparr>"
      using Cons.prems by (intro Cons.IH) auto
    ultimately show ?case using Cons.prems(1) by (auto simp: fun_eq_iff intro!: broker.equality)
  qed (simp add: fun_eq_iff)
  from this [OF assms(1), of "b\<lparr>bk_closed := True\<rparr>"] assms(2) show ?thesis by (simp add: closeSubscribers_def cong: if_cong)
qed

text \<open>Every operation keeps the invariant, and no flush leaves a channel that is still subscribed.\<close>

definition sound :: "broker \<Rightarrow> broker \<Rightarrow> bool" where
  "sound b b' \<longleftrightarrow> broker_ok b' \<and> bk_next b \<le> bk_next b' \<and> bk_subs b' |\<subseteq>| finsert (bk_next b) (bk_subs b) \<and>
     (\<forall>n. n |\<in>| bk_subs b' \<longrightarrow> has_flush n b \<longrightarrow> n |\<in>| bk_subs b \<longrightarrow> has_flush n b')"

lemma delivered_queue:
  shows "length (ch_queue c) \<le> 64 \<Longrightarrow> length (ch_queue (delivered ev c)) \<le> 64"
    and "ch_closed (delivered ev c) = ch_closed c"
    and "is_flush ev \<Longrightarrow> ev \<in> set (ch_queue (delivered ev c))"
    and "x \<in> set (ch_queue c) \<Longrightarrow> is_flush x \<Longrightarrow> \<exists>y \<in> set (ch_queue (delivered ev c)). is_flush y"
  by (rule deliver_effect [of ev "ch_queue c"]; simp add: delivered_def)+

lemma broadcastLocked_sound:
  assumes ok: "broker_ok b" and order: "lists_subs order b"
  shows "sound b (broadcastLocked order ev b)"
    and "is_flush ev \<Longrightarrow> n |\<in>| bk_subs b \<Longrightarrow> has_flush n (broadcastLocked order ev b)"
    and "bk_subs (broadcastLocked order ev b) = bk_subs b"
proof -
  have d: "distinct order" "n \<in> set order \<longleftrightarrow> n |\<in>| bk_subs b" for n
    using order by (simp_all add: lists_subs_def)
  note eq = broadcastLocked_eq [OF d(1), of b ev]
  have b': "broadcastLocked order ev b =
      b\<lparr>bk_chans := (\<lambda>m. if m |\<in>| bk_subs b then delivered ev (bk_chans b m) else bk_chans b m)\<rparr>"
    using eq d(2) broker_okD(5) [OF ok] by simp
  show "sound b (broadcastLocked order ev b)"
    unfolding sound_def b' using broker_okD [OF ok] delivered_queue
    by (auto intro!: broker_okI simp: has_flush_def)
  show "has_flush n (broadcastLocked order ev b)" if "is_flush ev" "n |\<in>| bk_subs b"
    using that delivered_queue(3) [of ev "bk_chans b n"] by (auto simp: has_flush_def b')
  show "bk_subs (broadcastLocked order ev b) = bk_subs b" by (simp add: b')
qed

lemma closeSubscribers_sound:
  assumes ok: "broker_ok b" and order: "lists_subs order b"
  shows "sound b (closeSubscribers order b)"
proof -
  have none: "bk_subs b |-| fset_of_list order = {||}"
    using order by (auto simp: lists_subs_def fset_of_list_elem)
  have "closeSubscribers order b =
      b\<lparr>bk_closed := True, bk_subs := bk_subs b |-| fset_of_list order,
        bk_chans := (\<lambda>m. if m \<in> set order then (bk_chans b m)\<lparr>ch_closed := True\<rparr> else bk_chans b m)\<rparr>"
    using order broker_okD(5) [OF ok] by (intro closeSubscribers_eq) (simp_all add: lists_subs_def)
  then show ?thesis
    unfolding none using broker_okD [OF ok] by (auto simp: sound_def intro!: broker_okI)
qed

lemma Messages_sound:
  assumes ok: "broker_ok b"
  shows "sound b (snd (Messages b))"
proof -
  have "bk_next b |\<notin>| bk_subs b" using broker_okD(4) [OF ok] by blast
  then show ?thesis
    using broker_okD [OF ok]
    by (auto simp: sound_def Messages_def close_chan_def send_def try_send_def has_flush_def less_Suc_eq Let_def
        intro!: broker_okI split: if_splits)
qed

lemma unsubscribe_sound:
  assumes ok: "broker_ok b"
  shows "sound b (unsubscribe n b)"
  using broker_okD [OF ok]
  by (auto simp: sound_def unsubscribe_def close_chan_def has_flush_def Let_def intro!: broker_okI)

lemma sound_from:
  assumes "sound b0 b'" and "bk_chans b0 = bk_chans b" and "bk_subs b0 = bk_subs b" and "bk_next b0 = bk_next b"
  shows "sound b b'"
  using assms by (simp add: sound_def has_flush_def)

lemma sound_same:
  assumes "broker_ok b'" and "bk_chans b' = bk_chans b" and "bk_subs b' = bk_subs b" and "bk_next b' = bk_next b"
  shows "sound b b'"
  using assms by (auto simp: sound_def has_flush_def)

lemma CloseBroker_sound:
  assumes "broker_ok b" and "lists_subs order b"
  shows "sound b (CloseBroker order b)"
proof (cases "bk_once b")
  case True
  with assms(1) show ?thesis by (simp add: CloseBroker_def sound_same)
next
  case False
  have "sound (b\<lparr>bk_once := True, bk_cancelled := True\<rparr>) (closeSubscribers order (b\<lparr>bk_once := True, bk_cancelled := True\<rparr>))"
    using assms by (intro closeSubscribers_sound) (simp_all add: broker_ok_def lists_subs_def)
  with False show ?thesis by (simp add: CloseBroker_def sound_from)
qed

lemma run_ends_sound:
  assumes "broker_ok b" and "lists_subs order b"
  shows "sound b (run_ends order b)"
proof -
  let ?b = "b\<lparr>bk_running := False, bk_waiting := False\<rparr>"
  have "sound ?b (closeSubscribers order ?b)"
    using assms by (intro closeSubscribers_sound) (simp_all add: broker_ok_def lists_subs_def)
  then show ?thesis by (simp add: run_ends_def sound_from)
qed

lemma run_round_sound:
  assumes ok: "broker_ok b" and order: "lists_subs order b"
  shows "sound b (run_round order msg b)"
proof (cases msg)
  case ReceiveFailed
  with ok order show ?thesis
    by (auto simp: run_round_def run_ends_sound intro!: sound_same) (simp add: broker_ok_def)
next
  case (Subscription kind ch)
  let ?b = "b\<lparr>bk_delay := 50000000\<rparr>"
  have ready: "sound ?b (broadcastLocked order flush_event (?b\<lparr>bk_ready := True\<rparr>))"
    using ok order by (intro sound_from [OF broadcastLocked_sound(1)]) (simp_all add: broker_ok_def lists_subs_def)
  have "sound b ?b" using ok by (intro sound_same) (simp_all add: broker_ok_def)
  with Subscription sound_from [OF ready] show ?thesis by (simp add: run_round_def Let_def)
next
  case (Message event)
  let ?b = "b\<lparr>bk_delay := 50000000\<rparr>"
  have "sound ?b (broadcastLocked order ev ?b)" for ev
    using ok order by (intro broadcastLocked_sound(1)) (simp_all add: broker_ok_def lists_subs_def)
  then have "sound b (broadcastLocked order ev ?b)" for ev by (rule sound_from) simp_all
  moreover have "sound b ?b" using ok by (intro sound_same) (simp_all add: broker_ok_def)
  ultimately show ?thesis
    using Message by (auto simp: run_round_def Let_def split: option.splits)
next
  case Pong
  with ok show ?thesis by (auto simp: run_round_def broker_ok_def intro!: sound_same)
qed

lemma run_wait_sound:
  assumes "broker_ok b" and "lists_subs order b"
  shows "sound b (run_wait order timer b)"
proof (cases timer)
  case True
  have "broker_ok (run_wait order timer b)" using True assms(1) by (auto simp: run_wait_def broker_ok_def)
  with True show ?thesis by (intro sound_same) (simp_all add: run_wait_def)
next
  case False
  with assms show ?thesis by (simp add: run_wait_def run_ends_sound sound_same)
qed

lemma broker_step_sound:
  assumes "broker_ok b" and "broker_step b l b'" and "\<And>ev. l = Some (n, ev) \<Longrightarrow> \<not> is_flush ev"
  shows "broker_ok b'" and "n |\<in>| bk_subs b' \<Longrightarrow> n |\<in>| bk_subs b \<Longrightarrow> has_flush n b \<Longrightarrow> has_flush n b'"
    and "bk_next b \<le> bk_next b'" and "bk_subs b' |\<subseteq>| finsert (bk_next b) (bk_subs b)"
proof -
  have "broker_ok b' \<and> bk_next b \<le> bk_next b' \<and> bk_subs b' |\<subseteq>| finsert (bk_next b) (bk_subs b) \<and> (n |\<in>| bk_subs b' \<longrightarrow> n |\<in>| bk_subs b \<longrightarrow> has_flush n b \<longrightarrow> has_flush n b')"
    using assms(2)
  proof cases
    case (takes m ev q)
    have "broker_ok (take_event m b)"
      using broker_okD [OF assms(1)] broker_okD(3) [OF assms(1), of m] by (intro broker_okI) (auto simp: take_event_def intro: order_trans [OF diff_le_self])
    with takes assms(3) show ?thesis by (auto simp: take_event_def has_flush_def)
  qed (use assms(1) run_round_sound run_wait_sound Messages_sound unsubscribe_sound CloseBroker_sound
      in \<open>auto simp: sound_def\<close>)
  then show "broker_ok b'" "n |\<in>| bk_subs b' \<Longrightarrow> n |\<in>| bk_subs b \<Longrightarrow> has_flush n b \<Longrightarrow> has_flush n b'"
    "bk_next b \<le> bk_next b'" "bk_subs b' |\<subseteq>| finsert (bk_next b) (bk_subs b)" by blast+
qed

lemma broker_run_ok: "broker_run b \<Longrightarrow> broker_ok b"
proof (induction rule: broker_run.induct)
  case (begins channel)
  show ?case by (simp add: broker_ok_def NewRedisInvalidator_def)
next
  case (goes_on b l b')
  show ?case
    by (rule broker_step_sound(1) [OF goes_on.IH goes_on(2), of "case l of None \<Rightarrow> 0 | Some (m, ev) \<Rightarrow> Suc m"])
      (auto split: option.splits)
qed

subsection \<open>What subscribers can rely on\<close>

text \<open>
  C35. The broker cannot hang or crash on its subscribers: whatever Redis delivers and however
  subscriptions, cancellations and readers interleave, it never sends on or closes a closed channel,
  never waits for a reader while it holds its mutex, buffers at most 64 events per subscriber, has no
  subscriber left once it is closed, and pauses between 50 milliseconds and a second after an error.
\<close>

theorem broker_safe:
  assumes "broker_run b"
  shows "\<not> bk_panic b \<and> \<not> bk_blocked b \<and> length (ch_queue (bk_chans b n)) \<le> 64 \<and>
    (bk_closed b \<longrightarrow> bk_subs b = {||}) \<and> 50000000 \<le> bk_delay b \<and> bk_delay b \<le> 1000000000"
  using broker_run_ok [OF assms] by (simp add: broker_ok_def)

lemma no_flush_run_keeps:
  assumes "no_flush_run n b b'" and "broker_ok b" and "n |\<in>| bk_subs b" and "has_flush n b"
  shows "broker_ok b' \<and> n < bk_next b' \<and> (n |\<in>| bk_subs b' \<longrightarrow> has_flush n b')"
  using assms(1)
proof induction
  case here
  with assms(2-4) broker_okD(4) show ?case by blast
next
  case (later b' l b'')
  from later.IH have ok: "broker_ok b'" and n: "n < bk_next b'" by auto
  note step = broker_step_sound [OF ok later(2), of n]
  have "n |\<in>| bk_subs b'" if "n |\<in>| bk_subs b''"
    using step(4) [OF later(3)] that n by (auto dest: fsubsetD)
  with step later(3) later.IH n show ?case by (meson order_less_le_trans)
qed

text \<open>
  Working off a queue that holds a flush empties the cache, whatever the events before and after it.
\<close>

definition work_off ::
  "('s, 'c, 'x) enforcer \<Rightarrow> ctx \<Rightarrow> invalidation_event list \<Rightarrow> ('s, 'c, 'x) state \<Rightarrow> ('s, 'c, 'x) state" where
  "work_off e cx events st = fold (invalidationStep e cx) events st"

lemma invalidationStep_effect:
  assumes e: "en_cache e = Some lru_ops" and st: "st_subscribed st" "lru_ok (st_cache st)"
  shows "st_subscribed (invalidationStep e cx ev st)" and "lru_ok (st_cache (invalidationStep e cx ev st))"
    and "lru_holds (st_cache (invalidationStep e cx ev st)) k v \<Longrightarrow> lru_holds (st_cache st) k v \<and> \<not> is_flush ev"
proof -
  have sub: "st_subscribed (flushCache e cx st)" "st_subscribed (dropCacheKey e cx key st)" for key
    using st(1) by (auto simp: flushCache_def dropCacheKey_def Let_def logError_def metric_def split: option.splits prod.splits)
  note flush = embedded.flush_clears [OF e st(2)] and drop = embedded.drop_clears [OF e st(2)]
  show "st_subscribed (invalidationStep e cx ev st)" "lru_ok (st_cache (invalidationStep e cx ev st))"
    "lru_holds (st_cache (invalidationStep e cx ev st)) k v \<Longrightarrow> lru_holds (st_cache st) k v \<and> \<not> is_flush ev"
    using st sub flush(3,4) drop(3,4) by (auto simp: invalidationStep_def applyInvalidation_def split: if_splits)
qed

lemma work_off_effect:
  assumes e: "en_cache e = Some lru_ops" and "st_subscribed st" "lru_ok (st_cache st)"
    and "lru_holds (st_cache (work_off e cx events st)) k v"
  shows "lru_holds (st_cache st) k v \<and> \<not> (\<exists>ev \<in> set events. is_flush ev)"
  using assms(2-4) unfolding work_off_def
proof (induction events arbitrary: st)
  case (Cons ev events)
  note step = invalidationStep_effect [OF e Cons.prems(1,2), of cx ev]
  from Cons.IH [OF step(1,2)] Cons.prems(3) step(3) show ?case by auto
qed simp

text \<open>
  C40. A subscriber recovers from everything it missed: once Redis confirms the subscription, the first
  time or after a lost connection, every subscriber has a flush in its queue, and keeps one there
  whatever else happens until it gets a flush or leaves; an Enforcer that works off that queue holds
  no cached set from before.
\<close>

theorem reconnect_flushes:
  assumes "broker_run b" and "bk_running b" and "\<not> bk_waiting b" and "lists_subs order b" and "n |\<in>| bk_subs b"
    and "no_flush_run n (run_round order (Subscription ''subscribe'' (bk_channel b)) b) b'" and "n |\<in>| bk_subs b'"
    and "en_cache e = Some lru_ops" and "st_subscribed st" and "lru_ok (st_cache st)"
  shows "\<not> lru_holds (st_cache (work_off e cx (ch_queue (bk_chans b' n)) st)) k v"
proof -
  let ?b = "b\<lparr>bk_delay := 50000000, bk_ready := True\<rparr>"
  have round: "run_round order (Subscription ''subscribe'' (bk_channel b)) b = broadcastLocked order flush_event ?b"
    by (simp add: run_round_def Let_def)
  have ok: "broker_ok ?b" "lists_subs order ?b" and n: "n |\<in>| bk_subs ?b"
    using broker_run_ok [OF assms(1)] assms(4,5) by (simp_all add: broker_ok_def lists_subs_def)
  note cast = broadcastLocked_sound [OF ok, of flush_event]
  have "is_flush flush_event" by (simp add: flush_event_def)
  with no_flush_run_keeps [OF assms(6) [unfolded round]] cast n have "has_flush n b'"
    using assms(7) by (auto simp: sound_def)
  then show ?thesis
    using work_off_effect [OF assms(8-10)] unfolding has_flush_def by blast
qed

text \<open>A subscriber of a broker that connects.\<close>

definition subscribed_broker :: broker where
  "subscribed_broker = snd (Messages (NewRedisInvalidator []))"

lemma subscribed_broker_run: "broker_run subscribed_broker"
  unfolding subscribed_broker_def by (rule broker_run.goes_on [OF broker_run.begins broker_step.subscribes])

theorem broker_safe_witness: "\<not> bk_panic subscribed_broker \<and> length (ch_queue (bk_chans subscribed_broker 0)) \<le> 64"
  using broker_safe [OF subscribed_broker_run] by blast

definition subscribed_acme :: local_state where
  "subscribed_acme = fst (EnforceCtx acme background ''bob'' ''doc'' ''read'' acme_state)\<lparr>st_subscribed := True\<rparr>"

theorem reconnect_flushes_witness:
  "\<nexists>v. lru_holds (st_cache (work_off acme background (ch_queue (bk_chans
      (run_round [0] (Subscription ''subscribe'' ''rbacgo:invalidation'') subscribed_broker) 0)) subscribed_acme)) ''acme::user:bob'' v"
proof -
  have b: "bk_running subscribed_broker" "\<not> bk_waiting subscribed_broker" "lists_subs [0] subscribed_broker"
    "0 |\<in>| bk_subs subscribed_broker" "bk_channel subscribed_broker = ''rbacgo:invalidation''"
    by (simp_all add: subscribed_broker_def Messages_def NewRedisInvalidator_def lists_subs_def Let_def)
  let ?st = "fst (EnforceCtx acme background ''bob'' ''doc'' ''read'' acme_state)"
  have "local_run acme ?st" by (rule local_run.call [OF acme_run]) (auto intro: enforcer_step.intros fair_background)
  from goodD(2) [OF local_run_good [OF this acme_runs(1)]] have "lru_ok (st_cache subscribed_acme)"
    by (simp add: subscribed_acme_def)
  moreover have "0 |\<in>| bk_subs (run_round [0] (Subscription ''subscribe'' (bk_channel subscribed_broker)) subscribed_broker)"
    by code_simp
  ultimately show ?thesis
    using reconnect_flushes [OF subscribed_broker_run b(1-4) no_flush_run.here, of acme subscribed_acme background]
    by (simp add: b(5) subscribed_acme_def acme_def)
qed

end
