(* ===== verification/RedisCache.thy ===== *)
theory RedisCache
  imports Engine
begin

text \<open>
  The lookup cache in Redis (\<^verbatim>\<open>redis_cache.go\<close>) and the policy version in Redis
  (\<^verbatim>\<open>redis_policy_version.go\<close>). The server keeps keys with an expiry; the commands the code
  sends, and the three Lua scripts, run atomically there. A command can fail in two ways: it never
  reaches the server, or its answer is lost after it took effect.
\<close>

subsection \<open>The server\<close>

text \<open>The text of a value: JSON written by a cache, an integer, or something else that is no JSON object.\<close>

datatype raw = Json cache_value | Number int | Bytes string

text \<open>What a key holds. Of a hash the code uses the two fields \<^verbatim>\<open>generation\<close> and \<^verbatim>\<open>value\<close>.\<close>

datatype redis_data = Hash "string option" "raw option" | Text raw | OtherType

record redis_item =
  it_data :: redis_data
  it_expires :: "int option"

type_synonym redis_items = "(string, redis_item) fmap"

datatype answer = Answered | Unsent err | Unheard err

text \<open>
  The server with what it will answer: \<open>rd_clock\<close> counts the commands sent, \<open>rd_answers\<close> says which
  of them fail, \<open>rd_text\<close> is what \<^verbatim>\<open>rand.Text\<close> draws, and \<open>rd_scan\<close> gives the pages of keys
  that an iteration with \<^verbatim>\<open>SCAN\<close> returns until its cursor is 0. In a cluster \<open>rd_node\<close> is the
  primary of a key, and \<open>rd_class\<close> reads a character class of a pattern.
\<close>

record redis =
  rd_items :: redis_items
  rd_clock :: nat
  rd_answers :: "nat \<Rightarrow> answer"
  rd_text :: "nat \<Rightarrow> string"
  rd_scan :: "nat \<Rightarrow> string fset \<Rightarrow> string list list"
  rd_nodes :: nat
  rd_node :: "string \<Rightarrow> nat"
  rd_class :: "string \<Rightarrow> (char \<Rightarrow> bool) \<times> nat"

definition redis_Nil :: err where "redis_Nil = ErrBackend ''redis: nil''"
definition WRONGTYPE :: err where
  "WRONGTYPE = ErrBackend ''WRONGTYPE Operation against a key holding the wrong kind of value''"

definition command :: "(redis_items \<Rightarrow> redis_items \<times> (err + 'a)) \<Rightarrow> redis \<Rightarrow> redis \<times> (err + 'a)" where
  "command f rd =
     (let n = rd_clock rd; rd = rd\<lparr>rd_clock := n + 1\<rparr>; (items, r) = f (rd_items rd)
      in case rd_answers rd n of
           Answered \<Rightarrow> (rd\<lparr>rd_items := items\<rparr>, r)
         | Unsent e \<Rightarrow> (rd, Inl e)
         | Unheard e \<Rightarrow> (rd\<lparr>rd_items := items\<rparr>, Inl e))"

text \<open>A key whose expiry has passed is gone.\<close>

definition live :: "int \<Rightarrow> redis_items \<Rightarrow> string \<Rightarrow> redis_data option" where
  "live now items key =
     (case fmlookup items key of None \<Rightarrow> None
      | Some it \<Rightarrow> (case it_expires it of
          None \<Rightarrow> Some (it_data it)
        | Some t \<Rightarrow> if now > t then None else Some (it_data it)))"

definition HGET_value :: "int \<Rightarrow> string \<Rightarrow> redis_items \<Rightarrow> redis_items \<times> (err + raw)" where
  "HGET_value now key items =
     (items, case live now items key of
        Some (Hash _ (Some raw)) \<Rightarrow> Inr raw
      | Some (Text _) \<Rightarrow> Inl WRONGTYPE
      | Some OtherType \<Rightarrow> Inl WRONGTYPE
      | _ \<Rightarrow> Inl redis_Nil)"

definition GET :: "int \<Rightarrow> string \<Rightarrow> redis_items \<Rightarrow> redis_items \<times> (err + raw)" where
  "GET now key items =
     (items, case live now items key of
        None \<Rightarrow> Inl redis_Nil | Some (Text raw) \<Rightarrow> Inr raw | Some _ \<Rightarrow> Inl WRONGTYPE)"

definition DEL :: "string list \<Rightarrow> redis_items \<Rightarrow> redis_items" where
  "DEL keys items = fmdrop_set (set keys) items"

text \<open>
  \<^verbatim>\<open>HSET\<close> and \<^verbatim>\<open>PEXPIRE\<close> as the scripts use them: on a key that is missing or a hash, and on a
  key that exists. \<^verbatim>\<open>HSET\<close> keeps the expiry of a hash.
\<close>

definition HSET :: "int \<Rightarrow> string \<Rightarrow> (string option \<Rightarrow> raw option \<Rightarrow> redis_data) \<Rightarrow> redis_items \<Rightarrow> redis_items" where
  "HSET now key upd items =
     (case live now items key of
        None \<Rightarrow> fmupd key \<lparr>it_data = upd None None, it_expires = None\<rparr> items
      | Some (Hash g v) \<Rightarrow>
          fmupd key \<lparr>it_data = upd g v, it_expires = Option.bind (fmlookup items key) it_expires\<rparr> items
      | Some _ \<Rightarrow> items)"

definition PEXPIRE :: "int \<Rightarrow> string \<Rightarrow> int \<Rightarrow> redis_items \<Rightarrow> redis_items" where
  "PEXPIRE now key ms items =
     (case live now items key of None \<Rightarrow> items
      | Some d \<Rightarrow> fmupd key \<lparr>it_data = d, it_expires = Some (now + ms * 1000000)\<rparr> items)"

subsection \<open>The scripts\<close>

definition redisCacheGeneration :: "int \<Rightarrow> string \<Rightarrow> string \<Rightarrow> int \<Rightarrow> redis_items \<Rightarrow> redis_items \<times> (err + string)" where
  "redisCacheGeneration now key fresh ttl items =
     (let start = (PEXPIRE now key ttl (HSET now key (\<lambda>_. Hash (Some fresh)) (DEL [key] items)), Inr fresh)
      in case live now items key of
           Some (Hash (Some generation) _) \<Rightarrow> (items, Inr generation)
         | _ \<Rightarrow> start)"

definition redisCacheConditionalSet ::
  "int \<Rightarrow> string \<Rightarrow> string \<Rightarrow> raw \<Rightarrow> int \<Rightarrow> redis_items \<Rightarrow> redis_items \<times> (err + int)" where
  "redisCacheConditionalSet now key generation raw ttl items =
     (case live now items key of
        Some (Hash g _) \<Rightarrow>
          if g \<noteq> Some generation then (items, Inr 0)
          else (PEXPIRE now key ttl (HSET now key (\<lambda>g _. Hash g (Some raw)) items), Inr 1)
      | _ \<Rightarrow> (items, Inr 0))"

definition redisCacheSet :: "int \<Rightarrow> string \<Rightarrow> string \<Rightarrow> raw \<Rightarrow> int \<Rightarrow> redis_items \<Rightarrow> redis_items \<times> (err + int)" where
  "redisCacheSet now key fresh raw ttl items =
     (PEXPIRE now key ttl (HSET now key (\<lambda>_ _. Hash (Some fresh) (Some raw)) (DEL [key] items)), Inr 1)"

subsection \<open>JSON\<close>

text \<open>
  What \<^verbatim>\<open>json.Unmarshal\<close> makes of a text for a \<^verbatim>\<open>permissionSet\<close>: a null stands for an empty map
  or false, a repeated name keeps its last value, and any other shape is an error.
\<close>

fun members :: "(json \<Rightarrow> 'a option) \<Rightarrow> (string \<times> json) list \<Rightarrow> (string, 'a) fmap \<Rightarrow> (string, 'a) fmap option" where
  "members f [] m = Some m"
| "members f ((n, j) # js) m = (case f j of None \<Rightarrow> None | Some x \<Rightarrow> members f js (fmupd n x m))"

definition json_map :: "(json \<Rightarrow> 'a option) \<Rightarrow> json \<Rightarrow> (string, 'a) fmap option" where
  "json_map f j = (case j of JNull \<Rightarrow> Some fmempty | JObj js \<Rightarrow> members f js fmempty | _ \<Rightarrow> None)"

definition json_bool :: "json \<Rightarrow> bool option" where
  "json_bool j = (case j of JNull \<Rightarrow> Some False | JBool b \<Rightarrow> Some b | _ \<Rightarrow> None)"

definition Unmarshal :: "raw \<Rightarrow> permissionSet option" where
  "Unmarshal raw =
     (case raw of
        Json (Permissions ps) \<Rightarrow> Some ps
      | Json (OtherValue j) \<Rightarrow> json_map (json_map json_bool) j
      | _ \<Rightarrow> None)"

subsection \<open>The cache\<close>

record redisLRU =
  rl_prefix :: string
  rl_ttl :: int
  rl_cluster :: bool

definition NewRedisLRU :: "bool \<Rightarrow> string \<Rightarrow> int \<Rightarrow> redisLRU" where
  "NewRedisLRU cluster prefix ttl =
     \<lparr>rl_prefix = (if prefix = [] then ''rbacgo:cache:'' else prefix),
      rl_ttl = (if ttl \<le> 0 then five_minutes else ttl), rl_cluster = cluster\<rparr>"

definition redis_key :: "redisLRU \<Rightarrow> string \<Rightarrow> string" where
  "redis_key c k = rl_prefix c @ k"

definition ttlMilliseconds :: "redisLRU \<Rightarrow> int" where
  "ttlMilliseconds c = max 1 (rl_ttl c div 1000000)"

fun wrong_type :: "err \<Rightarrow> bool" where
  "wrong_type (ErrBackend text) = HasPrefix text ''WRONGTYPE''"
| "wrong_type _ = False"

definition redis_Get :: "redisLRU \<Rightarrow> ctx \<Rightarrow> string \<Rightarrow> redis \<Rightarrow> redis \<times> cache_value option" where
  "redis_Get c cx k rd =
     (let (rd, raw) = command (HGET_value (cx_now cx) (redis_key c k)) rd;
          (rd, raw) = (case raw of
             Inl e \<Rightarrow> if wrong_type e then command (GET (cx_now cx) (redis_key c k)) rd else (rd, raw)
           | Inr _ \<Rightarrow> (rd, raw))
      in (rd, case raw of Inl _ \<Rightarrow> None | Inr text \<Rightarrow> map_option Permissions (Unmarshal text)))"

definition redis_Generation :: "redisLRU \<Rightarrow> ctx \<Rightarrow> string \<Rightarrow> redis \<Rightarrow> redis \<times> string option" where
  "redis_Generation c cx k rd =
     (let (rd, r) = command (redisCacheGeneration (cx_now cx) (redis_key c k) (rd_text rd (rd_clock rd)) (ttlMilliseconds c)) rd
      in (rd, case r of Inl _ \<Rightarrow> None | Inr token \<Rightarrow> Some token))"

definition redis_SetIfGeneration :: "redisLRU \<Rightarrow> ctx \<Rightarrow> string \<Rightarrow> cache_value \<Rightarrow> string \<Rightarrow> redis \<Rightarrow> redis" where
  "redis_SetIfGeneration c cx k v generation rd =
     fst (command (redisCacheConditionalSet (cx_now cx) (redis_key c k) generation (Json v) (ttlMilliseconds c)) rd)"

definition redis_Set :: "redisLRU \<Rightarrow> ctx \<Rightarrow> string \<Rightarrow> cache_value \<Rightarrow> redis \<Rightarrow> redis" where
  "redis_Set c cx k v rd =
     fst (command (redisCacheSet (cx_now cx) (redis_key c k) (rd_text rd (rd_clock rd)) (Json v) (ttlMilliseconds c)) rd)"

definition Del :: "string list \<Rightarrow> redis \<Rightarrow> redis \<times> err option" where
  "Del keys rd =
     (let (rd, r) = command (\<lambda>items. (DEL keys items, Inr ())) rd in (rd, case r of Inl e \<Rightarrow> Some e | Inr _ \<Rightarrow> None))"

definition redis_Delete :: "redisLRU \<Rightarrow> string \<Rightarrow> redis \<Rightarrow> redis" where
  "redis_Delete c k rd = fst (Del [redis_key c k] rd)"

subsection \<open>Flushing\<close>

definition special :: "char \<Rightarrow> bool" where
  "special x \<longleftrightarrow> x \<in> {CHR 0x5C, CHR ''*'', CHR ''?'', CHR ''['', CHR '']''}"

definition escapeGlob :: "string \<Rightarrow> string" where
  "escapeGlob s = concat (map (\<lambda>x. if special x then [CHR 0x5C, x] else [x]) s)"

text \<open>The patterns of \<^verbatim>\<open>SCAN\<close>; a class has the characters it accepts and the length of its text.\<close>

function glob :: "(string \<Rightarrow> (char \<Rightarrow> bool) \<times> nat) \<Rightarrow> string \<Rightarrow> string \<Rightarrow> bool" where
  "glob cls [] s = (s = [])"
| "glob cls (x # p) [] = (x = CHR ''*'' \<and> glob cls p [])"
| "glob cls (x # p) (y # s) =
     (if x = CHR ''*'' then glob cls p (y # s) \<or> glob cls (x # p) s
      else if x = CHR ''?'' then glob cls p s
      else if x = CHR ''['' then fst (cls p) y \<and> glob cls (drop (snd (cls p)) p) s
      else if x = CHR 0x5C \<and> p \<noteq> [] then y = hd p \<and> glob cls (tl p) s
      else x = y \<and> glob cls p s)"
  by pat_completeness auto
termination
  by (relation "measure (\<lambda>(_, p, s). length p + length s)") auto

text \<open>One round of the loop for each page; the cursor is 0 after the last.\<close>

fun del_each :: "string list \<Rightarrow> redis \<Rightarrow> redis \<times> err option" where
  "del_each [] rd = (rd, None)"
| "del_each (key # keys) rd = (case Del [key] rd of (rd, Some e) \<Rightarrow> (rd, Some e) | (rd, None) \<Rightarrow> del_each keys rd)"

fun flushNode :: "bool \<Rightarrow> string list list \<Rightarrow> redis \<Rightarrow> redis \<times> err option" where
  "flushNode singleKey [] rd = (rd, None)"
| "flushNode singleKey (page # pages) rd =
     (case command (\<lambda>items. (items, Inr page)) rd of
        (rd, Inl e) \<Rightarrow> (rd, Some e)
      | (rd, Inr keys) \<Rightarrow>
          (case (if keys = [] then (rd, None) else if singleKey then del_each keys rd else Del keys rd) of
             (rd, Some e) \<Rightarrow> (rd, Some e)
           | (rd, None) \<Rightarrow> flushNode singleKey pages rd))"

definition scanned :: "redisLRU \<Rightarrow> (string \<Rightarrow> bool) \<Rightarrow> redis \<Rightarrow> string list list" where
  "scanned c mine rd =
     rd_scan rd (rd_clock rd) (ffilter (\<lambda>k. mine k \<and> glob (rd_class rd) (escapeGlob (rl_prefix c) @ ''*'') k) (fmdom (rd_items rd)))"

text \<open>
  \<^verbatim>\<open>ForEachMaster\<close> runs the function for every primary and reports an error of one of them. The
  primaries hold different keys, so their order does not matter.
\<close>

fun forEachMaster :: "(nat \<Rightarrow> redis \<Rightarrow> redis \<times> err option) \<Rightarrow> nat list \<Rightarrow> redis \<Rightarrow> redis \<times> err option" where
  "forEachMaster f [] rd = (rd, None)"
| "forEachMaster f (n # ns) rd =
     (let (rd, e) = f n rd; (rd, e') = forEachMaster f ns rd in (rd, case e of Some e \<Rightarrow> Some e | None \<Rightarrow> e'))"

definition redis_FlushContext :: "redisLRU \<Rightarrow> redis \<Rightarrow> redis \<times> err option" where
  "redis_FlushContext c rd =
     (if rl_cluster c
      then forEachMaster (\<lambda>n rd. flushNode True (scanned c (\<lambda>k. rd_node rd k = n) rd) rd) [0..<rd_nodes rd] rd
      else flushNode False (scanned c (\<lambda>_. True) rd) rd)"

definition redis_Flush :: "redisLRU \<Rightarrow> redis \<Rightarrow> redis" where
  "redis_Flush c rd = fst (redis_FlushContext c rd)"

definition redis_ops :: "redisLRU \<Rightarrow> redis cache_ops" where
  "redis_ops c =
     \<lparr>ca_Get = redis_Get c, ca_Set = redis_Set c, ca_Delete = (\<lambda>_. redis_Delete c), ca_Flush = (\<lambda>_. redis_Flush c),
      ca_FlushContext = Some (redis_FlushContext c),
      ca_Generations = Some \<lparr>cg_Generation = redis_Generation c, cg_SetIfGeneration = redis_SetIfGeneration c\<rparr>\<rparr>"

subsection \<open>The policy version\<close>

text \<open>\<^verbatim>\<open>INCR\<close> takes a missing key for 0, keeps the expiry and refuses to leave the 64-bit range.\<close>

definition INCR :: "int \<Rightarrow> string \<Rightarrow> redis_items \<Rightarrow> redis_items \<times> (err + int)" where
  "INCR now key items =
     (case live now items key of
        None \<Rightarrow> (fmupd key \<lparr>it_data = Text (Number 1), it_expires = None\<rparr> items, Inr 1)
      | Some (Text (Number n)) \<Rightarrow>
          if n < - (2 ^ 63) \<or> n \<ge> 2 ^ 63 then (items, Inl (ErrBackend ''ERR value is not an integer or out of range''))
          else if n = 2 ^ 63 - 1 then (items, Inl (ErrBackend ''ERR increment or decrement would overflow''))
          else (fmupd key \<lparr>it_data = Text (Number (n + 1)),
                  it_expires = Option.bind (fmlookup items key) it_expires\<rparr> items, Inr (n + 1))
      | Some (Text _) \<Rightarrow> (items, Inl (ErrBackend ''ERR value is not an integer or out of range''))
      | Some _ \<Rightarrow> (items, Inl WRONGTYPE))"

definition NewRedisPolicyVersion :: "string \<Rightarrow> string" where
  "NewRedisPolicyVersion key = (if key = [] then ''rbacgo:policy_version'' else key)"

text \<open>\<^verbatim>\<open>Int64\<close> parses the text of the key.\<close>

definition Int64 :: "raw \<Rightarrow> err + int" where
  "Int64 raw =
     (case raw of
        Number n \<Rightarrow> if - (2 ^ 63) \<le> n \<and> n < 2 ^ 63 then Inr n else Inl (ErrBackend ''value out of range'')
      | _ \<Rightarrow> Inl (ErrBackend ''invalid syntax''))"

definition redis_PolicyVersion :: "string \<Rightarrow> ctx \<Rightarrow> redis \<Rightarrow> err + 64 word" where
  "redis_PolicyVersion key cx rd =
     (case cx_Err cx of Some e \<Rightarrow> Inl e | None \<Rightarrow>
        (case snd (command (GET (cx_now cx) key) rd) of
           Inl e \<Rightarrow> if e = redis_Nil then Inr 0 else Inl e
         | Inr raw \<Rightarrow> (case Int64 raw of Inl e \<Rightarrow> Inl e | Inr v \<Rightarrow> Inr (word_of_int v))))"

definition redis_NextPolicyVersion :: "string \<Rightarrow> ctx \<Rightarrow> redis \<Rightarrow> redis \<times> (err + 64 word)" where
  "redis_NextPolicyVersion key cx rd =
     (case cx_Err cx of Some e \<Rightarrow> (rd, Inl e) | None \<Rightarrow>
        (case command (INCR (cx_now cx) key) rd of
           (rd, Inl e) \<Rightarrow> (rd, Inl e)
         | (rd, Inr v) \<Rightarrow> (rd, Inr (word_of_int v))))"

definition redis_versions :: "string \<Rightarrow> redis policy_versioner" where
  "redis_versions key = \<lparr>pv_Current = redis_PolicyVersion key, pv_Next = redis_NextPolicyVersion key\<rparr>"

subsection \<open>The contract of a cache\<close>

text \<open>
  A server that answers: no command fails, an iteration with \<^verbatim>\<open>SCAN\<close> returns the matching keys (a key
  whose expiry has passed is returned or gone), and every key has a primary. What a key holds for the
  cache is bounded without regard to the expiry.
\<close>

definition answers :: "redisLRU \<Rightarrow> redis \<Rightarrow> bool" where
  "answers c rd \<longleftrightarrow> (\<forall>n. rd_answers rd n = Answered) \<and> (\<forall>n K. set (concat (rd_scan rd n K)) = fset K) \<and>
     (\<forall>k. rd_node rd k < rd_nodes rd)"

fun text_of :: "redis_data \<Rightarrow> raw option" where
  "text_of (Hash _ v) = v"
| "text_of (Text raw) = Some raw"
| "text_of OtherType = None"

definition cached :: "redisLRU \<Rightarrow> redis_items \<Rightarrow> string \<Rightarrow> cache_value \<Rightarrow> bool" where
  "cached c items k v \<longleftrightarrow> (\<exists>it raw ps. fmlookup items (redis_key c k) = Some it \<and> text_of (it_data it) = Some raw \<and>
     Unmarshal raw = Some ps \<and> v = Permissions ps)"

definition redis_holds :: "redisLRU \<Rightarrow> redis \<Rightarrow> string \<Rightarrow> cache_value \<Rightarrow> bool" where
  "redis_holds c rd = cached c (rd_items rd)"

definition redis_valid :: "redisLRU \<Rightarrow> redis \<Rightarrow> string \<Rightarrow> string \<Rightarrow> bool" where
  "redis_valid c rd k t \<longleftrightarrow>
     (\<exists>v x. fmlookup (rd_items rd) (redis_key c k) = Some \<lparr>it_data = Hash (Some t) v, it_expires = x\<rparr>)"

lemma redis_key_inject [simp]: "redis_key c k = redis_key c k' \<longleftrightarrow> k = k'"
  by (simp add: redis_key_def)

lemma command_keeps:
  "rd_answers (fst (command f rd)) = rd_answers rd" "rd_scan (fst (command f rd)) = rd_scan rd"
  "rd_nodes (fst (command f rd)) = rd_nodes rd" "rd_node (fst (command f rd)) = rd_node rd"
  "rd_class (fst (command f rd)) = rd_class rd"
  by (simp_all add: command_def Let_def split: prod.splits answer.splits)

lemma answers_command [simp]: "answers c (fst (command f rd)) \<longleftrightarrow> answers c rd"
  by (simp add: answers_def command_keeps)

lemma command_items: "rd_items (fst (command f rd)) \<in> {rd_items rd, fst (f (rd_items rd))}"
  by (simp add: command_def Let_def split: prod.splits answer.splits)

lemma command_inv:
  assumes "P (rd_items rd)" and "\<And>items. P items \<Longrightarrow> P (fst (f items))"
  shows "P (rd_items (fst (command f rd)))"
  using command_items [of f rd] assms by auto

lemma command_answered:
  assumes "answers c rd"
  shows "rd_items (fst (command f rd)) = fst (f (rd_items rd))" and "snd (command f rd) = snd (f (rd_items rd))"
  using assms by (simp_all add: command_def answers_def Let_def split: prod.splits)

lemma command_result: "snd (command f rd) = Inr x \<Longrightarrow> snd (f (rd_items rd)) = Inr x"
  by (simp add: command_def Let_def split: prod.splits answer.splits)

lemma answers_Get [simp]: "answers c (fst (redis_Get c' cx k rd)) \<longleftrightarrow> answers c rd"
  by (simp add: redis_Get_def split_beta split: sum.split)

lemma answers_Del [simp]: "answers c (fst (Del keys rd)) \<longleftrightarrow> answers c rd"
  by (simp add: Del_def split_beta)

lemma live_Some: "live now items key = Some d \<Longrightarrow> \<exists>x. fmlookup items key = Some \<lparr>it_data = d, it_expires = x\<rparr>"
  by (auto simp: live_def split: option.splits if_splits intro!: redis_item.equality)

lemma set_script:
  "fst (redisCacheSet now key fresh raw ttl items) =
     fmupd key \<lparr>it_data = Hash (Some fresh) (Some raw), it_expires = Some (now + ttl * 1000000)\<rparr> items"
  by (rule fmap_ext) (simp add: redisCacheSet_def PEXPIRE_def HSET_def DEL_def live_def)

lemma generation_script:
  "fst (redisCacheGeneration now key fresh ttl items) =
     (case live now items key of
        Some (Hash (Some _) _) \<Rightarrow> items
      | _ \<Rightarrow> fmupd key \<lparr>it_data = Hash (Some fresh) None, it_expires = Some (now + ttl * 1000000)\<rparr> items)"
proof -
  have "PEXPIRE now key ttl (HSET now key (\<lambda>_. Hash (Some fresh)) (DEL [key] items)) =
      fmupd key \<lparr>it_data = Hash (Some fresh) None, it_expires = Some (now + ttl * 1000000)\<rparr> items"
    by (rule fmap_ext) (simp add: PEXPIRE_def HSET_def DEL_def live_def)
  then show ?thesis
    by (simp add: redisCacheGeneration_def Let_def split: option.split redis_data.split)
qed

lemma conditional_script:
  "fst (redisCacheConditionalSet now key generation raw ttl items) =
     (case live now items key of
        Some (Hash g _) \<Rightarrow>
          if g \<noteq> Some generation then items
          else fmupd key \<lparr>it_data = Hash g (Some raw), it_expires = Some (now + ttl * 1000000)\<rparr> items
      | _ \<Rightarrow> items)"
proof -
  have "PEXPIRE now key ttl (HSET now key (\<lambda>g _. Hash g (Some raw)) items) =
      fmupd key \<lparr>it_data = Hash g (Some raw), it_expires = Some (now + ttl * 1000000)\<rparr> items"
    if "live now items key = Some (Hash g v)" for g v
    using that by (intro fmap_ext) (auto simp: PEXPIRE_def HSET_def live_def split: option.splits if_splits)
  then show ?thesis by (auto simp: redisCacheConditionalSet_def split: option.split redis_data.split)
qed

lemma cached_upd:
  "cached c (fmupd (redis_key c k) it items) k' v \<longleftrightarrow>
     (if k' = k then \<exists>raw ps. text_of (it_data it) = Some raw \<and> Unmarshal raw = Some ps \<and> v = Permissions ps
      else cached c items k' v)"
  by (auto simp: cached_def)

lemma cached_DEL: "cached c (DEL keys items) k v \<longleftrightarrow> redis_key c k \<notin> set keys \<and> cached c items k v"
  by (auto simp: cached_def DEL_def)

lemma Unmarshal_Permissions [simp]: "Unmarshal (Json (Permissions ps)) = Some ps"
  by (simp add: Unmarshal_def)

subsubsection \<open>Get\<close>

lemma read_items [simp]: "fst (HGET_value now key items) = items" "fst (GET now key items) = items"
  by (simp_all add: HGET_value_def GET_def)

lemma read_command [simp]:
  "rd_items (fst (command (HGET_value now key) rd)) = rd_items rd"
  "rd_items (fst (command (GET now key) rd)) = rd_items rd"
  using command_items [of "HGET_value now key" rd] command_items [of "GET now key" rd] by simp_all

lemma redis_Get_items [simp]: "rd_items (fst (redis_Get c cx k rd)) = rd_items rd"
  by (simp add: redis_Get_def split_beta split: sum.split)

text \<open>An answer is stored at the key, unexpired.\<close>

definition readable :: "int \<Rightarrow> redis_item \<Rightarrow> bool" where
  "readable now it \<longleftrightarrow> (case it_expires it of None \<Rightarrow> True | Some t \<Rightarrow> now \<le> t)"

lemma live_readable: "live now items key = Some d \<Longrightarrow> \<exists>it. fmlookup items key = Some it \<and> it_data it = d \<and> readable now it"
  by (auto simp: live_def readable_def split: option.splits if_splits)

lemma read_stored:
  "snd (command (HGET_value now key) rd) = Inr raw \<or> snd (command (GET now key) rd) = Inr raw \<Longrightarrow>
     \<exists>it. fmlookup (rd_items rd) key = Some it \<and> text_of (it_data it) = Some raw \<and> readable now it"
  by (auto dest!: command_result simp: HGET_value_def GET_def dest!: live_readable
      split: option.splits redis_data.splits)

lemma redis_Get_stored:
  assumes "snd (redis_Get c cx k rd) = Some v"
  shows "\<exists>it raw ps. fmlookup (rd_items rd) (redis_key c k) = Some it \<and> text_of (it_data it) = Some raw \<and>
    Unmarshal raw = Some ps \<and> v = Permissions ps \<and> readable (cx_now cx) it"
proof -
  let ?h = "command (HGET_value (cx_now cx) (redis_key c k)) rd"
  let ?g = "command (GET (cx_now cx) (redis_key c k)) (fst ?h)"
  obtain raw ps where raw: "snd ?h = Inr raw \<or> snd ?g = Inr raw" and ps: "Unmarshal raw = Some ps" "v = Permissions ps"
    using assms by (auto simp: redis_Get_def split_beta split: sum.splits if_splits)
  then show ?thesis using read_stored [of "cx_now cx" "redis_key c k" rd raw]
      read_stored [of "cx_now cx" "redis_key c k" "fst ?h" raw] by auto
qed

subsubsection \<open>Flush\<close>

lemma glob_star [simp]: "glob cls ''*'' s"
  by (induction s) simp_all

lemma glob_escaped: "glob cls (escapeGlob p @ ''*'') s \<longleftrightarrow> HasPrefix s p"
proof (induction p arbitrary: s)
  case (Cons x p)
  then show ?case
    by (cases s) (auto simp: escapeGlob_def special_def HasPrefix_def)
qed (simp add: escapeGlob_def HasPrefix_def)

lemma Del_items: "rd_items (fst (Del keys rd)) \<in> {rd_items rd, DEL keys (rd_items rd)}"
  using command_items [of "\<lambda>items. (DEL keys items, Inr ())" rd] by (simp add: Del_def split_beta)

lemma Del_answered:
  "answers c rd \<Longrightarrow> Del keys rd = (rd', e) \<Longrightarrow>
     e = None \<and> rd_items rd' = DEL keys (rd_items rd) \<and> answers c rd' \<and> rd_node rd' = rd_node rd"
  by (auto simp: Del_def split_beta command_answered command_keeps)

text \<open>Whatever fails, a flush only deletes.\<close>

definition del_closed :: "(redis_items \<Rightarrow> bool) \<Rightarrow> bool" where
  "del_closed P \<longleftrightarrow> (\<forall>keys items. P items \<longrightarrow> P (DEL keys items))"

lemma Del_inv: "del_closed P \<Longrightarrow> P (rd_items rd) \<Longrightarrow> P (rd_items (fst (Del keys rd)))"
  using Del_items [of keys rd] by (auto simp: del_closed_def)

lemma del_each_inv: "del_closed P \<Longrightarrow> P (rd_items rd) \<Longrightarrow> P (rd_items (fst (del_each keys rd)))"
proof (induction keys arbitrary: rd)
  case (Cons key keys)
  then show ?case using Del_inv [OF Cons.prems, of "[key]"] by (auto split: prod.splits option.splits)
qed simp

lemma flushNode_inv: "del_closed P \<Longrightarrow> P (rd_items rd) \<Longrightarrow> P (rd_items (fst (flushNode one pages rd)))"
proof (induction pages arbitrary: rd)
  case (Cons page pages)
  obtain rd1 r where scan: "command (\<lambda>items. (items, Inr page)) rd = (rd1, r)" by force
  with Cons.prems command_inv [of P rd "\<lambda>items. (items, Inr page)"] have rd1: "P (rd_items rd1)" by simp
  show ?case
    using Cons.IH [OF Cons.prems(1)] Del_inv [OF Cons.prems(1) rd1] del_each_inv [OF Cons.prems(1) rd1] rd1
    by (auto simp: scan split: sum.splits prod.splits option.splits) (metis fst_conv)+
qed simp

lemma forEachMaster_inv:
  assumes "\<And>n rd. P (rd_items rd) \<Longrightarrow> P (rd_items (fst (f n rd)))" and "P (rd_items rd)"
  shows "P (rd_items (fst (forEachMaster f ns rd)))"
  using assms(2) by (induction ns arbitrary: rd) (simp_all add: assms(1) split_beta)

lemma flush_inv: "del_closed P \<Longrightarrow> P (rd_items rd) \<Longrightarrow> P (rd_items (fst (redis_FlushContext c rd)))"
  by (simp add: redis_FlushContext_def flushNode_inv forEachMaster_inv)

text \<open>With a server that answers it deletes every key of the cache and succeeds.\<close>

lemma DEL_DEL: "DEL keys (DEL keys' items) = DEL (keys' @ keys) items"
  by (rule fmap_ext) (simp add: DEL_def)

lemma del_each_answered:
  assumes "answers c rd" and "del_each keys rd = (rd', e)"
  shows "e = None \<and> rd_items rd' = DEL keys (rd_items rd) \<and> answers c rd' \<and> rd_node rd' = rd_node rd"
  using assms
proof (induction keys arbitrary: rd)
  case (Cons key keys)
  obtain rd1 e1 where del: "Del [key] rd = (rd1, e1)" by force
  from Del_answered [OF Cons.prems(1) this] have rd1: "e1 = None" "rd_items rd1 = DEL [key] (rd_items rd)"
      "answers c rd1" "rd_node rd1 = rd_node rd" by simp_all
  from Cons.IH [OF rd1(3)] Cons.prems(2) show ?case by (simp add: del rd1 DEL_DEL)
qed (simp add: DEL_def)

lemma flushNode_answered:
  assumes "answers c rd" and "flushNode one pages rd = (rd', e)"
  shows "e = None \<and> rd_items rd' = DEL (concat pages) (rd_items rd) \<and> answers c rd' \<and> rd_node rd' = rd_node rd"
  using assms
proof (induction pages arbitrary: rd)
  case (Cons page pages)
  define rd1 where "rd1 = fst (command (\<lambda>items. (items, Inr page :: err + string list)) rd)"
  have scan: "command (\<lambda>items. (items, Inr page)) rd = (rd1, Inr page)"
    by (simp add: rd1_def prod_eq_iff command_answered(2) [OF Cons.prems(1)])
  have rd1: "answers c rd1" "rd_node rd1 = rd_node rd" "rd_items rd1 = rd_items rd"
    using Cons.prems(1) by (simp_all add: rd1_def command_keeps command_answered(1) [OF Cons.prems(1)])
  define rest where "rest = (if page = [] then (rd1, None) else if one then del_each page rd1 else Del page rd1)"
  obtain rd2 e2 where rest2: "rest = (rd2, e2)" by force
  have rd2: "e2 = None" "rd_items rd2 = DEL page (rd_items rd)" "answers c rd2" "rd_node rd2 = rd_node rd"
    using rest2 del_each_answered [OF rd1(1), of page rd2 e2] Del_answered [OF rd1(1), of page rd2 e2] rd1
    by (auto simp: rest_def DEL_def split: if_splits)
  have "flushNode one pages rd2 = (rd', e)"
    using Cons.prems(2) rest2 rd2(1) by (simp add: scan rest_def)
  from Cons.IH [OF rd2(3) this] rd2 show ?case by (simp add: DEL_DEL)
qed (simp add: DEL_def)

lemma scanned_keys:
  "answers c rd \<Longrightarrow> set (concat (scanned c mine rd)) =
     {k. k |\<in>| fmdom (rd_items rd) \<and> mine k \<and> HasPrefix k (rl_prefix c)}"
  by (auto simp: scanned_def answers_def glob_escaped)

lemma flush_answered:
  assumes "answers c rd"
  shows "\<exists>rd'. redis_FlushContext c rd = (rd', None) \<and> answers c rd' \<and>
    (\<forall>k. redis_key c k |\<notin>| fmdom (rd_items rd'))"
proof (cases "rl_cluster c")
  case False
  obtain rd' e where run: "flushNode False (scanned c (\<lambda>_. True) rd) rd = (rd', e)" by force
  from flushNode_answered [OF assms run] scanned_keys [OF assms, of "\<lambda>_. True"] False show ?thesis
    by (auto simp: redis_FlushContext_def run DEL_def redis_key_def fmlookup_dom_iff)
next
  case True
  have "\<exists>rd'. forEachMaster (\<lambda>n rd. flushNode True (scanned c (\<lambda>k. rd_node rd k = n) rd) rd) ns rd0 = (rd', None) \<and>
      answers c rd' \<and> rd_node rd' = rd_node rd0 \<and>
      (\<forall>k. k |\<in>| fmdom (rd_items rd') \<and> HasPrefix k (rl_prefix c) \<longrightarrow> k |\<in>| fmdom (rd_items rd0) \<and> rd_node rd0 k \<notin> set ns)"
    if "answers c rd0" for ns rd0
    using that
  proof (induction ns arbitrary: rd0)
    case (Cons n ns)
    let ?pages = "scanned c (\<lambda>k. rd_node rd0 k = n) rd0"
    obtain rd1 e where run: "flushNode True ?pages rd0 = (rd1, e)" by force
    from flushNode_answered [OF Cons.prems run]
    have rd1: "e = None" "rd_items rd1 = DEL (concat ?pages) (rd_items rd0)" "answers c rd1" "rd_node rd1 = rd_node rd0"
      by simp_all
    from Cons.IH [OF rd1(3)] obtain rd' where "forEachMaster (\<lambda>n rd. flushNode True (scanned c (\<lambda>k. rd_node rd k = n) rd) rd) ns rd1 = (rd', None)"
      and "answers c rd'" and "rd_node rd' = rd_node rd1"
      and "\<And>k. k |\<in>| fmdom (rd_items rd') \<Longrightarrow> HasPrefix k (rl_prefix c) \<Longrightarrow> k |\<in>| fmdom (rd_items rd1) \<and> rd_node rd1 k \<notin> set ns"
      by auto
    moreover have "k |\<in>| fmdom (rd_items rd0) \<and> rd_node rd0 k \<noteq> n"
      if "k |\<in>| fmdom (rd_items rd1)" "HasPrefix k (rl_prefix c)" for k
    proof -
      have "k |\<in>| fmdom (rd_items rd0) \<and> k \<notin> set (concat ?pages)"
        using that(1) by (simp add: rd1 DEL_def fmlookup_dom_iff del: set_concat split: if_splits)
      then show ?thesis
        unfolding scanned_keys [OF Cons.prems] using that(2) by simp
    qed
    ultimately show ?case by (auto simp: run rd1)
  qed simp
  from this [OF assms, of "[0..<rd_nodes rd]"] obtain rd' where run: "redis_FlushContext c rd = (rd', None)" "answers c rd'"
    and left: "\<And>k. k |\<in>| fmdom (rd_items rd') \<Longrightarrow> HasPrefix k (rl_prefix c) \<Longrightarrow> rd_node rd k \<notin> {0..<rd_nodes rd}"
    using True by (auto simp: redis_FlushContext_def)
  have "redis_key c k |\<notin>| fmdom (rd_items rd')" for k
    using left [of "redis_key c k"] assms by (auto simp: redis_key_def answers_def)
  with run show ?thesis by blast
qed

lemma flush_not_cached:
  "answers c rd \<Longrightarrow> \<not> redis_holds c (fst (redis_FlushContext c rd)) k v \<and>
     \<not> redis_valid c (fst (redis_FlushContext c rd)) k t \<and> answers c (fst (redis_FlushContext c rd))"
  using flush_answered [of c rd] by (auto simp: redis_holds_def cached_def redis_valid_def fmlookup_dom_iff)

subsubsection \<open>The interpretation\<close>

lemma set_holds:
  assumes "answers c rd" and "redis_holds c (redis_Set c cx k (Permissions ps) rd) k' v"
  shows "if k' = k then v = Permissions ps else redis_holds c rd k' v"
  using assms(2) by (auto simp: redis_holds_def redis_Set_def command_answered [OF assms(1)] set_script cached_upd)

lemma generation_holds:
  assumes "answers c rd" and "redis_holds c (fst (redis_Generation c cx k rd)) k' v"
  shows "redis_holds c rd k' v"
  using assms(2) by (auto simp: redis_holds_def redis_Generation_def split_beta command_answered [OF assms(1)]
      generation_script cached_upd split: option.splits redis_data.splits if_splits)

lemma generation_valid:
  assumes "answers c rd" and "redis_Generation c cx k rd = (rd', Some t)"
  shows "redis_valid c rd' k t"
proof -
  let ?script = "redisCacheGeneration (cx_now cx) (redis_key c k) (rd_text rd (rd_clock rd)) (ttlMilliseconds c)"
  have t: "snd (?script (rd_items rd)) = Inr t" and rd': "rd' = fst (command ?script rd)"
    using assms by (auto simp: redis_Generation_def split_beta command_answered [OF assms(1)] split: sum.splits)
  have items: "rd_items rd' = fst (?script (rd_items rd))" by (simp add: rd' command_answered [OF assms(1)])
  show ?thesis
  proof (cases "\<exists>g v. live (cx_now cx) (rd_items rd) (redis_key c k) = Some (Hash (Some g) v)")
    case True
    then obtain g v where g: "live (cx_now cx) (rd_items rd) (redis_key c k) = Some (Hash (Some g) v)" by blast
    from live_Some [OF g] t items g show ?thesis
      by (auto simp: redis_valid_def redisCacheGeneration_def Let_def)
  next
    case False
    then have "snd (?script (rd_items rd)) = Inr (rd_text rd (rd_clock rd))"
      by (auto simp: redisCacheGeneration_def Let_def split: option.split redis_data.split)
    with t False items show ?thesis
      by (auto simp: redis_valid_def generation_script split: option.splits redis_data.splits)
  qed
qed

lemma set_if_holds:
  assumes "answers c rd" and "redis_holds c (redis_SetIfGeneration c cx k (Permissions ps) t rd) k' v"
  shows "redis_holds c rd k' v \<or> (k' = k \<and> v = Permissions ps \<and> redis_valid c rd k t)"
  using assms(2) by (auto simp: redis_holds_def redis_SetIfGeneration_def command_answered [OF assms(1)]
      conditional_script cached_upd redis_valid_def dest!: live_Some split: option.splits redis_data.splits if_splits)

interpretation redis: cache_backend "redis_ops c" "answers c" "redis_holds c" "redis_valid c" for c
proof unfold_locales
  fix rd cx k k' v t ps
  assume rd: "answers c rd"
  show "redis_holds c rd k v" if "ca_Get (redis_ops c) cx k rd = (rd', Some v)" for rd'
    using redis_Get_stored [of c cx k rd v] that by (auto simp: redis_ops_def redis_holds_def cached_def)
  show "redis_holds c (ca_Delete (redis_ops c) cx k rd) k' v \<Longrightarrow> k' \<noteq> k \<and> redis_holds c rd k' v"
    using Del_answered [OF rd prod.collapse [symmetric], of "[redis_key c k]"] by (auto simp: redis_ops_def redis_Delete_def redis_holds_def cached_DEL)
  show "redis_valid c rd k t \<Longrightarrow> \<not> redis_valid c (ca_Delete (redis_ops c) cx k rd) k t"
    using Del_answered [OF rd prod.collapse [symmetric], of "[redis_key c k]"] by (auto simp: redis_ops_def redis_Delete_def redis_valid_def DEL_def)
  show "redis_holds c (ca_Set (redis_ops c) cx k (Permissions ps) rd) k' v \<Longrightarrow>
      if k' = k then v = Permissions ps else redis_holds c rd k' v"
    using set_holds [OF rd] by (simp add: redis_ops_def)
  show "redis_holds c (fst (cg_Generation g cx k rd)) k' v \<Longrightarrow> redis_holds c rd k' v"
    if "ca_Generations (redis_ops c) = Some g" for g
    using generation_holds [OF rd] that by (auto simp: redis_ops_def)
  show "redis_valid c rd' k t" if "ca_Generations (redis_ops c) = Some g" "cg_Generation g cx k rd = (rd', Some t)" for g rd'
    using generation_valid [OF rd] that by (auto simp: redis_ops_def)
  show "redis_holds c (cg_SetIfGeneration g cx k (Permissions ps) t rd) k' v \<Longrightarrow>
      redis_holds c rd k' v \<or> k' = k \<and> v = Permissions ps \<and> redis_valid c rd k t"
    if "ca_Generations (redis_ops c) = Some g" for g
    using set_if_holds [OF rd, of cx k ps t k' v] that by (auto simp: redis_ops_def)
qed (auto simp: redis_ops_def redis_holds_def redis_Flush_def redis_Set_def redis_SetIfGeneration_def redis_Generation_def
    redis_Delete_def split_beta flush_not_cached [unfolded redis_holds_def] split: sum.splits)

end
