(* ===== verification/SqlTables.thy ===== *)
theory SqlTables
  imports RbacSpec "HOL-Library.Product_Lexorder"
begin

text \<open>
  What \<^verbatim>\<open>sqlstore.go\<close> and \<^verbatim>\<open>sql_extensions.go\<close> ask of the database: the tables of the schema and one
  function per statement, with the meaning that SQL gives to its text. A table with a primary key is a
  finite set of rows, or a finite map if it has one payload column. The payloads of rules and metadata
  are JSON texts; what counts is the value they decode to, and the model keeps that value.
\<close>

subsection \<open>Dialects and names\<close>

datatype dialect = SQLite | Postgres | MySQL

text \<open>What the options of the constructor set.\<close>

record sql_config =
  sc_dialect :: dialect
  sc_tablePrefix :: string

type_synonym sql_option = "sql_config \<Rightarrow> err + sql_config"

definition WithSQLDialect :: "string \<Rightarrow> sql_option" where
  "WithSQLDialect d s =
     (if d = ''sqlite'' then Inr (s\<lparr>sc_dialect := SQLite\<rparr>)
      else if d = ''postgres'' then Inr (s\<lparr>sc_dialect := Postgres\<rparr>)
      else if d = ''mysql'' then Inr (s\<lparr>sc_dialect := MySQL\<rparr>)
      else Inl (ErrConfig ''rbacgo: unsupported SQL dialect''))"

definition name_char :: "char \<Rightarrow> bool" where
  "name_char c \<longleftrightarrow> (CHR ''a'' \<le> c \<and> c \<le> CHR ''z'') \<or> (CHR ''A'' \<le> c \<and> c \<le> CHR ''Z'') \<or>
     (CHR ''0'' \<le> c \<and> c \<le> CHR ''9'') \<or> c = CHR ''_''"

definition validTablePrefix :: "string \<Rightarrow> bool" where
  "validTablePrefix prefix \<longleftrightarrow>
     prefix = [] \<or> (\<not> (CHR ''0'' \<le> hd prefix \<and> hd prefix \<le> CHR ''9'') \<and> list_all name_char prefix)"

definition WithTablePrefix :: "string \<Rightarrow> sql_option" where
  "WithTablePrefix prefix s =
     (if \<not> validTablePrefix prefix then Inl (ErrConfig ''rbacgo: invalid table prefix'')
      else Inr (s\<lparr>sc_tablePrefix := prefix\<rparr>))"

text \<open>The tables that a store with this prefix uses.\<close>

definition table_names :: "string \<Rightarrow> string list" where
  "table_names tablePrefix = map ((@) tablePrefix)
     [''roles'', ''role_permissions'', ''role_parents'', ''role_assignments'', ''meta'', ''role_rules'', ''role_metadata'']"

text \<open>Stores with different prefixes share no table: no name of a table ends with another.\<close>

lemma no_table_ends_with_another:
  "list_all (\<lambda>t. list_all (\<lambda>u. drop (length u - length t) u = t \<longrightarrow> t = u) (table_names [])) (table_names [])"
  by code_simp

lemma table_names_apart:
  assumes "p \<noteq> q"
  shows "set (table_names p) \<inter> set (table_names q) = {}"
proof -
  have False if "t \<in> set (table_names [])" "u \<in> set (table_names [])" and eq: "p @ t = q @ u" for t u
  proof -
    obtain v where "v @ t = u \<or> v @ u = t" using eq by (metis append_eq_append_conv2)
    then have "drop (length u - length t) u = t \<or> drop (length t - length u) t = u" by auto
    then have "t = u" using no_table_ends_with_another that(1,2) by (auto simp: list_all_iff)
    with eq assms show False by simp
  qed
  then show ?thesis by (force simp: table_names_def)
qed

subsection \<open>Matching a prefix\<close>

text \<open>\<^verbatim>\<open>column LIKE pattern ESCAPE e\<close>, \<^verbatim>\<open>instr(column, text)\<close> and \<^verbatim>\<open>strings.ReplaceAll\<close> of one character.\<close>

function like :: "char \<Rightarrow> string \<Rightarrow> string \<Rightarrow> bool" where
  "like e [] s \<longleftrightarrow> s = []"
| "like e (c # p) s \<longleftrightarrow>
     (if c = e then (case p of [] \<Rightarrow> False | x # p' \<Rightarrow> (case s of [] \<Rightarrow> False | y # s' \<Rightarrow> x = y \<and> like e p' s'))
      else if c = CHR ''%'' then like e p s \<or> (case s of [] \<Rightarrow> False | _ # s' \<Rightarrow> like e (c # p) s')
      else (case s of [] \<Rightarrow> False | y # s' \<Rightarrow> (c = CHR ''_'' \<or> c = y) \<and> like e p s'))"
  by pat_completeness auto

termination by (relation "measure (\<lambda>(e, p, s). length p + length s)") auto

fun instr :: "string \<Rightarrow> string \<Rightarrow> nat" where
  "instr [] p = (if p = [] then 1 else 0)"
| "instr (c # s) p = (if HasPrefix (c # s) p then 1 else let k = instr s p in if k = 0 then 0 else Suc k)"

definition replace_char :: "char \<Rightarrow> string \<Rightarrow> string \<Rightarrow> string" where
  "replace_char c new s = concat (map (\<lambda>x. if x = c then new else [x]) s)"

definition backslash :: char where "backslash = CHR 0x5C"

definition escapeLike :: "string \<Rightarrow> string" where
  "escapeLike s =
     (let s = replace_char backslash [backslash, backslash] s;
          s = replace_char (CHR ''%'') [backslash, CHR ''%''] s
      in replace_char (CHR ''_'') [backslash, CHR ''_''] s)"

text \<open>The replacer for MySQL replaces the three characters in one pass.\<close>

definition escapeMySQL :: "string \<Rightarrow> string" where
  "escapeMySQL s = concat (map (\<lambda>c. if c = CHR ''='' \<or> c = CHR ''%'' \<or> c = CHR ''_'' then [CHR ''='', c] else [c]) s)"

definition pattern_of :: "dialect \<Rightarrow> string \<Rightarrow> string" where
  "pattern_of d prefix =
     (case d of SQLite \<Rightarrow> prefix | Postgres \<Rightarrow> escapeLike prefix @ ''%'' | MySQL \<Rightarrow> escapeMySQL prefix @ ''%'')"

definition prefixFilter :: "dialect \<Rightarrow> string \<Rightarrow> string \<Rightarrow> bool" where
  "prefixFilter d pattern column =
     (case d of
        SQLite \<Rightarrow> instr column pattern = 1
      | Postgres \<Rightarrow> like backslash pattern column
      | MySQL \<Rightarrow> like (CHR ''='') pattern column)"

lemma instr_first: "p \<noteq> [] \<Longrightarrow> instr s p = 1 \<longleftrightarrow> HasPrefix s p"
  by (cases s) (auto simp: Let_def HasPrefix_iff dest: sym)

lemma like_any [simp]:
  assumes "e \<noteq> CHR ''%''"
  shows "like e ''%'' s"
proof (induction s)
  case (Cons c s)
  have "like e ''%'' (c # s) \<longleftrightarrow> like e [] (c # s) \<or> like e ''%'' s"
    using assms like.simps(2) [of e "CHR ''%''" "[]" "c # s"] by (simp del: like.simps)
  with Cons.IH show ?case by (simp only: simp_thms)
qed (use assms in simp)

text \<open>A pattern in which every special character is escaped stands for itself.\<close>

definition escaped :: "char \<Rightarrow> char \<Rightarrow> string" where
  "escaped e c = (if c = e \<or> c = CHR ''%'' \<or> c = CHR ''_'' then [e, c] else [c])"

lemma like_escaped:
  assumes "e \<noteq> CHR ''%''" and "e \<noteq> CHR ''_''"
  shows "like e (concat (map (escaped e) p) @ ''%'') s \<longleftrightarrow> HasPrefix s p"
proof (induction p arbitrary: s)
  case Nil
  with assms(1) show ?case by (simp add: HasPrefix_iff del: like.simps)
next
  case (Cons c p)
  with assms show ?case by (cases s) (auto simp: escaped_def HasPrefix_iff)
qed

lemma escapeLike_escaped: "escapeLike s = concat (map (escaped backslash) s)"
  by (induction s) (auto simp: escapeLike_def replace_char_def escaped_def backslash_def Let_def)

lemma escapeMySQL_escaped: "escapeMySQL s = concat (map (escaped (CHR ''='')) s)"
  by (induction s) (auto simp: escapeMySQL_def escaped_def)

lemma prefixFilter_exact:
  assumes "p \<noteq> []"
  shows "prefixFilter d (pattern_of d p) s \<longleftrightarrow> HasPrefix s p"
proof (cases d)
  case SQLite
  with assms instr_first [of p s] show ?thesis by (simp add: prefixFilter_def pattern_of_def)
next
  case Postgres
  then show ?thesis
    using like_escaped [of backslash p s] by (simp add: prefixFilter_def pattern_of_def escapeLike_escaped backslash_def)
next
  case MySQL
  then show ?thesis
    using like_escaped [of "CHR ''=''" p s] by (simp add: prefixFilter_def pattern_of_def escapeMySQL_escaped)
qed

subsection \<open>Metadata as JSON\<close>

text \<open>
  The payload of a metadata row is a JSON object, here the list of its members in the order of the text.
  \<^verbatim>\<open>json.Marshal\<close> writes the entries in the order of their keys and puts U+FFFD for what is not UTF-8, in
  keys and values; \<^verbatim>\<open>Decode\<close> enters the members one after the other, so of two keys that became equal the
  later one stays.
\<close>

type_synonym metadata_text = "(string \<times> string) list"

definition json_Marshal :: "(string, string) fmap \<Rightarrow> metadata_text" where
  "json_Marshal m = map (\<lambda>(k, v). (utf8_fix k, utf8_fix v)) (sorted_list_of_fmap m)"

definition json_Decode :: "metadata_text \<Rightarrow> (string, string) fmap" where
  "json_Decode payload = fold (\<lambda>(k, v) m. fmupd k v m) payload fmempty"

definition json_metadata :: "(string, string) fmap \<Rightarrow> (string, string) fmap" where
  "json_metadata m = json_Decode (json_Marshal m)"

definition utf8_metadata :: "(string, string) fmap \<Rightarrow> bool" where
  "utf8_metadata m \<longleftrightarrow> (\<forall>k v. fmlookup m k = Some v \<longrightarrow> utf8_fix k = k \<and> utf8_fix v = v)"

lemma in_sorted_list: "(k, v) \<in> set (sorted_list_of_fmap m) \<longleftrightarrow> fmlookup m k = Some v"
  by (auto simp: sorted_list_of_fmap_def fmlookup_dom_iff image_iff)

lemma distinct_sorted_list: "distinct (map fst (sorted_list_of_fmap m))"
  by (simp add: sorted_list_of_fmap_def comp_def sorted_list_of_fset.rep_eq)

text \<open>What is UTF-8 comes back as it was; and what came back once always does.\<close>

lemma json_metadata_utf8: "utf8_metadata m \<Longrightarrow> json_metadata m = m"
proof -
  assume m: "utf8_metadata m"
  have "json_Marshal m = sorted_list_of_fmap m"
    unfolding json_Marshal_def using m by (intro map_idI) (auto simp: in_sorted_list utf8_metadata_def)
  then show ?thesis
    unfolding json_metadata_def json_Decode_def
    by (intro fmap_ext option_eqI) (simp add: fold_fmupd_Some distinct_sorted_list in_sorted_list)
qed

lemma json_metadata_is_utf8: "utf8_metadata (json_metadata m)"
proof -
  have keep: "utf8_metadata (fold (\<lambda>(k, v) m. fmupd k v m) kvs acc)"
    if "\<And>k v. (k, v) \<in> set kvs \<Longrightarrow> utf8_fix k = k \<and> utf8_fix v = v" "utf8_metadata acc" for kvs acc
    using that
  proof (induction kvs arbitrary: acc)
    case (Cons x kvs)
    obtain k v where x: "x = (k, v)" by force
    have "utf8_metadata (fmupd k v acc)" using Cons.prems(1) [of k v] Cons.prems(2) by (simp add: x utf8_metadata_def)
    moreover have "utf8_fix k' = k' \<and> utf8_fix v' = v'" if "(k', v') \<in> set kvs" for k' v'
      using that by (intro Cons.prems(1)) simp
    ultimately have "utf8_metadata (fold (\<lambda>(k, v) m. fmupd k v m) kvs (fmupd k v acc))" by (intro Cons.IH)
    then show ?case by (simp add: x)
  qed simp
  have "utf8_metadata fmempty" by (simp add: utf8_metadata_def)
  then show ?thesis
    unfolding json_metadata_def json_Decode_def by (rule keep [rotated]) (auto simp: json_Marshal_def)
qed

lemma json_metadata_idem [simp]: "json_metadata (json_metadata m) = json_metadata m"
  by (rule json_metadata_utf8 [OF json_metadata_is_utf8])

subsection \<open>Tables and statements\<close>

record tables =
  tb_roles :: "(string, unit) fmap"
  tb_perms :: "(string \<times> permission) fset"
  tb_parents :: "(string \<times> string) fset"
  tb_assign :: "(string \<times> string) fset"
  tb_meta :: "(string, int) fmap"
  tb_rules :: "(string, policy_rule list) fmap"
  tb_metadata :: "(string, metadata_text) fmap"

definition empty_tables :: tables where
  "empty_tables = \<lparr>tb_roles = fmempty, tb_perms = {||}, tb_parents = {||}, tb_assign = {||}, tb_meta = fmempty,
     tb_rules = fmempty, tb_metadata = fmempty\<rparr>"

text \<open>
  A statement changes the tables and has a result, or fails and changes nothing. Inserting a second
  row for a primary key fails, unless the statement says \<^verbatim>\<open>ON CONFLICT DO NOTHING\<close>.
\<close>

type_synonym 'a statement = "tables \<Rightarrow> err + tables \<times> 'a"

definition insertRole :: "string \<Rightarrow> unit statement" where
  "insertRole name t =
     (if fmhas (tb_roles t) name then Inl (ErrBackend ''duplicate key'')
      else Inr (t\<lparr>tb_roles := fmupd name () (tb_roles t)\<rparr>, ()))"

definition insertPerm :: "string \<Rightarrow> permission \<Rightarrow> unit statement" where
  "insertPerm name p t = Inr (t\<lparr>tb_perms := finsert (name, p) (tb_perms t)\<rparr>, ())"

definition insertParent :: "string \<Rightarrow> string \<Rightarrow> unit statement" where
  "insertParent name p t = Inr (t\<lparr>tb_parents := finsert (name, p) (tb_parents t)\<rparr>, ())"

definition assignRole :: "string \<Rightarrow> string \<Rightarrow> unit statement" where
  "assignRole userID name t = Inr (t\<lparr>tb_assign := finsert (userID, name) (tb_assign t)\<rparr>, ())"

definition unassignRole :: "string \<Rightarrow> string \<Rightarrow> unit statement" where
  "unassignRole userID name t = Inr (t\<lparr>tb_assign := tb_assign t |-| {|(userID, name)|}\<rparr>, ())"

definition roleExists :: "string \<Rightarrow> nat statement" where
  "roleExists name t = Inr (t, if fmhas (tb_roles t) name then 1 else 0)"

definition roleInUse :: "string \<Rightarrow> nat statement" where
  "roleInUse name t = Inr (t, fcard (ffilter (\<lambda>(_, r). r = name) (tb_assign t)))"

definition deleteRole :: "string \<Rightarrow> unit statement" where
  "deleteRole name t = Inr (t\<lparr>tb_roles := fmdrop name (tb_roles t)\<rparr>, ())"

definition deleteRolePerms :: "string \<Rightarrow> unit statement" where
  "deleteRolePerms name t = Inr (t\<lparr>tb_perms := ffilter (\<lambda>(r, _). r \<noteq> name) (tb_perms t)\<rparr>, ())"

definition deleteRoleParents :: "string \<Rightarrow> unit statement" where
  "deleteRoleParents name t = Inr (t\<lparr>tb_parents := ffilter (\<lambda>(r, _). r \<noteq> name) (tb_parents t)\<rparr>, ())"

definition deleteParentLinks :: "string \<Rightarrow> unit statement" where
  "deleteParentLinks name t = Inr (t\<lparr>tb_parents := ffilter (\<lambda>(_, p). p \<noteq> name) (tb_parents t)\<rparr>, ())"

definition deleteRules :: "string \<Rightarrow> unit statement" where
  "deleteRules name t = Inr (t\<lparr>tb_rules := fmdrop name (tb_rules t)\<rparr>, ())"

definition deleteMetadata :: "string \<Rightarrow> unit statement" where
  "deleteMetadata name t = Inr (t\<lparr>tb_metadata := fmdrop name (tb_metadata t)\<rparr>, ())"

definition upsertRules :: "string \<Rightarrow> policy_rule list \<Rightarrow> unit statement" where
  "upsertRules name payload t = Inr (t\<lparr>tb_rules := fmupd name payload (tb_rules t)\<rparr>, ())"

definition upsertMetadata :: "string \<Rightarrow> metadata_text \<Rightarrow> unit statement" where
  "upsertMetadata name payload t = Inr (t\<lparr>tb_metadata := fmupd name payload (tb_metadata t)\<rparr>, ())"

text \<open>The row that writers lock: inserted if it is missing, else left as it is.\<close>

definition insertLock :: "unit statement" where
  "insertLock t =
     (if fmhas (tb_meta t) ''mutation_lock'' then Inr (t, ())
      else Inr (t\<lparr>tb_meta := fmupd ''mutation_lock'' 1 (tb_meta t)\<rparr>, ()))"

definition selectLock :: "int option statement" where
  "selectLock t = Inr (t, fmlookup (tb_meta t) ''mutation_lock'')"

text \<open>
  The version column: \<^verbatim>\<open>INTEGER\<close> has 64 signed bits in SQLite and 32 in PostgreSQL, \<^verbatim>\<open>BIGINT UNSIGNED\<close> has 64
  bits in MySQL. A value beyond makes the statement fail.
\<close>

definition version_max :: "dialect \<Rightarrow> int" where
  "version_max d = (case d of SQLite \<Rightarrow> 2 ^ 63 - 1 | Postgres \<Rightarrow> 2 ^ 31 - 1 | MySQL \<Rightarrow> 2 ^ 64 - 1)"

definition policyVersion :: "int option statement" where
  "policyVersion t = Inr (t, fmlookup (tb_meta t) ''policy'')"

definition nextPolicyVersion :: "dialect \<Rightarrow> int statement" where
  "nextPolicyVersion d t =
     (let v = (case fmlookup (tb_meta t) ''policy'' of None \<Rightarrow> 1 | Some v \<Rightarrow> v + 1)
      in if v > version_max d then Inl (ErrBackend ''out of range'')
         else Inr (t\<lparr>tb_meta := fmupd ''policy'' v (tb_meta t)\<rparr>, v))"

text \<open>
  \<^verbatim>\<open>WITH RECURSIVE reachable\<close>: each round joins the rows found last with the parent links; \<^verbatim>\<open>UNION\<close> keeps
  only new rows, and the query ends when a round finds none.
\<close>

definition links_from :: "(string \<times> string) fset \<Rightarrow> string fset \<Rightarrow> string fset" where
  "links_from links names = snd |`| ffilter (\<lambda>(r, _). r |\<in>| names) links"

lemma links_from_subset: "links_from links names |\<subseteq>| snd |`| links"
  by (auto simp: links_from_def)

function reachable :: "(string \<times> string) fset \<Rightarrow> string fset \<Rightarrow> string fset \<Rightarrow> string fset" where
  "reachable links latest found =
     (let new = links_from links latest |-| found
      in if new = {||} then found else reachable links new (found |\<union>| new))"
  by pat_completeness auto

termination
proof (relation "measure (\<lambda>(links, latest, found). fcard (snd |`| links |-| found))", simp)
  fix links :: "(string \<times> string) fset" and latest found new :: "string fset"
  assume new: "new = links_from links latest |-| found" "new \<noteq> {||}"
  then obtain x where x: "x |\<in>| new" by blast
  then have "x |\<in>| snd |`| links |-| found" using new(1) links_from_subset [of links latest] by blast
  moreover have "x |\<notin>| snd |`| links |-| (found |\<union>| new)" using x by simp
  ultimately have "snd |`| links |-| (found |\<union>| new) |\<subset>| snd |`| links |-| found" by blast
  then show "((links, new, found |\<union>| new), links, latest, found) \<in> measure (\<lambda>(links, latest, found). fcard (snd |`| links |-| found))"
    by (simp add: pfsubset_fcard_mono)
qed

declare reachable.simps [simp del]

definition cycleCheck :: "string \<Rightarrow> nat statement" where
  "cycleCheck name t =
     (let start = links_from (tb_parents t) {|name|}
      in Inr (t, if name |\<in>| reachable (tb_parents t) start start then 1 else 0))"

text \<open>The recursive query finds exactly the names that the links lead to.\<close>

definition linked :: "(string \<times> string) fset \<Rightarrow> string \<Rightarrow> string \<Rightarrow> bool" where
  "linked links x y \<longleftrightarrow> (x, y) |\<in>| links"

lemma links_from_iff: "y |\<in>| links_from links names \<longleftrightarrow> (\<exists>x. x |\<in>| names \<and> linked links x y)"
  by (force simp: links_from_def linked_def)

lemma reachable_exact:
  assumes "latest |\<subseteq>| found" and "\<And>x y. x |\<in>| found \<Longrightarrow> x |\<notin>| latest \<Longrightarrow> linked links x y \<Longrightarrow> y |\<in>| found"
  shows "y |\<in>| reachable links latest found \<longleftrightarrow> (\<exists>x. x |\<in>| found \<and> (linked links)\<^sup>*\<^sup>* x y)"
  using assms
proof (induction links latest found rule: reachable.induct)
  case (1 links latest found)
  let ?new = "links_from links latest |-| found"
  show ?case
  proof (cases "?new = {||}")
    case True
    have closed: "b |\<in>| found" if "a |\<in>| found" "linked links a b" for a b
    proof (cases "a |\<in>| latest")
      case in_last: True
      then have "b |\<in>| links_from links latest" using that by (auto simp: links_from_iff)
      with True show ?thesis by blast
    qed (use "1.prems"(2) that in blast)
    have "b |\<in>| found" if "a |\<in>| found" "(linked links)\<^sup>*\<^sup>* a b" for a b
      using that(2,1) by (induction rule: rtranclp_induct) (auto intro: closed)
    then show ?thesis by (subst reachable.simps) (auto simp: True Let_def)
  next
    case False
    have "y |\<in>| reachable links ?new (found |\<union>| ?new) \<longleftrightarrow> (\<exists>x. x |\<in>| found |\<union>| ?new \<and> (linked links)\<^sup>*\<^sup>* x y)"
    proof (rule "1.IH" [OF refl False])
      show "?new |\<subseteq>| found |\<union>| ?new" by blast
      show "b |\<in>| found |\<union>| ?new" if "a |\<in>| found |\<union>| ?new" "a |\<notin>| ?new" "linked links a b" for a b
        using that "1.prems"(2) [of a b] by (cases "a |\<in>| latest") (auto simp: links_from_iff)
    qed
    also have "\<dots> \<longleftrightarrow> (\<exists>x. x |\<in>| found \<and> (linked links)\<^sup>*\<^sup>* x y)"
      using "1.prems"(1) by (auto simp: links_from_iff intro: converse_rtranclp_into_rtranclp)
    finally show ?thesis using False by (subst reachable.simps) (simp add: Let_def)
  qed
qed

lemma cycleCheck_exact:
  "cycleCheck n t = Inr (t, if (linked (tb_parents t))\<^sup>+\<^sup>+ n n then 1 else 0)"
proof -
  let ?start = "links_from (tb_parents t) {|n|}"
  have "n |\<in>| reachable (tb_parents t) ?start ?start \<longleftrightarrow> (\<exists>x. linked (tb_parents t) n x \<and> (linked (tb_parents t))\<^sup>*\<^sup>* x n)"
    using reachable_exact [of ?start ?start "tb_parents t" n] by (auto simp: links_from_iff)
  then have "n |\<in>| reachable (tb_parents t) ?start ?start \<longleftrightarrow> (linked (tb_parents t))\<^sup>+\<^sup>+ n n"
    by (metis tranclpD rtranclp_into_tranclp2)
  then show ?thesis by (simp add: cycleCheck_def Let_def)
qed

end
