(* ===== verification/SqlStore.thy ===== *)
theory SqlStore
  imports SqlTables
begin

text \<open>
  The SQL store of \<^verbatim>\<open>sqlstore.go\<close> and \<^verbatim>\<open>sql_extensions.go\<close>: every method as the sequence of statements
  that it runs, inside a transaction if it writes.

  Any statement may fail: when the context is done, with its error, or because the database says so.
  \<open>db_fault\<close> says which of the statements from now on fail, counted by \<open>db_clock\<close>, and \<open>db_kept\<close> which
  of them, if it is a commit, took effect although its answer was lost; both are arbitrary. An open
  transaction keeps the tables as they were in \<open>db_saved\<close>. Writers exclude each other (SQLite
  serializes them, the others take the lock row), so a method is one step.
\<close>

record sqldb =
  db_tables :: tables
  db_saved :: "tables option"
  db_fault :: "nat \<Rightarrow> err option"
  db_kept :: "nat \<Rightarrow> bool"
  db_clock :: nat
  db_permRows :: "permission fset \<Rightarrow> permission list"
  db_nameRows :: "string fset \<Rightarrow> string list"

subsection \<open>Statements in sequence\<close>

type_synonym 'a query = "sqldb \<Rightarrow> sqldb \<times> (err + 'a)"

text \<open>One round trip to the database that may fail, and a statement.\<close>

definition trip :: "ctx \<Rightarrow> unit query" where
  "trip cx db =
     (db\<lparr>db_clock := db_clock db + 1\<rparr>,
      case cx_Err cx of Some e \<Rightarrow> Inl e
      | None \<Rightarrow> (case db_fault db (db_clock db) of Some e \<Rightarrow> Inl e | None \<Rightarrow> Inr ()))"

definition returnQ :: "'a \<Rightarrow> 'a query" where "returnQ x db = (db, Inr x)"

definition failQ :: "err \<Rightarrow> 'a query" where "failQ e db = (db, Inl e)"

definition bindQ :: "'a query \<Rightarrow> ('a \<Rightarrow> 'b query) \<Rightarrow> 'b query" where
  "bindQ m f db = (case m db of (db, Inl e) \<Rightarrow> (db, Inl e) | (db, Inr x) \<Rightarrow> f x db)"

abbreviation thenQ :: "unit query \<Rightarrow> 'b query \<Rightarrow> 'b query" where
  "thenQ m n \<equiv> bindQ m (\<lambda>_. n)"

fun forQ :: "('a \<Rightarrow> unit query) \<Rightarrow> 'a list \<Rightarrow> unit query" where
  "forQ f [] = returnQ ()"
| "forQ f (x # xs) = thenQ (f x) (forQ f xs)"

definition stmt :: "ctx \<Rightarrow> 'a statement \<Rightarrow> 'a query" where
  "stmt cx f = thenQ (trip cx)
     (\<lambda>db. case f (db_tables db) of Inl e \<Rightarrow> (db, Inl e) | Inr (t, x) \<Rightarrow> (db\<lparr>db_tables := t\<rparr>, Inr x))"

subsection \<open>Transactions\<close>

text \<open>
  \<^verbatim>\<open>beginWrite\<close>: within a batch (\<open>tx\<close>) the transaction is the caller's; else one is opened and, except
  in SQLite, the lock row is taken. The result says whether the transaction is owned.
\<close>

definition rollbackOwned :: "bool \<Rightarrow> sqldb \<Rightarrow> sqldb" where
  "rollbackOwned owned db =
     (if owned then (case db_saved db of None \<Rightarrow> db | Some t \<Rightarrow> db\<lparr>db_tables := t, db_saved := None\<rparr>) else db)"

definition takeLock :: "dialect \<Rightarrow> ctx \<Rightarrow> unit query" where
  "takeLock d cx =
     (if d = SQLite then returnQ ()
      else thenQ (stmt cx insertLock) (bindQ (stmt cx selectLock)
        (\<lambda>row. case row of None \<Rightarrow> failQ (ErrBackend ''sql: no rows in result set'') | Some _ \<Rightarrow> returnQ ())))"

definition beginWrite :: "dialect \<Rightarrow> bool \<Rightarrow> ctx \<Rightarrow> bool query" where
  "beginWrite d tx cx db =
     (if tx then (db, Inr False)
      else case trip cx db of
          (db, Inl e) \<Rightarrow> (db, Inl e)
        | (db, Inr _) \<Rightarrow>
            let db = db\<lparr>db_saved := Some (db_tables db)\<rparr>
            in (case takeLock d cx db of
                  (db, Inl e) \<Rightarrow> (rollbackOwned True db, Inl e)
                | (db, Inr _) \<Rightarrow> (db, Inr True)))"

text \<open>
  A commit whose context is done is not sent, and the transaction is rolled back. One that the database
  answers with an error, or not at all, may have taken effect or not.
\<close>

definition commitOwned :: "bool \<Rightarrow> ctx \<Rightarrow> unit query" where
  "commitOwned owned cx db =
     (if \<not> owned then (db, Inr ())
      else case trip cx db of
          (db', Inl e) \<Rightarrow>
            if cx_Err cx = None \<and> db_kept db (db_clock db) then (db'\<lparr>db_saved := None\<rparr>, Inl e)
            else (rollbackOwned True db', Inl e)
        | (db', Inr _) \<Rightarrow> (db'\<lparr>db_saved := None\<rparr>, Inr ()))"

text \<open>
  The frame of every writing method: \<^verbatim>\<open>beginWrite\<close>, the body, \<^verbatim>\<open>commitOwned\<close>, with the deferred
  \<^verbatim>\<open>rollbackOwned\<close> on every way out.
\<close>

definition writes :: "dialect \<Rightarrow> bool \<Rightarrow> ctx \<Rightarrow> 'a query \<Rightarrow> 'a query" where
  "writes d tx cx body db =
     (case beginWrite d tx cx db of
        (db, Inl e) \<Rightarrow> (db, Inl e)
      | (db, Inr owned) \<Rightarrow>
          (case bindQ body (\<lambda>x. bindQ (commitOwned owned cx) (\<lambda>_. returnQ x)) db of
             (db, r) \<Rightarrow> (rollbackOwned owned db, r)))"

definition mutation :: "unit query \<Rightarrow> sqldb mutation" where
  "mutation q db = (case q db of (db, Inl e) \<Rightarrow> (db, Some e) | (db, Inr _) \<Rightarrow> (db, None))"

subsection \<open>Methods that write\<close>

definition exists_role :: "ctx \<Rightarrow> string \<Rightarrow> bool query" where
  "exists_role cx name = bindQ (stmt cx (roleExists name)) (\<lambda>count. returnQ (count > 0))"

definition in_use :: "ctx \<Rightarrow> string \<Rightarrow> bool query" where
  "in_use cx name = bindQ (stmt cx (roleInUse name)) (\<lambda>count. returnQ (count > 0))"

definition checkCycles :: "ctx \<Rightarrow> string \<Rightarrow> unit query" where
  "checkCycles cx name = bindQ (stmt cx (cycleCheck name))
     (\<lambda>count. if count > 0 then failQ ErrCycleDetected else returnQ ())"

text \<open>The loops over permissions and parents that adding and updating share.\<close>

definition insert_details :: "ctx \<Rightarrow> role \<Rightarrow> unit query" where
  "insert_details cx role =
     thenQ (forQ (\<lambda>perm. stmt cx (insertPerm (role_Name role) perm)) (role_Permissions role))
       (forQ (\<lambda>parent. bindQ (exists_role cx parent)
          (\<lambda>ok. if \<not> ok then failQ ErrParentNotFound else stmt cx (insertParent (role_Name role) parent)))
          (role_Parents role))"

definition sql_AddRole :: "dialect \<Rightarrow> bool \<Rightarrow> ctx \<Rightarrow> role \<Rightarrow> unit query" where
  "sql_AddRole d tx cx role =
     (if \<not> validRole role then failQ ErrInvalidRole
      else writes d tx cx (bindQ (exists_role cx (role_Name role)) (\<lambda>exists.
        if exists then failQ ErrRoleExists
        else thenQ (stmt cx (insertRole (role_Name role)))
          (thenQ (insert_details cx role) (checkCycles cx (role_Name role))))))"

definition sql_UpdateRole :: "dialect \<Rightarrow> bool \<Rightarrow> ctx \<Rightarrow> role \<Rightarrow> unit query" where
  "sql_UpdateRole d tx cx role =
     (if \<not> validRole role then failQ ErrInvalidRole
      else writes d tx cx (bindQ (exists_role cx (role_Name role)) (\<lambda>exists.
        if \<not> exists then failQ ErrRoleNotFound
        else thenQ (stmt cx (deleteRolePerms (role_Name role)))
          (thenQ (stmt cx (deleteRoleParents (role_Name role)))
          (thenQ (insert_details cx role) (checkCycles cx (role_Name role)))))))"

definition for_role :: "dialect \<Rightarrow> bool \<Rightarrow> ctx \<Rightarrow> string \<Rightarrow> unit query \<Rightarrow> unit query" where
  "for_role d tx cx name body =
     writes d tx cx (bindQ (exists_role cx name) (\<lambda>ok. if \<not> ok then failQ ErrRoleNotFound else body))"

definition sql_AssignRole :: "dialect \<Rightarrow> bool \<Rightarrow> ctx \<Rightarrow> string \<Rightarrow> string \<Rightarrow> unit query" where
  "sql_AssignRole d tx cx userID name = for_role d tx cx name (stmt cx (assignRole userID name))"

definition sql_UnassignRole :: "dialect \<Rightarrow> bool \<Rightarrow> ctx \<Rightarrow> string \<Rightarrow> string \<Rightarrow> unit query" where
  "sql_UnassignRole d tx cx userID name = for_role d tx cx name (stmt cx (unassignRole userID name))"

definition sql_DeleteRole :: "dialect \<Rightarrow> bool \<Rightarrow> ctx \<Rightarrow> string \<Rightarrow> unit query" where
  "sql_DeleteRole d tx cx name = for_role d tx cx name
     (bindQ (in_use cx name) (\<lambda>used. if used then failQ ErrRoleInUse
      else thenQ (stmt cx (deleteRules name)) (thenQ (stmt cx (deleteMetadata name))
        (thenQ (stmt cx (deleteParentLinks name)) (thenQ (stmt cx (deleteRoleParents name))
        (thenQ (stmt cx (deleteRolePerms name)) (stmt cx (deleteRole name))))))))"

definition sql_SetRoleRules :: "dialect \<Rightarrow> bool \<Rightarrow> ctx \<Rightarrow> string \<Rightarrow> policy_rule list \<Rightarrow> unit query" where
  "sql_SetRoleRules d tx cx name rules =
     (case validateRules rules of
        Some e \<Rightarrow> failQ e
      | None \<Rightarrow>
          (case cloneRules rules of
             Inl e \<Rightarrow> failQ e
           | Inr payload \<Rightarrow> for_role d tx cx name (stmt cx (upsertRules name payload))))"

definition sql_SetRoleMetadata :: "dialect \<Rightarrow> bool \<Rightarrow> ctx \<Rightarrow> string \<Rightarrow> (string, string) fmap \<Rightarrow> unit query" where
  "sql_SetRoleMetadata d tx cx name metadata = for_role d tx cx name (stmt cx (upsertMetadata name (json_Marshal metadata)))"

definition sql_NextPolicyVersion :: "dialect \<Rightarrow> bool \<Rightarrow> ctx \<Rightarrow> 64 word query" where
  "sql_NextPolicyVersion d tx cx =
     (if d = MySQL
      then writes d tx cx (bindQ (stmt cx (nextPolicyVersion d)) (\<lambda>_. bindQ (stmt cx policyVersion)
        (\<lambda>row. case row of None \<Rightarrow> failQ (ErrBackend ''sql: no rows in result set'') | Some v \<Rightarrow> returnQ (of_int v))))
      else bindQ (stmt cx (nextPolicyVersion d)) (\<lambda>v. returnQ (of_int v)))"

subsection \<open>Methods that read\<close>

text \<open>
  A read outside a transaction changes nothing. Rows come in an order of the database's choice, the
  same for the same rows.
\<close>

definition perms_of :: "tables \<Rightarrow> string \<Rightarrow> permission fset" where
  "perms_of t name = snd |`| ffilter (\<lambda>(r, _). r = name) (tb_perms t)"

definition parents_in :: "tables \<Rightarrow> string \<Rightarrow> string fset" where
  "parents_in t name = snd |`| ffilter (\<lambda>(r, _). r = name) (tb_parents t)"

definition roles_of_user :: "tables \<Rightarrow> string \<Rightarrow> string fset" where
  "roles_of_user t userID = snd |`| ffilter (\<lambda>(u, _). u = userID) (tb_assign t)"

text \<open>A \<^verbatim>\<open>SELECT\<close>, whose result depends on the order of rows.\<close>

definition select_rows :: "ctx \<Rightarrow> (sqldb \<Rightarrow> 'a) \<Rightarrow> 'a query" where
  "select_rows cx f = thenQ (trip cx) (\<lambda>db. (db, Inr (f db)))"

definition rolePerms :: "string \<Rightarrow> sqldb \<Rightarrow> permission list" where
  "rolePerms name db = db_permRows db (perms_of (db_tables db) name)"

definition roleParents :: "string \<Rightarrow> sqldb \<Rightarrow> string list" where
  "roleParents name db = db_nameRows db (parents_in (db_tables db) name)"

definition userRoles :: "string \<Rightarrow> sqldb \<Rightarrow> string list" where
  "userRoles userID db = db_nameRows db (roles_of_user (db_tables db) userID)"

definition read_role :: "sqldb \<Rightarrow> string \<Rightarrow> role" where
  "read_role db name = \<lparr>role_Name = name, role_Permissions = rolePerms name db, role_Parents = roleParents name db\<rparr>"

definition sql_GetRole :: "ctx \<Rightarrow> string \<Rightarrow> role option query" where
  "sql_GetRole cx name = bindQ (exists_role cx name) (\<lambda>exists.
     if \<not> exists then returnQ None
     else bindQ (select_rows cx (rolePerms name)) (\<lambda>perms. bindQ (select_rows cx (roleParents name)) (\<lambda>parents.
       returnQ (Some \<lparr>role_Name = name, role_Permissions = perms, role_Parents = parents\<rparr>))))"

definition sql_GetRoles :: "ctx \<Rightarrow> string \<Rightarrow> string list query" where
  "sql_GetRoles cx userID = select_rows cx (userRoles userID)"

text \<open>
  \<^verbatim>\<open>listRolesPattern\<close>: the names in order, then all permission rows and all parent rows, sorted by role,
  appended to the roles they belong to.
\<close>

definition matching :: "dialect \<Rightarrow> string \<Rightarrow> string \<Rightarrow> bool" where
  "matching d pattern name \<longleftrightarrow> pattern = [] \<or> prefixFilter d pattern name"

definition roleNames :: "dialect \<Rightarrow> string \<Rightarrow> sqldb \<Rightarrow> string list" where
  "roleNames d pattern db = sorted_list_of_fset (ffilter (matching d pattern) (fmdom (tb_roles (db_tables db))))"

definition listPerms :: "dialect \<Rightarrow> string \<Rightarrow> sqldb \<Rightarrow> (string \<times> permission) list" where
  "listPerms d pattern db =
     concat (map (\<lambda>n. map (Pair n) (rolePerms n db))
       (sorted_list_of_fset (ffilter (matching d pattern) (fst |`| tb_perms (db_tables db)))))"

definition listParents :: "dialect \<Rightarrow> string \<Rightarrow> sqldb \<Rightarrow> (string \<times> string) list" where
  "listParents d pattern db =
     concat (map (\<lambda>n. map (Pair n) (roleParents n db))
       (sorted_list_of_fset (ffilter (matching d pattern) (fst |`| tb_parents (db_tables db)))))"

definition addPerm :: "string \<times> permission \<Rightarrow> role list \<Rightarrow> role list" where
  "addPerm row = map (\<lambda>r. if role_Name r = fst row then r\<lparr>role_Permissions := role_Permissions r @ [snd row]\<rparr> else r)"

definition addParent :: "string \<times> string \<Rightarrow> role list \<Rightarrow> role list" where
  "addParent row = map (\<lambda>r. if role_Name r = fst row then r\<lparr>role_Parents := role_Parents r @ [snd row]\<rparr> else r)"

definition listRolesPattern :: "dialect \<Rightarrow> ctx \<Rightarrow> string \<Rightarrow> role list query" where
  "listRolesPattern d cx pattern =
     bindQ (select_rows cx (roleNames d pattern)) (\<lambda>names.
     bindQ (select_rows cx (listPerms d pattern)) (\<lambda>perms.
     bindQ (select_rows cx (listParents d pattern)) (\<lambda>parents.
       returnQ (fold addParent parents (fold addPerm perms
         (map (\<lambda>n. \<lparr>role_Name = n, role_Permissions = [], role_Parents = []\<rparr>) names))))))"

definition sql_ListRoles :: "dialect \<Rightarrow> ctx \<Rightarrow> role list query" where
  "sql_ListRoles d cx = listRolesPattern d cx []"

definition sql_ListRolesByPrefix :: "dialect \<Rightarrow> ctx \<Rightarrow> string \<Rightarrow> role list query" where
  "sql_ListRolesByPrefix d cx prefix =
     (if prefix = [] then sql_ListRoles d cx else listRolesPattern d cx (pattern_of d prefix))"

definition role_detail :: "ctx \<Rightarrow> string \<Rightarrow> (tables \<Rightarrow> (string, 'v) fmap) \<Rightarrow> 'v \<Rightarrow> 'v query" where
  "role_detail cx name table none = bindQ (exists_role cx name) (\<lambda>exists.
     if \<not> exists then failQ ErrRoleNotFound
     else select_rows cx (\<lambda>db. case fmlookup (table (db_tables db)) name of None \<Rightarrow> none | Some v \<Rightarrow> v))"

definition sql_GetRoleRules :: "ctx \<Rightarrow> string \<Rightarrow> policy_rule list query" where
  "sql_GetRoleRules cx name = bindQ (role_detail cx name tb_rules [])
     (\<lambda>rules. case validateRules rules of Some e \<Rightarrow> failQ e | None \<Rightarrow> returnQ rules)"

definition sql_GetRoleMetadata :: "ctx \<Rightarrow> string \<Rightarrow> (string, string) fmap query" where
  "sql_GetRoleMetadata cx name = bindQ (role_detail cx name tb_metadata [])
     (\<lambda>payload. returnQ (json_Decode payload))"

definition sql_PolicyVersion :: "ctx \<Rightarrow> 64 word query" where
  "sql_PolicyVersion cx = bindQ (stmt cx policyVersion)
     (\<lambda>row. case row of None \<Rightarrow> returnQ 0 | Some v \<Rightarrow> returnQ (of_int v))"

subsection \<open>The store interface\<close>

definition answer :: "'a query \<Rightarrow> sqldb \<Rightarrow> err + 'a" where "answer q db = snd (q db)"

definition sql_Getter :: "ctx \<Rightarrow> sqldb \<Rightarrow> getter" where
  "sql_Getter cx db =
     \<lparr>g_fail = (\<lambda>name. error_of (answer (sql_GetRole cx name) db)),
      g_roles = fmmap_keys (\<lambda>name _. read_role db name) (tb_roles (db_tables db))\<rparr>"

definition sql_rules_ops :: "dialect \<Rightarrow> bool \<Rightarrow> sqldb rule_store" where
  "sql_rules_ops d tx =
     \<lparr>rs_SetRoleRules = (\<lambda>cx name rules. mutation (sql_SetRoleRules d tx cx name rules)),
      rs_GetRoleRules = (\<lambda>cx name. answer (sql_GetRoleRules cx name))\<rparr>"

definition sql_metadata_ops :: "dialect \<Rightarrow> bool \<Rightarrow> sqldb metadata_store" where
  "sql_metadata_ops d tx =
     \<lparr>md_SetRoleMetadata = (\<lambda>cx name m. mutation (sql_SetRoleMetadata d tx cx name m)),
      md_GetRoleMetadata = (\<lambda>cx name. answer (sql_GetRoleMetadata cx name))\<rparr>"

definition sql_versions :: "dialect \<Rightarrow> bool \<Rightarrow> sqldb policy_versioner" where
  "sql_versions d tx =
     \<lparr>pv_Current = (\<lambda>cx. answer (sql_PolicyVersion cx)), pv_Next = sql_NextPolicyVersion d tx\<rparr>"

definition sql_base_ops :: "dialect \<Rightarrow> bool \<Rightarrow> sqldb store_ops" where
  "sql_base_ops d tx =
     \<lparr>so_AddRole = (\<lambda>cx role. mutation (sql_AddRole d tx cx role)), so_Getter = sql_Getter,
      so_AssignRole = (\<lambda>cx u r. mutation (sql_AssignRole d tx cx u r)),
      so_GetRoles = (\<lambda>cx u. answer (sql_GetRoles cx u)),
      so_DeleteRole = Some (\<lambda>cx r. mutation (sql_DeleteRole d tx cx r)),
      so_UnassignRole = Some (\<lambda>cx u r. mutation (sql_UnassignRole d tx cx u r)),
      so_ListRoles = Some (\<lambda>cx. answer (sql_ListRoles d cx)),
      so_ListRolesByPrefix = Some (\<lambda>cx p. answer (sql_ListRolesByPrefix d cx p)),
      so_UpdateRole = Some (\<lambda>cx role. mutation (sql_UpdateRole d tx cx role)),
      so_RuleStore = Some (sql_rules_ops d tx), so_MetadataStore = Some (sql_metadata_ops d tx),
      so_ApplyPolicyBatch = None, so_PolicyVersioner = Some (sql_versions d tx)\<rparr>"

text \<open>A batch runs the operations of a store whose transaction is the batch's own.\<close>

definition lift_mutation :: "sqldb mutation \<Rightarrow> unit query" where
  "lift_mutation f db = (case f db of (db, None) \<Rightarrow> (db, Inr ()) | (db, Some e) \<Rightarrow> (db, Inl e))"

definition sql_ApplyPolicyBatch :: "dialect \<Rightarrow> bool \<Rightarrow> ctx \<Rightarrow> policy_batch \<Rightarrow> unit query" where
  "sql_ApplyPolicyBatch d tx cx batch =
     (case validateBatch cx batch of
        Some e \<Rightarrow> failQ e
      | None \<Rightarrow> writes d tx cx (lift_mutation (applyBatch (sql_base_ops d True) cx batch)))"

definition sql_ops :: "dialect \<Rightarrow> sqldb store_ops" where
  "sql_ops d = (sql_base_ops d False)
     \<lparr>so_ApplyPolicyBatch := Some (\<lambda>cx batch. mutation (sql_ApplyPolicyBatch d False cx batch))\<rparr>"

subsection \<open>Construction\<close>

text \<open>
  \<^verbatim>\<open>detectDialect\<close> asks for the version of SQLite: an answer means SQLite, an error PostgreSQL. The
  migration creates the tables that do not exist, one statement each for MySQL.
\<close>

definition detectDialect :: "err option \<Rightarrow> dialect" where
  "detectDialect sqlite_version = (case sqlite_version of None \<Rightarrow> SQLite | Some _ \<Rightarrow> Postgres)"

definition migrate :: "sql_config \<Rightarrow> unit query" where
  "migrate s =
     (if sc_dialect s = MySQL then forQ (\<lambda>_. trip background) (table_names (sc_tablePrefix s))
      else trip background)"

definition NewSQLStore :: "bool \<Rightarrow> err option \<Rightarrow> sql_option list \<Rightarrow> sql_config query" where
  "NewSQLStore nil sqlite_version opts =
     (if nil then failQ (ErrConfig ''rbacgo: nil *sql.DB'')
      else case forE (\<lambda>opt s. opt s) opts \<lparr>sc_dialect = detectDialect sqlite_version, sc_tablePrefix = []\<rparr> of
          Inl e \<Rightarrow> failQ e
        | Inr s \<Rightarrow> thenQ (migrate s) (returnQ s))"

text \<open>An empty database without faults, whose rows come sorted.\<close>

definition sorted_perms :: "permission fset \<Rightarrow> permission list" where
  "sorted_perms ps = map (\<lambda>(r, a). \<lparr>perm_Resource = r, perm_Action = a\<rparr>)
     (sorted_list_of_fset ((\<lambda>p. (perm_Resource p, perm_Action p)) |`| ps))"

definition fresh_db :: sqldb where
  "fresh_db = \<lparr>db_tables = empty_tables, db_saved = None, db_fault = (\<lambda>_. None), db_kept = (\<lambda>_. False), db_clock = 0,
     db_permRows = sorted_perms, db_nameRows = sorted_list_of_fset\<rparr>"

end
