(* ===== verification/SqlRefine.thy ===== *)
theory SqlRefine
  imports SqlStore
begin

text \<open>
  The SQL store implements the contract of a store. A method is first compared with the same
  statements on tables that cannot fail (\<open>runs\<close>), then with the outcome on the abstract state
  (\<open>refines\<close>); \<open>writes\<close> adds that a failed method leaves the tables as they were.
\<close>

subsection \<open>Statements without a database that fails\<close>

definition returnP :: "'a \<Rightarrow> 'a statement" where "returnP x t = Inr (t, x)"

definition failP :: "err \<Rightarrow> 'a statement" where "failP e t = Inl e"

definition bindP :: "'a statement \<Rightarrow> ('a \<Rightarrow> 'b statement) \<Rightarrow> 'b statement" where
  "bindP p f t = (case p t of Inl e \<Rightarrow> Inl e | Inr (t, x) \<Rightarrow> f x t)"

fun forP :: "('a \<Rightarrow> unit statement) \<Rightarrow> 'a list \<Rightarrow> unit statement" where
  "forP f [] = returnP ()"
| "forP f (x # xs) = bindP (f x) (\<lambda>_. forP f xs)"

definition same_db :: "sqldb \<Rightarrow> sqldb \<Rightarrow> bool" where
  "same_db db db' \<longleftrightarrow> db_saved db' = db_saved db \<and> db_fault db' = db_fault db \<and>
     db_kept db' = db_kept db \<and>
     db_permRows db' = db_permRows db \<and> db_nameRows db' = db_nameRows db"

text \<open>No statement fails but for what the tables hold.\<close>

definition calm :: "ctx \<Rightarrow> sqldb \<Rightarrow> bool" where
  "calm cx db \<longleftrightarrow> cx_Err cx = None \<and> (\<forall>k. db_fault db k = None)"

definition runs :: "ctx \<Rightarrow> 'a query \<Rightarrow> 'a statement \<Rightarrow> bool" where
  "runs cx q p \<longleftrightarrow>
     (\<forall>db db' r. q db = (db', r) \<longrightarrow> same_db db db' \<and>
        (case r of
           Inr x \<Rightarrow> p (db_tables db) = Inr (db_tables db', x)
         | Inl e \<Rightarrow> p (db_tables db) = Inl e \<or> \<not> calm cx db))"

named_theorems running \<open>queries and the statements that they run\<close>

lemma runsI:
  assumes "\<And>db db' r. q db = (db', r) \<Longrightarrow> same_db db db' \<and>
      (case r of
         Inr x \<Rightarrow> p (db_tables db) = Inr (db_tables db', x)
       | Inl e \<Rightarrow> p (db_tables db) = Inl e \<or> \<not> calm cx db)"
  shows "runs cx q p"
  using assms by (simp add: runs_def)

lemma runsD:
  assumes "runs cx q p"
  shows "q db = (db', r) \<Longrightarrow> same_db db db'"
    and "q db = (db', Inr x) \<Longrightarrow> p (db_tables db) = Inr (db_tables db', x)"
    and "q db = (db', Inl e) \<Longrightarrow> calm cx db \<Longrightarrow> p (db_tables db) = Inl e"
  using assms unfolding runs_def by fastforce+

lemma same_db_trans: "same_db a b \<Longrightarrow> same_db b c \<Longrightarrow> same_db a c"
  by (simp add: same_db_def)

lemma same_db_calm: "same_db a b \<Longrightarrow> calm cx b \<longleftrightarrow> calm cx a"
  by (simp add: same_db_def calm_def)

lemma trip_cases:
  obtains (down) e where "trip cx db = (db\<lparr>db_clock := db_clock db + 1\<rparr>, Inl e)" and "\<not> calm cx db"
    | (up) "trip cx db = (db\<lparr>db_clock := db_clock db + 1\<rparr>, Inr ())"
proof (cases "cx_Err cx")
  case None
  with that show thesis by (cases "db_fault db (db_clock db)") (auto simp: trip_def calm_def)
qed (use that in \<open>auto simp: trip_def calm_def\<close>)

lemma runs_returnQ [running]: "runs cx (returnQ x) (returnP x)"
  by (rule runsI) (auto simp: returnQ_def returnP_def same_db_def)

lemma runs_failQ [running]: "runs cx (failQ e) (failP e)"
  by (rule runsI) (auto simp: failQ_def failP_def same_db_def)

lemma runs_stmt [running]: "runs cx (stmt cx f) f"
proof (rule runsI)
  fix db db' r
  assume run: "stmt cx f db = (db', r)"
  show "same_db db db' \<and> (case r of Inr x \<Rightarrow> f (db_tables db) = Inr (db_tables db', x)
      | Inl e \<Rightarrow> f (db_tables db) = Inl e \<or> \<not> calm cx db)"
    by (rule trip_cases [of cx db])
      (use run in \<open>auto simp: stmt_def bindQ_def same_db_def split: sum.splits\<close>)
qed

lemma runs_bindQ [running]:
  assumes m: "runs cx m p" and f: "\<And>x. runs cx (f x) (g x)"
  shows "runs cx (bindQ m f) (bindP p g)"
proof (rule runsI)
  fix db db' r
  assume run: "bindQ m f db = (db', r)"
  obtain db1 r1 where first: "m db = (db1, r1)" by force
  note one = runsD [OF m]
  show "same_db db db' \<and> (case r of Inr x \<Rightarrow> bindP p g (db_tables db) = Inr (db_tables db', x)
      | Inl e \<Rightarrow> bindP p g (db_tables db) = Inl e \<or> \<not> calm cx db)"
  proof (cases r1)
    case (Inl e)
    with run first have "db' = db1" "r = Inl e" by (simp_all add: bindQ_def)
    with one(1,3) [of db db1] first Inl show ?thesis by (auto simp: bindP_def)
  next
    case (Inr x)
    with run first have rest: "f x db1 = (db', r)" by (simp add: bindQ_def)
    have p: "p (db_tables db) = Inr (db_tables db1, x)" and same: "same_db db db1"
      using one(1,2) [of db db1] first Inr by auto
    have "same_db db1 db' \<and> (case r of Inr y \<Rightarrow> g x (db_tables db1) = Inr (db_tables db', y)
        | Inl e \<Rightarrow> g x (db_tables db1) = Inl e \<or> \<not> calm cx db1)"
      using f [of x] rest unfolding runs_def by blast
    with p same show ?thesis
      by (auto simp: bindP_def same_db_calm [OF same] intro: same_db_trans split: sum.splits)
  qed
qed

lemma runs_forQ [running]:
  assumes "\<And>x. runs cx (f x) (g x)"
  shows "runs cx (forQ f xs) (forP g xs)"
  by (induction xs) (auto intro!: running assms)

lemma runs_if [running]:
  "runs cx q p \<Longrightarrow> runs cx q' p' \<Longrightarrow> runs cx (if b then q else q') (if b then p else p')"
  by simp

text \<open>A method in a batch: the transaction is the caller's, so only the body remains.\<close>

lemma runs_writes_batch [running]:
  assumes "runs cx body p"
  shows "runs cx (writes d True cx body) p"
proof -
  have "writes d True cx body = body"
    by (auto simp: fun_eq_iff writes_def beginWrite_def commitOwned_def rollbackOwned_def bindQ_def returnQ_def
        split: prod.splits sum.splits)
  with assms show ?thesis by simp
qed

subsection \<open>Transactions\<close>

definition locked :: "dialect \<Rightarrow> tables \<Rightarrow> tables" where
  "locked d t =
     (if d = SQLite \<or> fmhas (tb_meta t) ''mutation_lock'' then t
      else t\<lparr>tb_meta := fmupd ''mutation_lock'' 1 (tb_meta t)\<rparr>)"

lemma runs_takeLock [running]: "runs cx (takeLock d cx) (\<lambda>t. Inr (locked d t, ()))"
proof (cases "d = SQLite")
  case True
  with runs_returnQ [of cx "()"] show ?thesis by (simp add: takeLock_def locked_def returnP_def [abs_def])
next
  case False
  have row: "runs cx (case row of None \<Rightarrow> failQ e | Some (_ :: int) \<Rightarrow> returnQ ())
      (case row of None \<Rightarrow> failP e | Some _ \<Rightarrow> returnP ())" for row e
    by (cases row) (simp_all add: running)
  have "(\<lambda>t. Inr (locked d t, ())) = bindP insertLock (\<lambda>_. bindP selectLock
      (\<lambda>row. case row of None \<Rightarrow> failP (ErrBackend ''sql: no rows in result set'') | Some _ \<Rightarrow> returnP ()))"
    using False by (auto simp: fun_eq_iff locked_def bindP_def insertLock_def selectLock_def returnP_def fmhas_def
        split: option.splits)
  with False show ?thesis
    unfolding takeLock_def by (auto intro!: runs_bindQ runs_stmt row)
qed

text \<open>
  A method that owns its transaction succeeds as its statements do, from the tables as the lock
  leaves them. If it fails, for whatever reason, the tables are as before, unless the statement that
  failed is a commit that took effect: then they are as after a success.
\<close>

definition lost_commit :: "ctx \<Rightarrow> sqldb \<Rightarrow> sqldb \<Rightarrow> err \<Rightarrow> bool" where
  "lost_commit cx db db' e \<longleftrightarrow> cx_Err cx = None \<and> 0 < db_clock db' \<and>
     db_fault db (db_clock db' - 1) = Some e \<and> db_kept db (db_clock db' - 1)"

lemma lost_commit_calm: "lost_commit cx db db' e \<Longrightarrow> \<not> calm cx db"
  by (auto simp: lost_commit_def calm_def)

lemma writes_outcome:
  assumes body: "runs cx body p" and saved: "db_saved db = None"
    and run: "writes d False cx body db = (db', r)"
  shows "same_db db db' \<and>
    (case r of
       Inr x \<Rightarrow> p (locked d (db_tables db)) = Inr (db_tables db', x)
     | Inl e \<Rightarrow> db_tables db' = db_tables db \<and> (p (locked d (db_tables db)) = Inl e \<or> \<not> calm cx db) \<or>
         lost_commit cx db db' e \<and> (\<exists>x. p (locked d (db_tables db)) = Inr (db_tables db', x)))"
proof (cases rule: trip_cases [of cx db])
  case (down e)
  with run show ?thesis by (auto simp: writes_def beginWrite_def same_db_def)
next
  case up
  let ?db1 = "db\<lparr>db_clock := db_clock db + 1, db_saved := Some (db_tables db)\<rparr>"
  have same1: "calm cx ?db1 \<longleftrightarrow> calm cx db" by (simp add: calm_def)
  obtain db2 r2 where lock: "takeLock d cx ?db1 = (db2, r2)" by force
  note two = runs_takeLock [of cx d, unfolded runs_def, rule_format, OF lock]
  show ?thesis
  proof (cases r2)
    case (Inl e)
    with run up lock two same1 saved show ?thesis
      by (auto simp: writes_def beginWrite_def same_db_def rollbackOwned_def)
  next
    case (Inr u)
    with two have same2: "same_db ?db1 db2" and t2: "db_tables db2 = locked d (db_tables db)" by auto
    obtain db3 r3 where run3: "body db2 = (db3, r3)" by force
    note three = body [unfolded runs_def, rule_format, OF run3]
    have begin_ok: "beginWrite d False cx db = (db2, Inr True)"
      using up lock Inr by (simp add: beginWrite_def Let_def)
    have saved3: "db_saved db3 = Some (db_tables db)" using three same2 by (simp add: same_db_def)
    have frame: "same_db db (db3\<lparr>db_saved := None\<rparr>)" using three same2 saved by (simp add: same_db_def)
    have calm3: "calm cx db2 \<longleftrightarrow> calm cx db" "calm cx db3 \<longleftrightarrow> calm cx db"
      using three same2 same1 by (auto simp: same_db_calm)
    show ?thesis
    proof (cases r3)
      case (Inl e)
      with run begin_ok run3 saved3 have "db' = db3\<lparr>db_tables := db_tables db, db_saved := None\<rparr>" "r = Inl e"
        by (auto simp: writes_def bindQ_def rollbackOwned_def)
      with three Inl frame calm3 t2 show ?thesis by (auto simp: same_db_def)
    next
      case (Inr x)
      show ?thesis
      proof (cases rule: trip_cases [of cx db3])
        case (down e)
        show ?thesis
        proof (cases "cx_Err cx = None \<and> db_kept db3 (db_clock db3)")
          case True
          with run begin_ok run3 Inr saved3 down
          have "db' = db3\<lparr>db_clock := db_clock db3 + 1, db_saved := None\<rparr>" "r = Inl e"
            by (auto simp: writes_def bindQ_def commitOwned_def rollbackOwned_def)
          moreover have "db_fault db3 (db_clock db3) = Some e"
            using down(1) True by (auto simp: trip_def split: option.splits)
          moreover have "db_fault db3 = db_fault db" "db_kept db3 = db_kept db" using frame by (simp_all add: same_db_def)
          ultimately show ?thesis
            using True three Inr frame t2 by (auto simp: same_db_def lost_commit_def)
        next
          case False
          with run begin_ok run3 Inr saved3 down
          have "db' = db3\<lparr>db_clock := db_clock db3 + 1, db_tables := db_tables db, db_saved := None\<rparr>" "r = Inl e"
            by (auto simp: writes_def bindQ_def commitOwned_def rollbackOwned_def)
          with down frame calm3 show ?thesis by (auto simp: same_db_def)
        qed
      next
        case up
        with run begin_ok run3 Inr saved3
        have "db' = db3\<lparr>db_clock := db_clock db3 + 1, db_saved := None\<rparr>" "r = Inr x"
          by (auto simp: writes_def bindQ_def commitOwned_def rollbackOwned_def returnQ_def)
        with three Inr frame t2 show ?thesis by (auto simp: same_db_def)
      qed
    qed
  qed
qed

subsection \<open>The tables as an abstract state\<close>

definition tab_roles :: "tables \<Rightarrow> (string, permission fset \<times> string fset) fmap" where
  "tab_roles t = fmmap_keys (\<lambda>n _. (perms_of t n, parents_in t n)) (tb_roles t)"

definition tab_abs :: "tables \<Rightarrow> rbac" where
  "tab_abs t = \<lparr>ab_roles = tab_roles t, ab_assign = tb_assign t, ab_rules = tb_rules t, 
     ab_meta = fmmap json_Decode (tb_metadata t)\<rparr>"

text \<open>The traits of this store: a role that is its own parent closes a cycle, and metadata is kept as JSON.\<close>

definition sql_traits :: store_traits where
  "sql_traits = \<lparr>tr_self = ErrCycleDetected, tr_stored = json_metadata\<rparr>"

lemma sql_traits_sel [simp]: "tr_self sql_traits = ErrCycleDetected" "tr_stored sql_traits = json_metadata"
  by (simp_all add: sql_traits_def)

text \<open>Detail rows belong to roles, and the state is well formed.\<close>

definition rows_ok :: "tables \<Rightarrow> bool" where
  "rows_ok t \<longleftrightarrow>
     (\<forall>n p. (n, p) |\<in>| tb_perms t \<longrightarrow> fmhas (tb_roles t) n) \<and>
     (\<forall>n p. (n, p) |\<in>| tb_parents t \<longrightarrow> fmhas (tb_roles t) n)"

definition tables_ok :: "tables \<Rightarrow> bool" where
  "tables_ok t \<longleftrightarrow> rows_ok t \<and> wf_rbac (tab_abs t)"

lemma tab_abs_sel [simp]:
  "ab_roles (tab_abs t) = tab_roles t" "ab_assign (tab_abs t) = tb_assign t"
  "ab_rules (tab_abs t) = tb_rules t" "ab_meta (tab_abs t) = fmmap json_Decode (tb_metadata t)"
  by (simp_all add: tab_abs_def)

lemma perms_of_iff [simp]: "p |\<in>| perms_of t n \<longleftrightarrow> (n, p) |\<in>| tb_perms t"
  by (force simp: perms_of_def)

lemma parents_in_iff [simp]: "p |\<in>| parents_in t n \<longleftrightarrow> (n, p) |\<in>| tb_parents t"
  by (force simp: parents_in_def)

lemma roles_of_user_iff [simp]: "r |\<in>| roles_of_user t u \<longleftrightarrow> (u, r) |\<in>| tb_assign t"
  by (force simp: roles_of_user_def)

lemma tab_roles_lookup:
  "fmlookup (tab_roles t) n = (if fmhas (tb_roles t) n then Some (perms_of t n, parents_in t n) else None)"
  by (cases "fmlookup (tb_roles t) n") (simp_all add: tab_roles_def fmhas_def)

lemma fmhas_tab_roles [simp]: "fmhas (tab_roles t) n \<longleftrightarrow> fmhas (tb_roles t) n"
  by (simp add: fmhas_def [of "tab_roles t"] tab_roles_lookup)

lemma tables_okD:
  assumes "tables_ok t"
  shows "(n, q) |\<in>| tb_perms t \<Longrightarrow> fmhas (tb_roles t) n"
    and "(n, p) |\<in>| tb_parents t \<Longrightarrow> fmhas (tb_roles t) n"
    and "wf_rbac (tab_abs t)"
    and "ab_parent (tab_roles t) n p \<longleftrightarrow> (n, p) |\<in>| tb_parents t"
    and "(n, p) |\<in>| tb_parents t \<Longrightarrow> fmhas (tb_roles t) p"
proof -
  show rows: "fmhas (tb_roles t) n" if "(n, p) |\<in>| tb_parents t" for n p using assms that unfolding tables_ok_def rows_ok_def by blast
  show "fmhas (tb_roles t) n" if "(n, q) |\<in>| tb_perms t" using assms that unfolding tables_ok_def rows_ok_def by blast
  show wf: "wf_rbac (tab_abs t)" using assms by (simp add: tables_ok_def)
  show link: "ab_parent (tab_roles t) n p \<longleftrightarrow> (n, p) |\<in>| tb_parents t" for n p
    using rows by (auto simp: ab_parent_def tab_roles_lookup)
  show "fmhas (tb_roles t) p" if "(n, p) |\<in>| tb_parents t"
    using wf_rbacD(2) [OF wf, of n p] that by (simp add: link)
qed

subsection \<open>Outcomes of the statements of a method\<close>

definition refines :: "unit statement \<Rightarrow> (rbac \<Rightarrow> err + rbac) \<Rightarrow> bool" where
  "refines p g \<longleftrightarrow>
     (\<forall>t. tables_ok t \<longrightarrow>
        (case g (tab_abs t) of
           Inl e \<Rightarrow> p t = Inl e
         | Inr A \<Rightarrow> \<exists>t'. p t = Inr (t', ()) \<and> tab_abs t' = A \<and> tables_ok t'))"

definition existsP :: "string \<Rightarrow> bool statement" where
  "existsP name = bindP (roleExists name) (\<lambda>count. returnP (count > 0))"

definition detailsP :: "role \<Rightarrow> unit statement" where
  "detailsP role =
     bindP (forP (insertPerm (role_Name role)) (role_Permissions role)) (\<lambda>_.
       forP (\<lambda>parent. bindP (existsP parent)
          (\<lambda>ok. if \<not> ok then failP ErrParentNotFound else insertParent (role_Name role) parent))
          (role_Parents role))"

definition cyclesP :: "string \<Rightarrow> unit statement" where
  "cyclesP name = bindP (cycleCheck name) (\<lambda>count. if count > 0 then failP ErrCycleDetected else returnP ())"

lemma existsP [simp]: "existsP n t = Inr (t, fmhas (tb_roles t) n)"
  by (simp add: existsP_def bindP_def roleExists_def returnP_def)

lemma cyclesP [simp]:
  "cyclesP n t = (if (linked (tb_parents t))\<^sup>+\<^sup>+ n n then Inl ErrCycleDetected else Inr (t, ()))"
  by (simp add: cyclesP_def bindP_def cycleCheck_exact returnP_def failP_def)

lemma forP_insertPerm:
  "forP (insertPerm n) ps t = Inr (t\<lparr>tb_perms := tb_perms t |\<union>| (Pair n |`| fset_of_list ps)\<rparr>, ())"
  by (induction ps arbitrary: t) (simp_all add: returnP_def bindP_def insertPerm_def)

lemma forP_insertParent:
  "forP (\<lambda>p. bindP (existsP p) (\<lambda>ok. if \<not> ok then failP ErrParentNotFound else insertParent n p)) ps t =
     (if \<exists>p \<in> set ps. \<not> fmhas (tb_roles t) p then Inl ErrParentNotFound
      else Inr (t\<lparr>tb_parents := tb_parents t |\<union>| (Pair n |`| fset_of_list ps)\<rparr>, ()))"
  by (induction ps arbitrary: t) (auto simp: returnP_def bindP_def insertParent_def failP_def)

lemma detailsP:
  "detailsP role t =
     (if \<exists>p \<in> set (role_Parents role). \<not> fmhas (tb_roles t) p then Inl ErrParentNotFound
      else Inr (t\<lparr>tb_perms := tb_perms t |\<union>| (Pair (role_Name role) |`| fset_of_list (role_Permissions role)),
                  tb_parents := tb_parents t |\<union>| (Pair (role_Name role) |`| fset_of_list (role_Parents role))\<rparr>, ()))"
  by (auto simp: detailsP_def bindP_def forP_insertPerm forP_insertParent)

text \<open>The tables after a role is written in place of what they hold of it.\<close>

definition put_role :: "role \<Rightarrow> tables \<Rightarrow> tables" where
  "put_role role t = t
     \<lparr>tb_roles := fmupd (role_Name role) () (tb_roles t),
      tb_perms := ffilter (\<lambda>(r, _). r \<noteq> role_Name role) (tb_perms t) |\<union>| (Pair (role_Name role) |`| fset_of_list (role_Permissions role)),
      tb_parents := ffilter (\<lambda>(r, _). r \<noteq> role_Name role) (tb_parents t) |\<union>| (Pair (role_Name role) |`| fset_of_list (role_Parents role))\<rparr>"

lemma put_role_abs:
  "tab_abs (put_role role t) = (tab_abs t)\<lparr>ab_roles := fmupd (role_Name role) (role_entry role) (tab_roles t)\<rparr>"
proof -
  have "fmlookup (tab_roles (put_role role t)) n = fmlookup (fmupd (role_Name role) (role_entry role) (tab_roles t)) n" for n
    by (auto simp: tab_roles_lookup put_role_def role_entry_def fset_eq_iff)
  then have "tab_roles (put_role role t) = fmupd (role_Name role) (role_entry role) (tab_roles t)"
    by (rule fmap_ext)
  then show ?thesis by (simp add: tab_abs_def) (simp add: put_role_def)
qed

lemma put_role_linked:
  assumes "tables_ok t"
  shows "linked (tb_parents (put_role role t)) = ab_parent (fmupd (role_Name role) (role_entry role) (tab_roles t))"
  by (auto simp: fun_eq_iff ab_parent_fmupd tables_okD(4) [OF assms] put_role_def linked_def role_entry_def)

lemma put_role_rows: "rows_ok t \<Longrightarrow> rows_ok (put_role role t)"
  by (auto simp: rows_ok_def put_role_def)

lemma refinesI:
  assumes "\<And>t e. tables_ok t \<Longrightarrow> g (tab_abs t) = Inl e \<Longrightarrow> p t = Inl e"
    and "\<And>t A. tables_ok t \<Longrightarrow> g (tab_abs t) = Inr A \<Longrightarrow>
      \<exists>t'. p t = Inr (t', ()) \<and> tab_abs t' = A \<and> rows_ok t'"
    and "\<And>A A'. wf_rbac A \<Longrightarrow> g A = Inr A' \<Longrightarrow> wf_rbac A'"
  shows "refines p g"
  unfolding refines_def
proof (intro allI impI)
  fix t
  assume t: "tables_ok t"
  show "case g (tab_abs t) of Inl e \<Rightarrow> p t = Inl e
      | Inr A \<Rightarrow> \<exists>t'. p t = Inr (t', ()) \<and> tab_abs t' = A \<and> tables_ok t'"
  proof (cases "g (tab_abs t)")
    case (Inl e)
    with assms(1) [OF t Inl] show ?thesis by simp
  next
    case (Inr A)
    from assms(2) [OF t Inr] obtain t' where "p t = Inr (t', ())" "tab_abs t' = A" "rows_ok t'" by blast
    with assms(3) [OF _ Inr] t Inr show ?thesis by (auto simp: tables_ok_def)
  qed
qed

text \<open>What each method runs.\<close>

definition addP :: "role \<Rightarrow> unit statement" where
  "addP role =
     (if \<not> validRole role then failP ErrInvalidRole
      else bindP (existsP (role_Name role)) (\<lambda>exists. if exists then failP ErrRoleExists
        else bindP (insertRole (role_Name role)) (\<lambda>_. bindP (detailsP role) (\<lambda>_. cyclesP (role_Name role)))))"

definition updateP :: "role \<Rightarrow> unit statement" where
  "updateP role =
     (if \<not> validRole role then failP ErrInvalidRole
      else bindP (existsP (role_Name role)) (\<lambda>exists. if \<not> exists then failP ErrRoleNotFound
        else bindP (deleteRolePerms (role_Name role)) (\<lambda>_. bindP (deleteRoleParents (role_Name role))
          (\<lambda>_. bindP (detailsP role) (\<lambda>_. cyclesP (role_Name role))))))"

definition forRoleP :: "string \<Rightarrow> unit statement \<Rightarrow> unit statement" where
  "forRoleP name p = bindP (existsP name) (\<lambda>ok. if \<not> ok then failP ErrRoleNotFound else p)"

definition deleteP :: "string \<Rightarrow> unit statement" where
  "deleteP name = forRoleP name (bindP (bindP (roleInUse name) (\<lambda>count. returnP (count > 0)))
     (\<lambda>used. if used then failP ErrRoleInUse
      else bindP (deleteRules name) (\<lambda>_. bindP (deleteMetadata name) (\<lambda>_. bindP (deleteParentLinks name)
        (\<lambda>_. bindP (deleteRoleParents name) (\<lambda>_. bindP (deleteRolePerms name) (\<lambda>_. deleteRole name)))))))"

definition rulesP :: "string \<Rightarrow> policy_rule list \<Rightarrow> unit statement" where
  "rulesP name rules =
     (case cloneRules rules of Inl e \<Rightarrow> failP e | Inr payload \<Rightarrow> forRoleP name (upsertRules name payload))"

lemma forRoleP [simp]: "forRoleP n p t = (if fmhas (tb_roles t) n then p t else Inl ErrRoleNotFound)"
  by (simp add: forRoleP_def bindP_def failP_def)

lemma roleInUse_pos: "roleInUse n t = Inr (t, k) \<Longrightarrow> k > 0 \<longleftrightarrow> (\<exists>u. (u, n) |\<in>| tb_assign t)"
proof -
  assume "roleInUse n t = Inr (t, k)"
  then have k: "k = fcard (ffilter (\<lambda>(_, r). r = n) (tb_assign t))" by (simp add: roleInUse_def)
  have "k = 0 \<longleftrightarrow> ffilter (\<lambda>(_, r). r = n) (tb_assign t) = {||}" by (simp add: k fcard_0_eq)
  then show ?thesis by (auto simp: fset_eq_iff)
qed

lemma add_refines: "refines (addP role) (spec_AddRole sql_traits role)"
proof (rule refinesI)
  let ?n = "role_Name role"
  have run: "addP role t = (if \<not> validRole role then Inl ErrInvalidRole
      else if fmhas (tb_roles t) ?n then Inl ErrRoleExists
      else if missing_parent (tab_abs t) role then Inl ErrParentNotFound
      else if ?n \<in> set (role_Parents role) then Inl ErrCycleDetected
      else Inr (put_role role t, ()))" if t: "tables_ok t" for t
  proof (cases "fmhas (tb_roles t) ?n")
    case False
    let ?R = "fmupd ?n (role_entry role) (tab_roles t)"
    have put: "put_role role t = t\<lparr>tb_roles := fmupd ?n () (tb_roles t),
        tb_perms := tb_perms t |\<union>| (Pair ?n |`| fset_of_list (role_Permissions role)),
        tb_parents := tb_parents t |\<union>| (Pair ?n |`| fset_of_list (role_Parents role))\<rparr>"
      using False tables_okD(1,2) [OF t] unfolding put_role_def by (auto simp: fset_eq_iff intro!: tables.equality)
    have "(ab_parent ?R)\<^sup>+\<^sup>+ ?n ?n \<longleftrightarrow> ?n \<in> set (role_Parents role)"
    proof
      assume "?n \<in> set (role_Parents role)"
      then show "(ab_parent ?R)\<^sup>+\<^sup>+ ?n ?n" by (auto simp: ab_parent_fmupd role_entry_def intro: tranclp.r_into_trancl)
    next
      assume cycle: "(ab_parent ?R)\<^sup>+\<^sup>+ ?n ?n"
      have "\<not> ab_parent (tab_roles t) x ?n" for x
        using False tables_okD(5) [OF t] by (auto simp: tables_okD(4) [OF t])
      with ab_acyclic_new [OF _ this, of "role_entry role"] wf_rbacD(1) [OF tables_okD(3) [OF t]] cycle
      show "?n \<in> set (role_Parents role)" by (auto simp: ab_acyclic_def role_entry_def)
    qed
    then have cycle: "(linked (tb_parents (put_role role t)))\<^sup>+\<^sup>+ ?n ?n \<longleftrightarrow> ?n \<in> set (role_Parents role)"
      by (simp add: put_role_linked [OF t])
    have missing: "(\<exists>p \<in> set (role_Parents role). p \<noteq> ?n \<and> \<not> fmhas (tb_roles t) p) \<longleftrightarrow> missing_parent (tab_abs t) role"
      by (simp add: missing_parent_def)
    show ?thesis
      using False cycle missing by (auto simp: addP_def failP_def bindP_def insertRole_def detailsP put)
  qed (simp add: addP_def failP_def bindP_def)
  show "addP role t = Inl e" if "tables_ok t" "spec_AddRole sql_traits role (tab_abs t) = Inl e" for t e
    using that(2) by (auto simp: run [OF that(1)] spec_AddRole_def split: if_splits)
  show "\<exists>t'. addP role t = Inr (t', ()) \<and> tab_abs t' = A \<and> rows_ok t'"
    if "tables_ok t" "spec_AddRole sql_traits role (tab_abs t) = Inr A" for t A
    using that put_role_rows [of t role]
    by (auto simp: run [OF that(1)] spec_AddRole_def put_role_abs tables_ok_def split: if_splits)
qed (rule spec_AddRole_wf)

lemma update_refines: "refines (updateP role) (spec_UpdateRole role)"
proof (rule refinesI)
  let ?n = "role_Name role"
  have run: "updateP role t = (if \<not> validRole role then Inl ErrInvalidRole
      else if \<not> fmhas (tb_roles t) ?n then Inl ErrRoleNotFound
      else if missing_parent (tab_abs t) role then Inl ErrParentNotFound
      else if \<not> ab_acyclic (fmupd ?n (role_entry role) (tab_roles t)) then Inl ErrCycleDetected
      else Inr (put_role role t, ()))" if t: "tables_ok t" for t
  proof (cases "fmhas (tb_roles t) ?n")
    case True
    let ?R = "fmupd ?n (role_entry role) (tab_roles t)"
    let ?t = "t\<lparr>tb_perms := ffilter (\<lambda>(r, _). r \<noteq> ?n) (tb_perms t), tb_parents := ffilter (\<lambda>(r, _). r \<noteq> ?n) (tb_parents t)\<rparr>"
    have put: "put_role role t = ?t\<lparr>tb_perms := tb_perms ?t |\<union>| (Pair ?n |`| fset_of_list (role_Permissions role)),
        tb_parents := tb_parents ?t |\<union>| (Pair ?n |`| fset_of_list (role_Parents role))\<rparr>"
      using True by (simp add: put_role_def fmhas_def)
    have "(ab_parent ?R)\<^sup>+\<^sup>+ ?n ?n \<longleftrightarrow> \<not> ab_acyclic ?R"
    proof
      assume "\<not> ab_acyclic ?R"
      then obtain x where "(ab_parent ?R)\<^sup>+\<^sup>+ x x" by (auto simp: ab_acyclic_def)
      then show "(ab_parent ?R)\<^sup>+\<^sup>+ ?n ?n"
        using wf_rbacD(1) [OF tables_okD(3) [OF t]] unfolding ab_acyclic_def
        by (elim cycle_through [where P = "ab_parent (tab_roles t)", rotated 2]) (simp_all add: ab_parent_fmupd)
    qed (auto simp: ab_acyclic_def)
    then have cycle: "(linked (tb_parents (put_role role t)))\<^sup>+\<^sup>+ ?n ?n \<longleftrightarrow> \<not> ab_acyclic ?R"
      by (simp add: put_role_linked [OF t])
    have missing: "(\<exists>p \<in> set (role_Parents role). \<not> fmhas (tb_roles ?t) p) \<longleftrightarrow> missing_parent (tab_abs t) role"
      using True unfolding missing_parent_def tab_abs_sel fmhas_tab_roles by (simp, metis)
    have "updateP role t = (if \<not> validRole role then Inl ErrInvalidRole
        else case detailsP role ?t of Inl e \<Rightarrow> Inl e | Inr (t', _) \<Rightarrow> cyclesP ?n t')"
      using True by (simp add: updateP_def bindP_def failP_def deleteRolePerms_def deleteRoleParents_def)
    then show ?thesis
      unfolding detailsP missing put [symmetric] using True cycle by simp
  qed (simp add: updateP_def failP_def bindP_def)
  show "updateP role t = Inl e" if "tables_ok t" "spec_UpdateRole role (tab_abs t) = Inl e" for t e
    using that(2) by (auto simp: run [OF that(1)] spec_UpdateRole_def Let_def split: if_splits)
  show "\<exists>t'. updateP role t = Inr (t', ()) \<and> tab_abs t' = A \<and> rows_ok t'"
    if "tables_ok t" "spec_UpdateRole role (tab_abs t) = Inr A" for t A
    using that put_role_rows [of t role]
    by (auto simp: run [OF that(1)] spec_UpdateRole_def Let_def put_role_abs tables_ok_def split: if_splits)
qed (rule spec_UpdateRole_wf)

lemma tab_abs_update [simp]:
  "tab_abs (t\<lparr>tb_assign := a\<rparr>) = (tab_abs t)\<lparr>ab_assign := a\<rparr>" "rows_ok (t\<lparr>tb_assign := a\<rparr>) \<longleftrightarrow> rows_ok t"
  "tab_abs (t\<lparr>tb_rules := r\<rparr>) = (tab_abs t)\<lparr>ab_rules := r\<rparr>" "rows_ok (t\<lparr>tb_rules := r\<rparr>) \<longleftrightarrow> rows_ok t"
  "tab_abs (t\<lparr>tb_metadata := m\<rparr>) = (tab_abs t)\<lparr>ab_meta := fmmap json_Decode m\<rparr>" "rows_ok (t\<lparr>tb_metadata := m\<rparr>) \<longleftrightarrow> rows_ok t"
  "tab_abs (t\<lparr>tb_meta := x\<rparr>) = tab_abs t" "rows_ok (t\<lparr>tb_meta := x\<rparr>) \<longleftrightarrow> rows_ok t"
  by (simp_all add: tab_abs_def tab_roles_def perms_of_def parents_in_def rows_ok_def)

lemma assign_refines: "refines (forRoleP r (assignRole u r)) (spec_AssignRole u r)"
  by (rule refinesI [OF _ _ spec_AssignRole_wf])
    (auto simp: spec_AssignRole_def assignRole_def tables_ok_def split: if_splits)

lemma unassign_refines: "refines (forRoleP r (unassignRole u r)) (spec_UnassignRole u r)"
  by (rule refinesI [OF _ _ spec_UnassignRole_wf])
    (auto simp: spec_UnassignRole_def unassignRole_def tables_ok_def split: if_splits)

lemma rules_refines: "refines (rulesP n rules) (spec_SetRoleRules n rules)"
  by (rule refinesI [OF _ _ spec_SetRoleRules_wf])
    (auto simp: spec_SetRoleRules_def rulesP_def failP_def upsertRules_def tables_ok_def split: if_splits sum.splits)

lemma meta_refines: "refines (forRoleP n (upsertMetadata n (json_Marshal m))) (spec_SetRoleMetadata n (json_metadata m))"
  by (rule refinesI [OF _ _ spec_SetRoleMetadata_wf])
    (auto simp: spec_SetRoleMetadata_def upsertMetadata_def tables_ok_def fmmap_fmupd json_metadata_def split: if_splits)

text \<open>The tables after a role is deleted.\<close>

definition drop_role :: "string \<Rightarrow> tables \<Rightarrow> tables" where
  "drop_role n t = t
     \<lparr>tb_rules := fmdrop n (tb_rules t), tb_metadata := fmdrop n (tb_metadata t),
      tb_parents := ffilter (\<lambda>(r, _). r \<noteq> n) (ffilter (\<lambda>(_, p). p \<noteq> n) (tb_parents t)),
      tb_perms := ffilter (\<lambda>(r, _). r \<noteq> n) (tb_perms t), tb_roles := fmdrop n (tb_roles t)\<rparr>"

lemma drop_role_abs:
  "tab_abs (drop_role n t) = (tab_abs t)
     \<lparr>ab_roles := fmmap (\<lambda>e. (fst e, snd e |-| {|n|})) (fmdrop n (tab_roles t)),
      ab_rules := fmdrop n (tb_rules t), ab_meta := fmdrop n (fmmap json_Decode (tb_metadata t))\<rparr>"
proof -
  have "fmlookup (tab_roles (drop_role n t)) k =
      fmlookup (fmmap (\<lambda>e. (fst e, snd e |-| {|n|})) (fmdrop n (tab_roles t))) k" for k
    by (auto simp: tab_roles_lookup drop_role_def fset_eq_iff)
  then have "tab_roles (drop_role n t) = fmmap (\<lambda>e. (fst e, snd e |-| {|n|})) (fmdrop n (tab_roles t))"
    by (rule fmap_ext)
  then show ?thesis by (simp add: tab_abs_def) (simp add: drop_role_def)
qed

lemma delete_refines: "refines (deleteP n) (spec_DeleteRole n)"
proof (rule refinesI)
  have run: "deleteP n t = (if \<not> fmhas (tb_roles t) n then Inl ErrRoleNotFound
      else if \<exists>u. (u, n) |\<in>| tb_assign t then Inl ErrRoleInUse else Inr (drop_role n t, ()))" for t
  proof -
    obtain k where k: "roleInUse n t = Inr (t, k)" by (simp add: roleInUse_def)
    with roleInUse_pos [OF k] show ?thesis
      by (simp add: deleteP_def bindP_def returnP_def failP_def deleteRules_def deleteMetadata_def
          deleteParentLinks_def deleteRoleParents_def deleteRolePerms_def deleteRole_def drop_role_def)
  qed
  show "deleteP n t = Inl e" if "tables_ok t" "spec_DeleteRole n (tab_abs t) = Inl e" for t e
    using that(2) by (auto simp: run spec_DeleteRole_def split: if_splits)
  show "\<exists>t'. deleteP n t = Inr (t', ()) \<and> tab_abs t' = A \<and> rows_ok t'"
    if "tables_ok t" "spec_DeleteRole n (tab_abs t) = Inr A" for t A
  proof -
    have "rows_ok (drop_role n t)" using that(1) by (auto simp: tables_ok_def rows_ok_def drop_role_def)
    with that(2) show ?thesis by (auto simp: run spec_DeleteRole_def drop_role_abs split: if_splits)
  qed
qed (rule spec_DeleteRole_wf)

text \<open>Batches.\<close>

lemma refines_returnP: "refines (returnP ()) Inr"
  by (auto simp: refines_def returnP_def)

lemma refines_bindP:
  assumes "refines p g" and "refines q h"
  shows "refines (bindP p (\<lambda>_. q)) (\<lambda>A. bindE (g A) h)"
  unfolding refines_def
proof (intro allI impI)
  fix t
  assume t: "tables_ok t"
  show "case bindE (g (tab_abs t)) h of Inl e \<Rightarrow> bindP p (\<lambda>_. q) t = Inl e
      | Inr A \<Rightarrow> \<exists>t'. bindP p (\<lambda>_. q) t = Inr (t', ()) \<and> tab_abs t' = A \<and> tables_ok t'"
  proof (cases "g (tab_abs t)")
    case (Inl e)
    with assms(1) t have "p t = Inl e" by (auto simp: refines_def)
    with Inl show ?thesis by (simp add: bindE_def bindP_def)
  next
    case (Inr A)
    with assms(1) t obtain t' where p: "p t = Inr (t', ())" and A: "tab_abs t' = A" and t': "tables_ok t'"
      by (force simp: refines_def)
    have "bindP p (\<lambda>_. q) t = q t'" and "bindE (g (tab_abs t)) h = h (tab_abs t')"
      using p A Inr by (simp_all add: bindP_def bindE_def)
    with assms(2) t' show ?thesis by (simp only: refines_def)
  qed
qed

lemma refines_forP:
  assumes "\<And>x. refines (f x) (g x)"
  shows "refines (forP f xs) (forE g xs)"
proof (induction xs)
  case Nil
  show ?case using refines_returnP by (simp add: fun_eq_iff [symmetric] refines_def returnP_def)
next
  case (Cons x xs)
  have "forE g (x # xs) = (\<lambda>A. bindE (g x A) (forE g xs))" by (simp add: fun_eq_iff bindE_def)
  with refines_bindP [OF assms [of x] Cons.IH] show ?case by simp
qed

subsection \<open>What the methods run\<close>

text \<open>
  A method by itself commits what its statements do or nothing, and says so unless the answer to its
  commit is lost. \<open>carries d tx cx q p\<close> is the claim for
  a method inside (\<open>tx\<close>) and outside a batch.
\<close>

definition commits :: "dialect \<Rightarrow> ctx \<Rightarrow> 'a query \<Rightarrow> 'a statement \<Rightarrow> bool" where
  "commits d cx q p \<longleftrightarrow>
     (\<forall>db db' r. db_saved db = None \<longrightarrow> q db = (db', r) \<longrightarrow> same_db db db' \<and>
        (case r of
           Inr x \<Rightarrow> p (locked d (db_tables db)) = Inr (db_tables db', x)
         | Inl e \<Rightarrow> db_tables db' = db_tables db \<and> (p (locked d (db_tables db)) = Inl e \<or> \<not> calm cx db) \<or>
             lost_commit cx db db' e \<and> (\<exists>x. p (locked d (db_tables db)) = Inr (db_tables db', x))))"

definition carries :: "dialect \<Rightarrow> bool \<Rightarrow> ctx \<Rightarrow> 'a query \<Rightarrow> 'a statement \<Rightarrow> bool" where
  "carries d tx cx q p = (if tx then runs cx q p else commits d cx q p)"

lemma carries_failQ: "carries d tx cx (failQ e) (failP e)"
  using runs_failQ [of cx e] by (auto simp: carries_def commits_def failQ_def failP_def same_db_def)

lemma carries_writes: "runs cx body p \<Longrightarrow> carries d tx cx (writes d tx cx body) p"
  by (cases tx) (simp_all add: carries_def commits_def runs_writes_batch writes_outcome)

lemma carries_if:
  "carries d tx cx q p \<Longrightarrow> carries d tx cx q' p' \<Longrightarrow> carries d tx cx (if b then q else q') (if b then p else p')"
  by simp

lemma runs_exists_role [running]: "runs cx (exists_role cx n) (existsP n)"
  unfolding exists_role_def existsP_def by (intro running)

lemma runs_insert_details [running]: "runs cx (insert_details cx role) (detailsP role)"
  unfolding insert_details_def detailsP_def by (intro running)

lemma runs_checkCycles [running]: "runs cx (checkCycles cx n) (cyclesP n)"
  unfolding checkCycles_def cyclesP_def by (intro running)

lemma carries_for_role:
  "runs cx body p \<Longrightarrow> carries d tx cx (for_role d tx cx n body) (forRoleP n p)"
  unfolding for_role_def forRoleP_def by (intro carries_writes running)

lemma carries_AddRole: "carries d tx cx (sql_AddRole d tx cx role) (addP role)"
  unfolding sql_AddRole_def addP_def by (intro carries_if carries_failQ carries_writes running)

lemma carries_UpdateRole: "carries d tx cx (sql_UpdateRole d tx cx role) (updateP role)"
  unfolding sql_UpdateRole_def updateP_def by (intro carries_if carries_failQ carries_writes running)

lemma carries_AssignRole: "carries d tx cx (sql_AssignRole d tx cx u r) (forRoleP r (assignRole u r))"
  unfolding sql_AssignRole_def by (intro carries_for_role running)

lemma carries_UnassignRole: "carries d tx cx (sql_UnassignRole d tx cx u r) (forRoleP r (unassignRole u r))"
  unfolding sql_UnassignRole_def by (intro carries_for_role running)

lemma carries_DeleteRole: "carries d tx cx (sql_DeleteRole d tx cx n) (deleteP n)"
  unfolding sql_DeleteRole_def deleteP_def in_use_def by (intro carries_for_role running)

lemma carries_SetRoleMetadata: "carries d tx cx (sql_SetRoleMetadata d tx cx n m) (forRoleP n (upsertMetadata n (json_Marshal m)))"
  unfolding sql_SetRoleMetadata_def by (intro carries_for_role running)

lemma carries_SetRoleRules: "carries d tx cx (sql_SetRoleRules d tx cx n rules) (rulesP n rules)"
proof (cases "cloneRules rules")
  case (Inl e)
  then have "sql_SetRoleRules d tx cx n rules = failQ e"
    by (auto simp: sql_SetRoleRules_def cloneRules_def split: option.splits)
  with Inl show ?thesis by (simp add: rulesP_def carries_failQ)
next
  case (Inr payload)
  then have "sql_SetRoleRules d tx cx n rules = for_role d tx cx n (stmt cx (upsertRules n payload))"
    by (auto simp: sql_SetRoleRules_def cloneRules_def split: option.splits)
  with Inr show ?thesis by (simp add: rulesP_def carries_for_role running)
qed

lemmas carries_methods = carries_AddRole carries_UpdateRole carries_AssignRole carries_UnassignRole
  carries_DeleteRole carries_SetRoleRules carries_SetRoleMetadata

subsection \<open>Batches\<close>

lemma lift_mutation [simp]: "lift_mutation (mutation q) = q"
  by (auto simp: fun_eq_iff lift_mutation_def mutation_def split: prod.splits sum.splits option.splits)

lemma lift_forS: "lift_mutation (forS f xs) = forQ (\<lambda>x. lift_mutation (f x)) xs"
proof (induction xs)
  case Nil
  show ?case by (simp add: fun_eq_iff lift_mutation_def returnQ_def)
next
  case (Cons x xs)
  then show ?case
    by (auto simp: fun_eq_iff lift_mutation_def bindQ_def split: prod.splits option.splits)
qed

lemma lift_andS: "lift_mutation (andS f g) = thenQ (lift_mutation f) (lift_mutation g)"
  by (auto simp: fun_eq_iff lift_mutation_def bindQ_def andS_def split: prod.splits option.splits)

lemma lift_with_interface: "lift_mutation (with_interface (Some ops) f xs) = forQ (\<lambda>x. lift_mutation (f ops x)) xs"
proof -
  have "with_interface (Some ops) f xs = forS (f ops) xs" by (auto simp: fun_eq_iff with_interface_def)
  then show ?thesis by (simp add: lift_forS)
qed

lemma runs_done: "cx_Err cx \<noteq> None \<Longrightarrow> runs cx (failQ e) p"
  by (rule runsI) (auto simp: failQ_def same_db_def calm_def)

lemma runs_final: "runs cx (lift_mutation (\<lambda>s. (s, cx_Err cx))) (returnP ())"
  by (rule runsI) (auto simp: lift_mutation_def returnP_def same_db_def calm_def split: option.splits)

definition batchP :: "ctx \<Rightarrow> policy_batch \<Rightarrow> unit statement" where
  "batchP cx batch =
     (case validateBatch cx batch of Some e \<Rightarrow> failP e | None \<Rightarrow>
       bindP (forP addP (pb_Register batch)) (\<lambda>_.
       bindP (forP updateP (pb_Update batch)) (\<lambda>_.
       bindP (forP (\<lambda>(n, rules). rulesP n rules) (ranged cx (pb_RuleUpdates batch))) (\<lambda>_.
       bindP (forP (\<lambda>(n, m). forRoleP n (upsertMetadata n (json_Marshal m))) (ranged cx (pb_MetadataUpdates batch))) (\<lambda>_.
       bindP (forP (\<lambda>ra. forRoleP (ra_RoleName ra) (unassignRole (ra_UserID ra) (ra_RoleName ra))) (pb_Unassign batch)) (\<lambda>_.
       bindP (forP (\<lambda>ra. forRoleP (ra_RoleName ra) (assignRole (ra_UserID ra) (ra_RoleName ra))) (pb_Assign batch)) (\<lambda>_.
       bindP (forP deleteP (pb_Delete batch)) (\<lambda>_. returnP ()))))))))"

lemma batch_refines: "refines (batchP cx batch) (spec_ApplyBatch sql_traits cx batch)"
proof (cases "validateBatch cx batch")
  case (Some e)
  then show ?thesis by (simp add: refines_def batchP_def spec_ApplyBatch_def failP_def)
next
  case None
  have pairs: "refines (forP (\<lambda>(n, v). f n v) xs) (forE (\<lambda>(n, v). g n v) xs)"
    if "\<And>n v. refines (f n v) (g n v)" for f :: "string \<Rightarrow> 'v \<Rightarrow> unit statement" and g xs
    using that by (intro refines_forP) auto
  have last: "forE spec_DeleteRole (pb_Delete batch) = (\<lambda>A. bindE (forE spec_DeleteRole (pb_Delete batch) A) Inr)"
    by (simp add: fun_eq_iff bindE_def split: sum.split)
  have "spec_ApplyBatch sql_traits cx batch = (\<lambda>A.
       bindE (forE (spec_AddRole sql_traits) (pb_Register batch) A) (\<lambda>A.
       bindE (forE spec_UpdateRole (pb_Update batch) A) (\<lambda>A.
       bindE (forE (\<lambda>(n, rs). spec_SetRoleRules n rs) (ranged cx (pb_RuleUpdates batch)) A) (\<lambda>A.
       bindE (forE (\<lambda>(n, m). spec_SetRoleMetadata n (json_metadata m)) (ranged cx (pb_MetadataUpdates batch)) A) (\<lambda>A.
       bindE (forE (\<lambda>ra. spec_UnassignRole (ra_UserID ra) (ra_RoleName ra)) (pb_Unassign batch) A) (\<lambda>A.
       bindE (forE (\<lambda>ra. spec_AssignRole (ra_UserID ra) (ra_RoleName ra)) (pb_Assign batch) A) (\<lambda>A.
       bindE (forE spec_DeleteRole (pb_Delete batch) A) Inr)))))))"
    by (subst last [symmetric]) (simp add: fun_eq_iff spec_ApplyBatch_def None)
  then show ?thesis
    unfolding batchP_def None option.case
    by (simp only:) (intro refines_bindP refines_forP pairs refines_returnP add_refines update_refines
      rules_refines meta_refines unassign_refines assign_refines delete_refines)
qed

lemma runs_batch_body: "runs cx (lift_mutation (applyBatch (sql_base_ops d True) cx batch)) (batchP cx batch)"
proof (cases "validateBatch cx batch")
  case (Some e)
  then have "lift_mutation (applyBatch (sql_base_ops d True) cx batch) = failQ e"
    by (simp add: fun_eq_iff applyBatch_def lift_mutation_def failQ_def)
  with Some show ?thesis by (simp add: batchP_def runs_failQ)
next
  case None
  note methods = carries_methods [of d True, unfolded carries_def if_True]
  show ?thesis
  proof (cases "cx_Err cx")
    case (Some e)
    then have "lift_mutation (applyBatch (sql_base_ops d True) cx batch) = failQ e"
      by (simp add: fun_eq_iff applyBatch_def lift_mutation_def failQ_def None)
    with Some show ?thesis by (simp add: runs_done)
  next
    case live: None
    have ops: "applyBatch (sql_base_ops d True) cx batch =
      andS (forS (\<lambda>role. mutation (sql_AddRole d True cx role)) (pb_Register batch)) (
      andS (with_interface (so_UpdateRole (sql_base_ops d True)) (\<lambda>u. u cx) (pb_Update batch)) (
      andS (with_interface (so_RuleStore (sql_base_ops d True))
        (\<lambda>rs (name, value). rs_SetRoleRules rs cx name value) (ranged cx (pb_RuleUpdates batch))) (
      andS (with_interface (so_MetadataStore (sql_base_ops d True))
        (\<lambda>md (name, value). md_SetRoleMetadata md cx name value) (ranged cx (pb_MetadataUpdates batch))) (
      andS (with_interface (so_UnassignRole (sql_base_ops d True))
        (\<lambda>u ra. u cx (ra_UserID ra) (ra_RoleName ra)) (pb_Unassign batch)) (
      andS (forS (\<lambda>ra. mutation (sql_AssignRole d True cx (ra_UserID ra) (ra_RoleName ra))) (pb_Assign batch)) (
      andS (with_interface (so_DeleteRole (sql_base_ops d True)) (\<lambda>dl. dl cx) (pb_Delete batch))
        (\<lambda>s. (s, cx_Err cx))))))))"
      by (simp add: fun_eq_iff applyBatch_def None live) (simp add: sql_base_ops_def)
    have "lift_mutation (applyBatch (sql_base_ops d True) cx batch) =
      thenQ (forQ (sql_AddRole d True cx) (pb_Register batch)) (
      thenQ (forQ (sql_UpdateRole d True cx) (pb_Update batch)) (
      thenQ (forQ (\<lambda>(n, rules). sql_SetRoleRules d True cx n rules) (ranged cx (pb_RuleUpdates batch))) (
      thenQ (forQ (\<lambda>(n, m). sql_SetRoleMetadata d True cx n m) (ranged cx (pb_MetadataUpdates batch))) (
      thenQ (forQ (\<lambda>ra. sql_UnassignRole d True cx (ra_UserID ra) (ra_RoleName ra)) (pb_Unassign batch)) (
      thenQ (forQ (\<lambda>ra. sql_AssignRole d True cx (ra_UserID ra) (ra_RoleName ra)) (pb_Assign batch)) (
      thenQ (forQ (sql_DeleteRole d True cx) (pb_Delete batch))
        (lift_mutation (\<lambda>s. (s, cx_Err cx)))))))))"
      unfolding ops
      by (simp add: lift_andS lift_forS lift_with_interface sql_base_ops_def sql_rules_ops_def sql_metadata_ops_def
          case_prod_beta')
    then show ?thesis
      unfolding batchP_def None option.case
      by (simp only:) (intro runs_bindQ runs_forQ runs_final, auto intro: methods)
  qed
qed

end
