(* ===== verification/SqlContract.thy ===== *)
theory SqlContract
  imports SqlRefine
begin

text \<open>
  The SQL store, in every dialect, meets the store contract, so the Enforcer works over it as over the
  memory store. If the database may fail at any statement, each method is still atomic.
\<close>

subsection \<open>Mutations\<close>

definition sql_abs :: "sqldb \<Rightarrow> rbac" where "sql_abs db = tab_abs (db_tables db)"

text \<open>No transaction is open, the tables are in order, and rows come in some order, each once.\<close>

definition sql_sound :: "sqldb \<Rightarrow> bool" where
  "sql_sound db \<longleftrightarrow> tables_ok (db_tables db) \<and> db_saved db = None \<and>
     (\<forall>rows. distinct (db_permRows db rows) \<and> set (db_permRows db rows) = fset rows) \<and>
     (\<forall>rows. distinct (db_nameRows db rows) \<and> set (db_nameRows db rows) = fset rows)"

definition sql_ok :: "sqldb \<Rightarrow> bool" where
  "sql_ok db \<longleftrightarrow> sql_sound db \<and> (\<forall>k. db_fault db k = None)"

lemma sql_sound_next:
  "sql_sound db \<Longrightarrow> same_db db db' \<Longrightarrow> tables_ok (db_tables db') \<Longrightarrow> sql_sound db'"
  by (simp add: sql_sound_def same_db_def)

lemma locked_abs [simp]: "tab_abs (locked d t) = tab_abs t" "tables_ok (locked d t) \<longleftrightarrow> tables_ok t"
  by (simp_all add: locked_def tables_ok_def)

text \<open>Any method, on any context, whatever statement fails.\<close>

lemma commits_cases:
  assumes "carries d False cx q p" and "refines p g" and "sql_sound db"
  obtains (refused) e where "snd (mutation q db) = Some e" and "db_tables (fst (mutation q db)) = db_tables db"
      and "same_db db (fst (mutation q db))" and "sql_sound (fst (mutation q db))"
      and "calm cx db \<Longrightarrow> g (sql_abs db) = Inl e"
    | (lost) e where "snd (mutation q db) = Some e" and "lost_commit cx db (fst (mutation q db)) e"
      and "g (sql_abs db) = Inr (sql_abs (fst (mutation q db)))"
      and "same_db db (fst (mutation q db))" and "sql_sound (fst (mutation q db))"
    | (applied) "snd (mutation q db) = None" and "g (sql_abs db) = Inr (sql_abs (fst (mutation q db)))"
      and "same_db db (fst (mutation q db))" and "sql_sound (fst (mutation q db))"
proof -
  obtain db' r where run: "q db = (db', r)" by force
  have saved: "db_saved db = None" and ok: "tables_ok (db_tables db)" using assms(3) by (simp_all add: sql_sound_def)
  from assms(1) saved run have out: "same_db db db'" "case r of
      Inr x \<Rightarrow> p (locked d (db_tables db)) = Inr (db_tables db', x)
    | Inl e \<Rightarrow> db_tables db' = db_tables db \<and> (p (locked d (db_tables db)) = Inl e \<or> \<not> calm cx db) \<or>
        lost_commit cx db db' e \<and> (\<exists>x. p (locked d (db_tables db)) = Inr (db_tables db', x))"
    unfolding carries_def commits_def by auto
  have spec: "case g (sql_abs db) of Inl e \<Rightarrow> p (locked d (db_tables db)) = Inl e
      | Inr A \<Rightarrow> \<exists>t'. p (locked d (db_tables db)) = Inr (t', ()) \<and> tab_abs t' = A \<and> tables_ok t'"
    using assms(2) ok by (auto simp: refines_def sql_abs_def dest: spec [of _ "locked d (db_tables db)"])
  have effect: "g (sql_abs db) = Inr (sql_abs db')" "sql_sound db'" if "p (locked d (db_tables db)) = Inr (db_tables db', x)" for x
  proof -
    from that spec have "g (sql_abs db) = Inr (sql_abs db')" and ok': "tables_ok (db_tables db')"
      by (auto simp: sql_abs_def split: sum.splits)
    then show "g (sql_abs db) = Inr (sql_abs db')" "sql_sound db'"
      using sql_sound_next [OF assms(3) out(1) ok'] by simp_all
  qed
  show thesis
  proof (cases r)
    case (Inl e)
    with run have m: "mutation q db = (db', Some e)" by (simp add: mutation_def)
    from Inl out(2) consider
        "db_tables db' = db_tables db" "p (locked d (db_tables db)) = Inl e \<or> \<not> calm cx db"
      | x where "lost_commit cx db db' e" "p (locked d (db_tables db)) = Inr (db_tables db', x)" by auto
    then show thesis
    proof cases
      case 1
      have "sql_sound db'" by (rule sql_sound_next [OF assms(3) out(1)]) (simp add: 1 ok)
      moreover have "g (sql_abs db) = Inl e" if "calm cx db"
        using that 1(2) spec by (auto split: sum.splits)
      ultimately show thesis using refused [of e] m 1(1) out(1) by simp
    next
      case 2
      then show thesis using lost [of e] m effect [OF 2(2)] out(1) by simp
    qed
  next
    case (Inr u)
    with run have m: "mutation q db = (db', None)" by (simp add: mutation_def)
    from Inr out have "p (locked d (db_tables db)) = Inr (db_tables db', ())" by simp
    from effect [OF this] m out(1) show thesis using applied by simp
  qed
qed

lemma sql_ok_performs:
  assumes "carries d False cx q p" and "refines p g" and "sql_ok db"
  shows "performs sql_ok sql_abs (mutation q) db (g (sql_abs db))"
proof -
  have "sql_sound db" using assms(3) by (simp add: sql_ok_def)
  then show ?thesis
    using assms(3)
    by - (rule commits_cases [OF assms(1,2)], auto simp: performs_def sql_abs_def sql_ok_def same_db_def lost_commit_def)
qed

lemma sql_ok_implements:
  assumes "carries d False cx q p" and "refines p g" and "sql_ok db" and "cx_Err cx = None"
  shows "implements sql_ok sql_abs (mutation q) db (g (sql_abs db))"
proof -
  have "sql_sound db" and "calm cx db" using assms(3,4) by (simp_all add: sql_ok_def calm_def)
  then show ?thesis
    using assms(3)
    by - (rule commits_cases [OF assms(1,2)], auto simp: implements_def sql_abs_def sql_ok_def same_db_def lost_commit_def)
qed

lemma carries_batch: "carries d False cx (sql_ApplyPolicyBatch d False cx batch) (batchP cx batch)"
proof (cases "validateBatch cx batch")
  case (Some e)
  then show ?thesis by (simp add: sql_ApplyPolicyBatch_def batchP_def carries_failQ)
next
  case None
  then show ?thesis by (simp add: sql_ApplyPolicyBatch_def carries_writes runs_batch_body)
qed

subsection \<open>Reads\<close>

lemma tick [simp]:
  "db_tables (db\<lparr>db_clock := k\<rparr>) = db_tables db" "rolePerms n (db\<lparr>db_clock := k\<rparr>) = rolePerms n db"
  "roleParents n (db\<lparr>db_clock := k\<rparr>) = roleParents n db" "userRoles u (db\<lparr>db_clock := k\<rparr>) = userRoles u db"
  "roleNames d pat (db\<lparr>db_clock := k\<rparr>) = roleNames d pat db" "listPerms d pat (db\<lparr>db_clock := k\<rparr>) = listPerms d pat db"
  "listParents d pat (db\<lparr>db_clock := k\<rparr>) = listParents d pat db"
  by (simp_all add: rolePerms_def [abs_def] roleParents_def [abs_def] userRoles_def roleNames_def listPerms_def listParents_def)

text \<open>A query that changes no table, and what it answers if nothing fails.\<close>

definition reads :: "ctx \<Rightarrow> 'a query \<Rightarrow> (sqldb \<Rightarrow> err + 'a) \<Rightarrow> bool" where
  "reads cx q f \<longleftrightarrow>
     (\<forall>db. (\<exists>k. fst (q db) = db\<lparr>db_clock := k\<rparr>) \<and> (\<forall>k. f (db\<lparr>db_clock := k\<rparr>) = f db) \<and>
        (case snd (q db) of Inr x \<Rightarrow> f db = Inr x | Inl e \<Rightarrow> f db = Inl e \<or> \<not> calm cx db))"

lemma readsI:
  assumes "\<And>db k. f (db\<lparr>db_clock := k\<rparr>) = f db"
    and "\<And>db. \<exists>k r. q db = (db\<lparr>db_clock := k\<rparr>, r) \<and>
      (case r of Inr x \<Rightarrow> f db = Inr x | Inl e \<Rightarrow> f db = Inl e \<or> \<not> calm cx db)"
  shows "reads cx q f"
  unfolding reads_def using assms by (metis fst_conv snd_conv)

lemma reads_returnQ: "reads cx (returnQ x) (\<lambda>_. Inr x)"
  by (rule readsI) (auto simp: returnQ_def intro!: exI [where P = "\<lambda>k. db = db\<lparr>db_clock := k\<rparr>" for db] sqldb.equality)

lemma reads_failQ: "reads cx (failQ e) (\<lambda>_. Inl e)"
  by (rule readsI) (auto simp: failQ_def intro!: exI [where P = "\<lambda>k. db = db\<lparr>db_clock := k\<rparr>" for db] sqldb.equality)

lemma reads_select_rows:
  assumes "\<And>db k. f (db\<lparr>db_clock := k\<rparr>) = f db"
  shows "reads cx (select_rows cx f) (\<lambda>db. Inr (f db))"
proof (rule readsI)
  show "\<exists>k r. select_rows cx f db = (db\<lparr>db_clock := k\<rparr>, r) \<and> (case r of Inr x \<Rightarrow> Inr (f db) = Inr x
      | Inl e \<Rightarrow> Inr (f db) = Inl e \<or> \<not> calm cx db)" for db
    by (rule trip_cases [of cx db]) (auto simp: select_rows_def bindQ_def assms)
qed (simp add: assms)

lemma reads_exists_role: "reads cx (exists_role cx n) (\<lambda>db. Inr (fmhas (tb_roles (db_tables db)) n))"
proof (rule readsI)
  fix db :: sqldb
  have tables: "db\<lparr>db_clock := k, db_tables := db_tables db\<rparr> = db\<lparr>db_clock := k\<rparr>" for k by simp
  show "\<exists>k r. exists_role cx n db = (db\<lparr>db_clock := k\<rparr>, r) \<and> (case r of
        Inr x \<Rightarrow> Inr (fmhas (tb_roles (db_tables db)) n) = Inr x
      | Inl e \<Rightarrow> Inr (fmhas (tb_roles (db_tables db)) n) = Inl e \<or> \<not> calm cx db)"
    by (rule trip_cases [of cx db])
      (auto simp: exists_role_def stmt_def bindQ_def roleExists_def returnQ_def tables)
qed simp

lemma reads_bindQ:
  assumes q: "reads cx q f" and r: "\<And>x. reads cx (r x) (h x)"
  shows "reads cx (bindQ q r) (\<lambda>db. case f db of Inl e \<Rightarrow> Inl e | Inr x \<Rightarrow> h x db)"
proof (rule readsI)
  fix db :: sqldb
  obtain k u where one: "q db = (db\<lparr>db_clock := k\<rparr>, u)"
    and u: "case u of Inr x \<Rightarrow> f db = Inr x | Inl e \<Rightarrow> f db = Inl e \<or> \<not> calm cx db"
    using q unfolding reads_def by (metis prod.collapse)
  show "\<exists>k v. bindQ q r db = (db\<lparr>db_clock := k\<rparr>, v) \<and> (case v of
        Inr y \<Rightarrow> (case f db of Inl e \<Rightarrow> Inl e | Inr x \<Rightarrow> h x db) = Inr y
      | Inl e \<Rightarrow> (case f db of Inl e \<Rightarrow> Inl e | Inr x \<Rightarrow> h x db) = Inl e \<or> \<not> calm cx db)"
  proof (cases u)
    case (Inl e)
    with one u show ?thesis by (auto simp: bindQ_def)
  next
    case (Inr x)
    let ?db = "db\<lparr>db_clock := k\<rparr>"
    obtain k' v where two: "r x ?db = (?db\<lparr>db_clock := k'\<rparr>, v)"
      and v: "case v of Inr y \<Rightarrow> h x ?db = Inr y | Inl e \<Rightarrow> h x ?db = Inl e \<or> \<not> calm cx ?db"
      using r [of x] unfolding reads_def by (metis prod.collapse)
    have "h x ?db = h x db" and "calm cx ?db \<longleftrightarrow> calm cx db" using r [of x] by (simp_all add: reads_def calm_def)
    moreover have "bindQ q r db = (db\<lparr>db_clock := k'\<rparr>, v)" using one two Inr by (simp add: bindQ_def)
    ultimately show ?thesis using u v Inr by (intro exI [of _ k'] exI [of _ v]) (auto split: sum.splits)
  qed
next
  show "(case f (db\<lparr>db_clock := k\<rparr>) of Inl e \<Rightarrow> Inl e | Inr x \<Rightarrow> h x (db\<lparr>db_clock := k\<rparr>)) =
      (case f db of Inl e \<Rightarrow> Inl e | Inr x \<Rightarrow> h x db)" for db k
    using q r by (simp add: reads_def split: sum.split)
qed

lemma reads_if: "reads cx q f \<Longrightarrow> reads cx q' f' \<Longrightarrow> reads cx (if b then q else q') (if b then f else f')"
  by simp

lemma reads_answer:
  assumes "reads cx q f"
  shows "answer q db = Inr x \<Longrightarrow> f db = Inr x"
    and "calm cx db \<Longrightarrow> answer q db = f db"
proof -
  have "case snd (q db) of Inr x \<Rightarrow> f db = Inr x | Inl e \<Rightarrow> f db = Inl e \<or> \<not> calm cx db"
    using assms by (simp add: reads_def)
  then show "answer q db = Inr x \<Longrightarrow> f db = Inr x" and "calm cx db \<Longrightarrow> answer q db = f db"
    unfolding answer_def by (cases "snd (q db)"; simp)+
qed

lemma reads_cong: "reads cx q f \<Longrightarrow> (\<And>db. f db = g db) \<Longrightarrow> reads cx q g"
  by (subgoal_tac "f = g") auto

lemmas reading = reads_exists_role reads_bindQ reads_if reads_returnQ reads_failQ
  reads_select_rows [of "rolePerms n" for n, OF tick(2)] reads_select_rows [of "roleParents n" for n, OF tick(3)]
  reads_select_rows [of "userRoles u" for u, OF tick(4)] reads_select_rows [of "roleNames d pat" for d pat, OF tick(5)]
  reads_select_rows [of "listPerms d pat" for d pat, OF tick(6)] reads_select_rows [of "listParents d pat" for d pat, OF tick(7)]

lemma reads_GetRole:
  "reads cx (sql_GetRole cx n)
     (\<lambda>db. Inr (if fmhas (tb_roles (db_tables db)) n then Some (read_role db n) else None))"
  unfolding sql_GetRole_def by (rule reads_cong, (rule reading)+) (simp_all add: read_role_def)

lemma reads_GetRoles: "reads cx (sql_GetRoles cx u) (\<lambda>db. Inr (userRoles u db))"
  unfolding sql_GetRoles_def by (rule reading)

lemma reads_detail:
  assumes "\<And>db k. table (db_tables (db\<lparr>db_clock := k\<rparr>)) = table (db_tables db)"
  shows "reads cx (role_detail cx n table none)
     (\<lambda>db. if fmhas (tb_roles (db_tables db)) n
        then Inr (case fmlookup (table (db_tables db)) n of None \<Rightarrow> none | Some v \<Rightarrow> v) else Inl ErrRoleNotFound)"
proof -
  have "reads cx (select_rows cx (\<lambda>db. case fmlookup (table (db_tables db)) n of None \<Rightarrow> none | Some v \<Rightarrow> v))
      (\<lambda>db. Inr (case fmlookup (table (db_tables db)) n of None \<Rightarrow> none | Some v \<Rightarrow> v))"
    by (rule reads_select_rows) simp
  then show ?thesis
    unfolding role_detail_def by - (rule reads_cong, (rule reading | assumption)+, simp_all)
qed

lemma reads_GetRoleMetadata:
  "reads cx (sql_GetRoleMetadata cx n)
     (\<lambda>db. if fmhas (tb_roles (db_tables db)) n then Inr (meta_of (sql_abs db) n) else Inl ErrRoleNotFound)"
  unfolding sql_GetRoleMetadata_def
  by (rule reads_cong [OF reads_bindQ [OF reads_detail reads_returnQ]])
    (auto simp: meta_of_def sql_abs_def json_Decode_def split: option.split)

lemma reads_GetRoleRules:
  "reads cx (sql_GetRoleRules cx n)
     (\<lambda>db. if fmhas (tb_roles (db_tables db)) n
        then (case validateRules (rules_of (sql_abs db) n) of Some e \<Rightarrow> Inl e | None \<Rightarrow> Inr (rules_of (sql_abs db) n))
        else Inl ErrRoleNotFound)"
proof -
  have check: "reads cx (case validateRules rules of Some e \<Rightarrow> failQ e | None \<Rightarrow> returnQ rules)
      (\<lambda>_. case validateRules rules of Some e \<Rightarrow> Inl e | None \<Rightarrow> Inr rules)" for rules
    by (cases "validateRules rules") (simp_all add: reading)
  show ?thesis
    unfolding sql_GetRoleRules_def
    by (rule reads_cong [OF reads_bindQ [OF reads_detail check]]) (simp_all add: rules_of_def sql_abs_def cong: option.case_cong)
qed

lemma reads_listRolesPattern:
  "reads cx (listRolesPattern d cx pat)
     (\<lambda>db. Inr (fold addParent (listParents d pat db) (fold addPerm (listPerms d pat db)
        (map (\<lambda>n. \<lparr>role_Name = n, role_Permissions = [], role_Parents = []\<rparr>) (roleNames d pat db)))))"
  unfolding listRolesPattern_def by (rule reads_cong, (rule reading)+) simp

text \<open>
  Appending the sorted rows to the roles they belong to yields what reading each role by itself does.
\<close>

lemma fold_addPerm:
  "fold addPerm rows rs =
     map (\<lambda>r. r\<lparr>role_Permissions := role_Permissions r @ map snd (filter (\<lambda>row. fst row = role_Name r) rows)\<rparr>) rs"
  by (induction rows arbitrary: rs) (auto simp: addPerm_def)

lemma fold_addParent:
  "fold addParent rows rs =
     map (\<lambda>r. r\<lparr>role_Parents := role_Parents r @ map snd (filter (\<lambda>row. fst row = role_Name r) rows)\<rparr>) rs"
  by (induction rows arbitrary: rs) (auto simp: addParent_def)

lemma filter_groups:
  "distinct ks \<Longrightarrow> map snd (filter (\<lambda>row. fst row = n) (concat (map (\<lambda>k. map (Pair k) (f k)) ks))) = (if n \<in> set ks then f n else [])"
proof (induction ks)
  case (Cons k ks)
  have "map snd (filter (\<lambda>row. fst row = n) (map (Pair k) (f k))) = (if k = n then f n else [])"
    by (simp add: filter_map comp_def)
  with Cons show ?case by auto
qed simp

lemma distinct_sorted_list_of_fset: "distinct (sorted_list_of_fset A)"
  by (simp add: sorted_list_of_fset.rep_eq)

lemma listed_roles:
  assumes "sql_sound db"
  shows "fold addParent (listParents d pat db) (fold addPerm (listPerms d pat db)
      (map (\<lambda>n. \<lparr>role_Name = n, role_Permissions = [], role_Parents = []\<rparr>) (roleNames d pat db))) =
    map (read_role db) (roleNames d pat db)"
proof -
  have orders: "set (db_permRows db ps) = fset ps" "set (db_nameRows db ns) = fset ns" for ps ns
    using assms by (simp_all add: sql_sound_def)
  have perms: "map snd (filter (\<lambda>row. fst row = n) (listPerms d pat db)) = rolePerms n db"
    and parents: "map snd (filter (\<lambda>row. fst row = n) (listParents d pat db)) = roleParents n db"
    if "n \<in> set (roleNames d pat db)" for n
  proof -
    have match: "matching d pat n" using that by (auto simp: roleNames_def)
    have "rolePerms n db = []" if "n |\<notin>| fst |`| tb_perms (db_tables db)"
    proof -
      have "perms_of (db_tables db) n = {||}" using that by (force simp: perms_of_def)
      with orders(1) [of "{||}"] show ?thesis by (simp add: rolePerms_def)
    qed
    then show "map snd (filter (\<lambda>row. fst row = n) (listPerms d pat db)) = rolePerms n db"
      using match filter_groups [OF distinct_sorted_list_of_fset, of n "\<lambda>n. rolePerms n db"] by (simp add: listPerms_def)
    have "roleParents n db = []" if "n |\<notin>| fst |`| tb_parents (db_tables db)"
    proof -
      have "parents_in (db_tables db) n = {||}" using that by (force simp: parents_in_def)
      with orders(2) [of "{||}"] show ?thesis by (simp add: roleParents_def)
    qed
    then show "map snd (filter (\<lambda>row. fst row = n) (listParents d pat db)) = roleParents n db"
      using match filter_groups [OF distinct_sorted_list_of_fset, of n "\<lambda>n. roleParents n db"] by (simp add: listParents_def)
  qed
  then show ?thesis
    by (simp add: fold_addPerm fold_addParent comp_def read_role_def)
qed

lemma pattern_of_Nil [simp]: "pattern_of d p = [] \<longleftrightarrow> d = SQLite \<and> p = []"
  by (cases d) (simp_all add: pattern_of_def)

lemma sql_ListRolesByPrefix_answer:
  assumes "sql_sound db"
  shows "answer (sql_ListRolesByPrefix d cx p) db = Inr found \<Longrightarrow>
      found = map (read_role db) (sorted_list_of_fset (ffilter (\<lambda>n. HasPrefix n p) (fmdom (tb_roles (db_tables db)))))"
    and "calm cx db \<Longrightarrow> \<exists>found. answer (sql_ListRolesByPrefix d cx p) db = Inr found"
proof -
  let ?pat = "if p = [] then [] else pattern_of d p"
  have run: "sql_ListRolesByPrefix d cx p = listRolesPattern d cx ?pat"
    by (simp add: sql_ListRolesByPrefix_def sql_ListRoles_def)
  have names: "matching d ?pat n \<longleftrightarrow> HasPrefix n p" for n
    using prefixFilter_exact [of p d n] by (auto simp: matching_def HasPrefix_iff)
  show "\<exists>found. answer (sql_ListRolesByPrefix d cx p) db = Inr found" if "calm cx db"
    unfolding run using reads_answer(2) [OF reads_listRolesPattern that] by blast
  show "found = map (read_role db) (sorted_list_of_fset (ffilter (\<lambda>n. HasPrefix n p) (fmdom (tb_roles (db_tables db)))))"
    if "answer (sql_ListRolesByPrefix d cx p) db = Inr found"
  proof -
    have "matching d ?pat = (\<lambda>n. HasPrefix n p)" by (rule ext) (rule names)
    then have "roleNames d ?pat db = sorted_list_of_fset (ffilter (\<lambda>n. HasPrefix n p) (fmdom (tb_roles (db_tables db))))"
      by (simp only: roleNames_def)
    with reads_answer(1) [OF reads_listRolesPattern that [unfolded run]] listed_roles [OF assms, of d ?pat]
    show ?thesis by (simp only: sum.inject)
  qed
qed

subsection \<open>The policy version\<close>

lemma nextPolicyVersion_abs:
  "nextPolicyVersion d t = Inr (t', v) \<Longrightarrow> tab_abs t' = tab_abs t \<and> (tables_ok t' \<longleftrightarrow> tables_ok t)"
  by (auto simp: nextPolicyVersion_def Let_def tables_ok_def split: if_splits option.splits)

lemma NextPolicyVersion_abs:
  assumes "sql_ok db"
  shows "sql_ok (fst (sql_NextPolicyVersion d False cx db)) \<and>
    sql_abs (fst (sql_NextPolicyVersion d False cx db)) = sql_abs db"
proof -
  have sound: "sql_sound db" and ok: "tables_ok (db_tables db)" and saved: "db_saved db = None"
    using assms by (simp_all add: sql_ok_def sql_sound_def)
  obtain db' r where run: "sql_NextPolicyVersion d False cx db = (db', r)" by force
  have "same_db db db' \<and> tab_abs (db_tables db') = tab_abs (db_tables db) \<and> tables_ok (db_tables db')"
  proof (cases "d = MySQL")
    case True
    define p :: "64 word statement" where "p = bindP (nextPolicyVersion d) (\<lambda>_. bindP policyVersion
      (\<lambda>row. case row of None \<Rightarrow> failP (ErrBackend ''sql: no rows in result set'') | Some v \<Rightarrow> returnP (of_int v)))"
    have row: "runs cx (case row of None \<Rightarrow> failQ e | Some v \<Rightarrow> returnQ (of_int v :: 64 word))
        (case row of None \<Rightarrow> failP e | Some v \<Rightarrow> returnP (of_int v))" for row e
      by (cases row) (simp_all add: running)
    have kept: "tab_abs t' = tab_abs t \<and> (tables_ok t' \<longleftrightarrow> tables_ok t)" if "p t = Inr (t', v)" for t t' v
      using that nextPolicyVersion_abs [of d t]
      by (auto simp: p_def bindP_def policyVersion_def failP_def returnP_def split: sum.splits option.splits)
    have "runs cx (bindQ (stmt cx (nextPolicyVersion d)) (\<lambda>_. bindQ (stmt cx policyVersion)
        (\<lambda>row. case row of None \<Rightarrow> failQ (ErrBackend ''sql: no rows in result set'') | Some v \<Rightarrow> returnQ (of_int v)))) p"
      unfolding p_def by (intro runs_bindQ runs_stmt row)
    then have out: "same_db db db' \<and> (case r of Inr x \<Rightarrow> p (locked d (db_tables db)) = Inr (db_tables db', x)
        | Inl e \<Rightarrow> db_tables db' = db_tables db \<and> (p (locked d (db_tables db)) = Inl e \<or> \<not> calm cx db) \<or>
            lost_commit cx db db' e \<and> (\<exists>x. p (locked d (db_tables db)) = Inr (db_tables db', x)))"
      by (rule writes_outcome [OF _ saved]) (use run True in \<open>simp add: sql_NextPolicyVersion_def\<close>)
    show ?thesis
    proof (cases r)
      case (Inl e)
      with out assms have "\<not> lost_commit cx db db' e" by (simp add: sql_ok_def lost_commit_def)
      with Inl out ok show ?thesis by simp
    next
      case (Inr v)
      with out kept [of "locked d (db_tables db)" "db_tables db'" v] ok show ?thesis by simp
    qed
  next
    case False
    with run have "bindQ (stmt cx (nextPolicyVersion d)) (\<lambda>v. returnQ (of_int v)) db = (db', r)"
      by (simp add: sql_NextPolicyVersion_def)
    then show ?thesis
      using ok nextPolicyVersion_abs [of d "db_tables db"]
      by - (rule trip_cases [of cx db], auto simp: stmt_def bindQ_def returnQ_def same_db_def split: sum.splits)
  qed
  then have same: "same_db db db'" and abs: "tab_abs (db_tables db') = tab_abs (db_tables db)"
    and ok': "tables_ok (db_tables db')" by blast+
  have "sql_ok db'"
    using sql_sound_next [OF sound same ok'] same assms by (simp add: sql_ok_def same_db_def)
  with abs run show ?thesis by (simp add: sql_abs_def)
qed

subsection \<open>The contract\<close>

lemma sql_ops_sel [simp]:
  "so_AddRole (sql_ops d) = (\<lambda>cx role. mutation (sql_AddRole d False cx role))" "so_Getter (sql_ops d) = sql_Getter"
  "so_AssignRole (sql_ops d) = (\<lambda>cx u r. mutation (sql_AssignRole d False cx u r))"
  "so_GetRoles (sql_ops d) = (\<lambda>cx u. answer (sql_GetRoles cx u))"
  "so_DeleteRole (sql_ops d) = Some (\<lambda>cx r. mutation (sql_DeleteRole d False cx r))"
  "so_UnassignRole (sql_ops d) = Some (\<lambda>cx u r. mutation (sql_UnassignRole d False cx u r))"
  "so_ListRolesByPrefix (sql_ops d) = Some (\<lambda>cx p. answer (sql_ListRolesByPrefix d cx p))"
  "so_UpdateRole (sql_ops d) = Some (\<lambda>cx role. mutation (sql_UpdateRole d False cx role))"
  "so_RuleStore (sql_ops d) = Some (sql_rules_ops d False)" "so_MetadataStore (sql_ops d) = Some (sql_metadata_ops d False)"
  "so_ApplyPolicyBatch (sql_ops d) = Some (\<lambda>cx batch. mutation (sql_ApplyPolicyBatch d False cx batch))"
  "so_PolicyVersioner (sql_ops d) = Some (sql_versions d False)"
  by (simp_all add: sql_ops_def sql_base_ops_def)

lemmas sql_performs_all =
  sql_ok_performs [OF carries_AddRole add_refines] sql_ok_performs [OF carries_UpdateRole update_refines]
  sql_ok_performs [OF carries_DeleteRole delete_refines] sql_ok_performs [OF carries_AssignRole assign_refines]
  sql_ok_performs [OF carries_UnassignRole unassign_refines] sql_ok_performs [OF carries_SetRoleRules rules_refines]
  sql_ok_performs [OF carries_SetRoleMetadata meta_refines] sql_ok_performs [OF carries_batch batch_refines]

lemmas sql_implements_all =
  sql_ok_implements [OF carries_AddRole add_refines] sql_ok_implements [OF carries_UpdateRole update_refines]
  sql_ok_implements [OF carries_DeleteRole delete_refines] sql_ok_implements [OF carries_AssignRole assign_refines]
  sql_ok_implements [OF carries_UnassignRole unassign_refines] sql_ok_implements [OF carries_SetRoleRules rules_refines]
  sql_ok_implements [OF carries_SetRoleMetadata meta_refines] sql_ok_implements [OF carries_batch batch_refines]

lemma calm_ok: "sql_ok db \<Longrightarrow> cx_Err cx = None \<Longrightarrow> calm cx db"
  by (simp add: sql_ok_def calm_def)

lemma sql_okD:
  assumes "sql_ok db"
  shows "sql_sound db" and "tables_ok (db_tables db)" and "wf_rbac (sql_abs db)"
    and "set (db_permRows db ps) = fset ps" and "set (db_nameRows db ns) = fset ns" and "distinct (db_nameRows db ns)"
  using assms by (simp_all add: sql_ok_def sql_sound_def sql_abs_def tables_ok_def)

lemma read_role_entry:
  assumes "sql_ok db"
  shows "role_entry (read_role db n) = (perms_of (db_tables db) n, parents_in (db_tables db) n)"
  by (simp add: role_entry_def read_role_def rolePerms_def roleParents_def fset_eq_iff fset_of_list_elem
      sql_okD(4,5) [OF assms])

lemma sql_Getter_roles:
  assumes "sql_ok db"
  shows "abs_roles (g_roles (sql_Getter cx db)) = ab_roles (sql_abs db)"
proof (rule fmap_ext)
  show "fmlookup (abs_roles (g_roles (sql_Getter cx db))) n = fmlookup (ab_roles (sql_abs db)) n" for n
    by (cases "fmlookup (tb_roles (db_tables db)) n")
      (simp_all add: abs_roles_def sql_Getter_def sql_abs_def tab_roles_lookup fmhas_def read_role_entry [OF assms])
qed

lemma sql_Getter_lookup:
  "fmlookup (g_roles (sql_Getter cx db)) n = (if fmhas (tb_roles (db_tables db)) n then Some (read_role db n) else None)"
  by (cases "fmlookup (tb_roles (db_tables db)) n") (simp_all add: sql_Getter_def fmhas_def)

text \<open>The getter answers as \<^verbatim>\<open>GetRole\<close> does.\<close>

lemma sql_Getter_GetRole: "GetRole (sql_Getter cx db) n = answer (sql_GetRole cx n) db"
proof (cases "answer (sql_GetRole cx n) db")
  case (Inl e)
  then show ?thesis by (simp add: GetRole_def sql_Getter_def)
next
  case (Inr r)
  with reads_answer(1) [OF reads_GetRole Inr] show ?thesis
    by (cases "fmlookup (tb_roles (db_tables db)) n") (simp_all add: GetRole_def sql_Getter_def fmhas_def)
qed

interpretation sql: rbac_store "sql_ops d" sql_traits sql_ok sql_abs for d
proof unfold_locales
  fix db cx u rs
  assume ok: "sql_ok db"
  show "wf_rbac (sql_abs db)" by (rule sql_okD [OF ok])
  show "abs_roles (g_roles (so_Getter (sql_ops d) cx db)) = ab_roles (sql_abs db)"
    using sql_Getter_roles [OF ok] by simp
  show "never_fails (so_Getter (sql_ops d) cx db)" if "cx_Err cx = None"
    using reads_answer(2) [OF reads_GetRole calm_ok [OF ok that]] by (simp add: never_fails_def sql_Getter_def)
  show "distinct rs \<and> (\<forall>r. r \<in> set rs \<longleftrightarrow> (u, r) |\<in>| ab_assign (sql_abs db))"
    if "so_GetRoles (sql_ops d) cx u db = Inr rs"
    using that reads_answer(1) [OF reads_GetRoles, of cx u db rs] sql_okD(5,6) [OF ok]
    by (auto simp: userRoles_def sql_abs_def)
  show "\<exists>rs. so_GetRoles (sql_ops d) cx u db = Inr rs" if "cx_Err cx = None"
    using reads_answer(2) [OF reads_GetRoles calm_ok [OF ok that]] by simp
qed (simp_all add: sql_performs_all sql_implements_all)

interpretation sql: managed_rbac_store "sql_ops d" sql_traits sql_ok sql_abs
  "\<lambda>cx role. mutation (sql_UpdateRole d False cx role)" "\<lambda>cx r. mutation (sql_DeleteRole d False cx r)"
  "\<lambda>cx u r. mutation (sql_UnassignRole d False cx u r)" "\<lambda>cx p. answer (sql_ListRolesByPrefix d cx p)"
  "sql_rules_ops d False" "sql_metadata_ops d False" "\<lambda>cx batch. mutation (sql_ApplyPolicyBatch d False cx batch)" for d
proof unfold_locales
  fix db cx p found r rs
  assume ok: "sql_ok db"
  note sound = sql_okD(1) [OF ok]
  show "distinct (map role_Name found) \<and>
      (\<forall>r. r \<in> set found \<longleftrightarrow>
        fmlookup (g_roles (so_Getter (sql_ops d) cx db)) (role_Name r) = Some r \<and> HasPrefix (role_Name r) p)"
    if "answer (sql_ListRolesByPrefix d cx p) db = Inr found"
    unfolding sql_ListRolesByPrefix_answer(1) [OF sound that]
    by (auto simp: sql_Getter_lookup read_role_def comp_def fmhas_iff sorted_list_of_fset.rep_eq
        split: if_splits intro!: image_eqI [OF sym])
  show "\<exists>found. answer (sql_ListRolesByPrefix d cx p) db = Inr found" if "cx_Err cx = None"
    by (rule sql_ListRolesByPrefix_answer(2) [OF sound calm_ok [OF ok that]])
  have valid: "validateRules (rules_of (sql_abs db) r) = None"
    using wf_rbacD(4) [OF sql_okD(3) [OF ok], of r]
    by (cases "fmlookup (ab_rules (sql_abs db)) r") (auto simp: rules_of_def validateRules_def cloneRules_Inr)
  show "found_rules = rules_of (sql_abs db) r" if "rs_GetRoleRules (sql_rules_ops d False) cx r db = Inr found_rules"
    for found_rules
    using that reads_answer(1) [OF reads_GetRoleRules, of cx r db found_rules] valid
    by (simp add: sql_rules_ops_def split: if_splits)
  show "rs_GetRoleRules (sql_rules_ops d False) cx r db =
      (if fmhas (ab_roles (sql_abs db)) r then Inr (rules_of (sql_abs db) r) else Inl ErrRoleNotFound)" if "cx_Err cx = None"
    using reads_answer(2) [OF reads_GetRoleRules calm_ok [OF ok that]] valid
    by (simp add: sql_rules_ops_def) (simp add: sql_abs_def)
  show "md_GetRoleMetadata (sql_metadata_ops d False) cx r db =
      (if fmhas (ab_roles (sql_abs db)) r then Inr (meta_of (sql_abs db) r) else Inl ErrRoleNotFound)" if "cx_Err cx = None"
    using reads_answer(2) [OF reads_GetRoleMetadata calm_ok [OF ok that]]
    by (simp add: sql_metadata_ops_def) (simp add: sql_abs_def)
  show "sql_ok (fst (pv_Next versions cx db)) \<and> sql_abs (fst (pv_Next versions cx db)) = sql_abs db"
    if "so_PolicyVersioner (sql_ops d) = Some versions" for versions
    using that NextPolicyVersion_abs [OF ok, of d cx] by (auto simp: sql_versions_def)
qed (simp_all add: sql_rules_ops_def sql_metadata_ops_def sql_performs_all sql_implements_all)

end
