(* ===== verification/SqlProps.thy ===== *)
theory SqlProps
  imports SqlContract PolicyCalls Scenario
begin

text \<open>The properties of the SQL store: of its methods, of Enforcers over it, and beside the memory store.\<close>

interpretation sql: engine "sql_ops d" sql_traits sql_ok sql_abs
  "\<lambda>cx role. mutation (sql_UpdateRole d False cx role)" "\<lambda>cx r. mutation (sql_DeleteRole d False cx r)"
  "\<lambda>cx u r. mutation (sql_UnassignRole d False cx u r)" "\<lambda>cx p. answer (sql_ListRolesByPrefix d cx p)"
  "sql_rules_ops d False" "sql_metadata_ops d False" "\<lambda>cx batch. mutation (sql_ApplyPolicyBatch d False cx batch)"
  lru_ops lru_ok lru_holds lru_valid for d
  by unfold_locales

subsection \<open>States\<close>

lemma empty_tables_abs: "tab_abs empty_tables = mem_abs NewMemoryStore"
proof -
  have "tab_roles empty_tables = fmempty"
    by (rule fmap_ext) (simp add: tab_roles_lookup empty_tables_def fmhas_def)
  then show ?thesis by (simp add: tab_abs_def NewMemoryStore_abs) (simp add: empty_tables_def)
qed

lemma empty_tables_ok: "tables_ok empty_tables"
proof -
  have "rows_ok empty_tables" by (simp add: rows_ok_def empty_tables_def)
  then show ?thesis
    using mem_okD(4) [OF NewMemoryStore_ok] by (simp add: tables_ok_def empty_tables_abs)
qed

lemma sorted_perms: "distinct (sorted_perms ps)" "set (sorted_perms ps) = fset ps"
proof -
  show "distinct (sorted_perms ps)"
    unfolding sorted_perms_def by (subst distinct_map) (auto simp: sorted_list_of_fset.rep_eq inj_on_def)
  have "(\<lambda>(r, a). \<lparr>perm_Resource = r, perm_Action = a\<rparr>) ` (\<lambda>p. (perm_Resource p, perm_Action p)) ` fset ps = id ` fset ps"
    unfolding image_image by (rule image_cong) simp_all
  then show "set (sorted_perms ps) = fset ps" by (simp add: sorted_perms_def)
qed

lemma fresh_db_ok: "sql_ok fresh_db"
  by (simp add: sql_ok_def sql_sound_def fresh_db_def empty_tables_ok sorted_perms sorted_list_of_fset.rep_eq)

text \<open>Runs of an Enforcer over an SQL database that is empty at first.\<close>

inductive sql_run :: "(sqldb, lru, 'x) enforcer \<Rightarrow> (sqldb, lru, 'x) state \<Rightarrow> bool" for e where
  start: "sql_ok (st_store st) \<Longrightarrow> db_tables (st_store st) = empty_tables \<Longrightarrow>
    st_cache st = NewMemoryLRU capacity ttl \<Longrightarrow> sql_run e st"
| call: "sql_run e st \<Longrightarrow> enforcer_step e st st' \<Longrightarrow> sql_run e st'"

lemma sql_run_good:
  assumes "sql_run e st" and "runs_on e (sql_ops d) lru_ops"
  shows "good e sql_ok sql_abs lru_ok lru_holds st"
  using assms(1)
proof induction
  case (start st capacity ttl)
  then show ?case by (simp add: good_def NewMemoryLRU_ok coherent_def)
next
  case (call st st')
  then show ?case using sql.enforcer_step_confined [OF _ assms(2)] by blast
qed

definition sql_acme :: "(sqldb, lru, unit) enforcer" where
  "sql_acme = \<lparr>en_store = sql_ops Postgres, en_cache = Some lru_ops, en_logger = True, en_metrics = True,
     en_audit = None, en_wildcards = True, en_rulesEnabled = True, en_tenant = ''acme'',
     en_manageRes = ''roles'', en_manageAct = ''manage'', en_policySource = None, en_publish = None\<rparr>"

definition sql_start :: "(sqldb, lru, unit) state" where
  "sql_start = \<lparr>st_store = fresh_db, st_cache = NewMemoryLRU 1024 five_minutes, st_ext = (),
     st_cacheGeneration = 0, st_policyVersion = 0, st_subscribed = False, st_shutdown = False,
     st_metrics = no_metrics, st_log = []\<rparr>"

definition sql_state :: "(sqldb, lru, unit) state" where
  "sql_state = fold (\<lambda>f st. fst (f st))
     [RegisterRole sql_acme background viewer, RegisterRole sql_acme background editor,
      RegisterRole sql_acme background admin, AssignRole sql_acme background ''alice'' ''admin'',
      AssignRole sql_acme background ''bob'' ''editor''] sql_start"


subsection \<open>The methods\<close>

text \<open>Every method that changes roles, assignments, rules or metadata, with its specified outcome.\<close>

definition sql_methods :: "dialect \<Rightarrow> ctx \<Rightarrow> (sqldb mutation \<times> (rbac \<Rightarrow> err + rbac)) set" where
  "sql_methods d cx =
     {(mutation (sql_AddRole d False cx role), spec_AddRole sql_traits role) |role. True} \<union>
     {(mutation (sql_UpdateRole d False cx role), spec_UpdateRole role) |role. True} \<union>
     {(mutation (sql_DeleteRole d False cx r), spec_DeleteRole r) |r. True} \<union>
     {(mutation (sql_AssignRole d False cx u r), spec_AssignRole u r) |u r. True} \<union>
     {(mutation (sql_UnassignRole d False cx u r), spec_UnassignRole u r) |u r. True} \<union>
     {(mutation (sql_SetRoleRules d False cx r rules), spec_SetRoleRules r rules) |r rules. True} \<union>
     {(mutation (sql_SetRoleMetadata d False cx r m), spec_SetRoleMetadata r (json_metadata m)) |r m. True} \<union>
     {(mutation (sql_ApplyPolicyBatch d False cx b), spec_ApplyBatch sql_traits cx b) |b. True}"

lemma sql_methods_carry:
  assumes "(f, g) \<in> sql_methods d cx"
  obtains q p where "f = mutation q" and "carries d False cx q p" and "refines p g"
  using assms unfolding sql_methods_def
  by (auto intro: carries_methods carries_batch add_refines update_refines delete_refines assign_refines
      unassign_refines rules_refines meta_refines batch_refines)

text \<open>
  C11. Every writing method of the SQL store, batches included, is atomic in each dialect, whichever
  statement fails, for whatever reason. If the method returns no error, exactly its specified effect is
  committed. If it returns an error, the tables are as before, with one exception that no client can
  rule out: the commit itself failed, or its answer was lost, and the database kept it; then exactly the
  specified effect is committed. If no statement fails, the method is refused only with the specified
  error.
\<close>

theorem sql_method_atomic:
  assumes "(f, g) \<in> sql_methods d cx" and "sql_sound db"
  shows "case f db of
      (db', None) \<Rightarrow> g (sql_abs db) = Inr (sql_abs db') \<and> sql_sound db'
    | (db', Some e) \<Rightarrow> sql_sound db' \<and> (calm cx db \<longrightarrow> g (sql_abs db) = Inl e) \<and>
        (db_tables db' = db_tables db \<or> lost_commit cx db db' e \<and> g (sql_abs db) = Inr (sql_abs db'))"
proof -
  from assms(1) obtain q p where f: "f = mutation q" and q: "carries d False cx q p" "refines p g"
    by (rule sql_methods_carry)
  show ?thesis
    by (rule commits_cases [OF q assms(2)]) (auto simp: f lost_commit_calm split: prod.split)
qed

text \<open>A database whose statement \<open>n\<close> fails; \<open>losing_db\<close> keeps it nonetheless, if it is a commit.\<close>

definition failing_db :: "nat \<Rightarrow> sqldb" where
  "failing_db n = fresh_db\<lparr>db_fault := (\<lambda>k. if k = n then Some (ErrBackend ''disk full'') else None)\<rparr>"

definition losing_db :: "nat \<Rightarrow> sqldb" where
  "losing_db n = (failing_db n)\<lparr>db_kept := (\<lambda>k. k = n)\<rparr>"

theorem sql_method_atomic_witness:
  "snd (mutation (sql_AddRole Postgres False background viewer) (failing_db 6)) = Some (ErrBackend ''disk full'') \<and>
   db_tables (fst (mutation (sql_AddRole Postgres False background viewer) (failing_db 6))) = empty_tables \<and>
   snd (mutation (sql_AddRole Postgres False background viewer) (losing_db 7)) = Some (ErrBackend ''disk full'') \<and>
   spec_AddRole sql_traits viewer (sql_abs fresh_db) =
     Inr (sql_abs (fst (mutation (sql_AddRole Postgres False background viewer) (losing_db 7))))"
proof -
  let ?f = "mutation (sql_AddRole Postgres False background viewer)"
  have fails: "snd (?f (failing_db 6)) = Some (ErrBackend ''disk full'')"
    and loses: "snd (?f (losing_db 7)) = Some (ErrBackend ''disk full'')" by code_simp+
  have f: "(?f, spec_AddRole sql_traits viewer) \<in> sql_methods Postgres background"
    by (auto simp: sql_methods_def)
  have sound: "sql_sound (failing_db 6)" "sql_sound (losing_db 7)"
    using fresh_db_ok by (simp_all add: losing_db_def failing_db_def sql_ok_def sql_sound_def)
  have "\<not> db_kept (failing_db 6) k" for k by (simp add: failing_db_def fresh_db_def)
  then have "db_tables (fst (?f (failing_db 6))) = db_tables (failing_db 6)"
    using sql_method_atomic [OF f sound(1)] fails by (auto simp: lost_commit_def split: prod.splits)
  then have kept: "db_tables (fst (?f (failing_db 6))) = empty_tables" by (simp add: failing_db_def fresh_db_def)
  have "fmhas (tb_roles (db_tables (fst (?f (losing_db 7))))) ''viewer''" by code_simp
  moreover have "\<not> fmhas (tb_roles (db_tables (losing_db 7))) ''viewer''" by code_simp
  ultimately have changed: "db_tables (fst (?f (losing_db 7))) \<noteq> db_tables (losing_db 7)" by metis
  then have "spec_AddRole sql_traits viewer (sql_abs (losing_db 7)) = Inr (sql_abs (fst (?f (losing_db 7))))"
    using sql_method_atomic [OF f sound(2)] loses changed by (auto split: prod.splits)
  moreover have "sql_abs (losing_db 7) = sql_abs fresh_db"
    by (simp add: sql_abs_def losing_db_def failing_db_def)
  ultimately show ?thesis using fails loses kept by simp
qed

text \<open>
  C14. Listing by a prefix returns, in every dialect, exactly the roles whose names begin with it, in
  order of their names and each with all its permissions and parents, also if the prefix contains
  characters that the pattern language of the database treats specially.
\<close>

theorem sql_prefix_exact:
  assumes "sql_ok db" and "cx_Err cx = None"
  shows "answer (sql_ListRolesByPrefix d cx p) db =
    Inr (map (read_role db) (sorted_list_of_fset (ffilter (\<lambda>n. HasPrefix n p) (fmdom (tb_roles (db_tables db))))))"
proof -
  note sound = sql_okD(1) [OF assms(1)]
  obtain found where found: "answer (sql_ListRolesByPrefix d cx p) db = Inr found"
    using sql_ListRolesByPrefix_answer(2) [OF sound calm_ok [OF assms]] by blast
  with sql_ListRolesByPrefix_answer(1) [OF sound found] show ?thesis by simp
qed

text \<open>Two roles, of which only one begins with \<^verbatim>\<open>a_\<close>.\<close>

definition prefix_db :: sqldb where
  "prefix_db = fst (mutation (sql_AddRole MySQL False background (a_role ''axb'' [] []))
     (fst (mutation (sql_AddRole MySQL False background (a_role ''a_b'' [(''doc'', ''read'')] [])) fresh_db)))"

lemma prefix_db_ok: "sql_ok prefix_db"
proof -
  have "sql_ok (fst (mutation (sql_AddRole MySQL False background role) db))" if "sql_ok db" for role db
    using sql_performs_all(1) [OF that] by (simp add: performs_def)
  then show ?thesis unfolding prefix_db_def using fresh_db_ok by blast
qed

theorem sql_prefix_exact_witness:
  "answer (sql_ListRolesByPrefix MySQL background ''a_'') prefix_db = Inr [a_role ''a_b'' [(''doc'', ''read'')] []]"
proof -
  have "map (read_role prefix_db) (sorted_list_of_fset (ffilter (\<lambda>n. HasPrefix n ''a_'') (fmdom (tb_roles (db_tables prefix_db))))) =
      [a_role ''a_b'' [(''doc'', ''read'')] []]" by code_simp
  then show ?thesis using sql_prefix_exact [OF prefix_db_ok background_Err, of MySQL "''a_''"] by simp
qed

text \<open>
  C13. An Enforcer over an SQL database of any dialect, with a cache or none, decides exactly as
  specified in every state it reaches while no statement fails, and every call that changes the policy
  has its specified outcome, errors included.
\<close>

theorem sql_Enforcer_exact:
  assumes "sql_run e st" and "runs_on e (sql_ops d) lru_ops" and "en_audit e = None"
    and "cx_Err cx = None" and "fair_range cx" and "\<not> st_shutdown st"
  shows "(snd (Enforce e cx u res act st) \<longleftrightarrow>
      decision e (sql_abs (st_store st)) u res act (cx_attrs cx) (may e (sql_abs (st_store st)) u res act)) \<and>
    ((f, g) \<in> policy_calls e sql_traits cx actor \<longrightarrow> meets sql_abs f st (g (sql_abs (st_store st))))"
proof (intro conjI impI)
  note st = sql_run_good [OF assms(1,2)]
  obtain st1 where "EnforceCtx e cx u res act st = recordDecision e cx ''enforce'' u res act
      (st1, decision e (sql_abs (st_store st)) u res act (cx_attrs cx)
         (may e (sql_abs (st_store st)) u res act), None)"
    by (rule sql.EnforceCtx_decision [OF assms(2) st assms(4-6)])
  then have "snd (EnforceCtx e cx u res act st) =
      (decision e (sql_abs (st_store st)) u res act (cx_attrs cx) (may e (sql_abs (st_store st)) u res act), None)"
    by (simp add: recordDecision_off [OF assms(3)])
  then show "snd (Enforce e cx u res act st) \<longleftrightarrow>
      decision e (sql_abs (st_store st)) u res act (cx_attrs cx) (may e (sql_abs (st_store st)) u res act)"
    by (simp add: Enforce_def split_beta)
  show "meets sql_abs f st (g (sql_abs (st_store st)))" if "(f, g) \<in> policy_calls e sql_traits cx actor"
    by (rule sql.policy_call_outcome [OF assms(2) st assms(4-6,3) that])
qed

lemma sql_run_all:
  assumes "\<And>f st. f \<in> set fs \<Longrightarrow> enforcer_step e st (fst (f st))" and "sql_run e st"
  shows "sql_run e (fold (\<lambda>f st. fst (f st)) fs st)"
  using assms
proof (induction fs arbitrary: st)
  case (Cons f fs)
  then have "sql_run e (fst (f st))" by (meson list.set_intros(1) sql_run.call)
  with Cons show ?case by simp
qed simp

lemma sql_state_run: "sql_run sql_acme sql_state"
proof -
  have "sql_run sql_acme sql_start"
    by (rule sql_run.start) (simp_all add: sql_start_def fresh_db_ok, simp add: fresh_db_def)
  then show ?thesis
    unfolding sql_state_def by (rule sql_run_all [rotated]) (auto intro: enforcer_step.intros fair_background)
qed

theorem sql_Enforcer_exact_witness:
  "decision sql_acme (sql_abs (st_store sql_state)) ''bob'' ''doc'' ''read'' (cx_attrs background)
     (may sql_acme (sql_abs (st_store sql_state)) ''bob'' ''doc'' ''read'') \<and>
   \<not> decision sql_acme (sql_abs (st_store sql_state)) ''bob'' ''doc'' ''edit'' (cx_attrs background)
     (may sql_acme (sql_abs (st_store sql_state)) ''bob'' ''doc'' ''edit'')"
proof -
  have runs: "runs_on sql_acme (sql_ops Postgres) lru_ops" "en_audit sql_acme = None"
    by (simp_all add: runs_on_def sql_acme_def)
  have up: "\<not> st_shutdown sql_state" by code_simp
  have "snd (Enforce sql_acme background ''bob'' ''doc'' ''read'' sql_state) = True" by code_simp
  moreover have "snd (Enforce sql_acme background ''bob'' ''doc'' ''edit'' sql_state) = False" by code_simp
  ultimately show ?thesis
    using sql_Enforcer_exact [OF sql_state_run runs background_Err fair_background up] by simp
qed


text \<open>Metadata with a byte that is not UTF-8 reads back with U+FFFD in its place.\<close>

definition latin1 :: "(string, string) fmap" where
  "latin1 = fmap_of_list [(''team'', ''docs''), (''owner'', bytes [0xE9])]"


subsection \<open>Beside the memory store\<close>

datatype store_call =
  CAdd role | CUpdate role | CDelete string | CAssign string string | CUnassign string string
| CRules string "policy_rule list" | CMetadata string "(string, string) fmap" | CBatch policy_batch

definition supported_call :: "'i option \<Rightarrow> ('i \<Rightarrow> 's mutation) \<Rightarrow> 's mutation" where
  "supported_call i f s = (case i of None \<Rightarrow> (s, Some ErrUnsupported) | Some ops \<Rightarrow> f ops s)"

fun run_call :: "'s store_ops \<Rightarrow> ctx \<Rightarrow> store_call \<Rightarrow> 's mutation" where
  "run_call ops cx (CAdd role) = so_AddRole ops cx role"
| "run_call ops cx (CUpdate role) = supported_call (so_UpdateRole ops) (\<lambda>f. f cx role)"
| "run_call ops cx (CDelete r) = supported_call (so_DeleteRole ops) (\<lambda>f. f cx r)"
| "run_call ops cx (CAssign u r) = so_AssignRole ops cx u r"
| "run_call ops cx (CUnassign u r) = supported_call (so_UnassignRole ops) (\<lambda>f. f cx u r)"
| "run_call ops cx (CRules r rules) = supported_call (so_RuleStore ops) (\<lambda>rs. rs_SetRoleRules rs cx r rules)"
| "run_call ops cx (CMetadata r m) = supported_call (so_MetadataStore ops) (\<lambda>md. md_SetRoleMetadata md cx r m)"
| "run_call ops cx (CBatch b) = supported_call (so_ApplyPolicyBatch ops) (\<lambda>f. f cx b)"

fun run_calls :: "'s store_ops \<Rightarrow> ctx \<Rightarrow> store_call list \<Rightarrow> 's \<Rightarrow> 's \<times> err option list" where
  "run_calls ops cx [] s = (s, [])"
| "run_calls ops cx (c # cs) s =
     (let (s, e) = run_call ops cx c s; (s, es) = run_calls ops cx cs s in (s, e # es))"

fun spec_call :: "store_traits \<Rightarrow> ctx \<Rightarrow> store_call \<Rightarrow> rbac \<Rightarrow> err + rbac" where
  "spec_call tr cx (CAdd role) = spec_AddRole tr role"
| "spec_call tr cx (CUpdate role) = spec_UpdateRole role"
| "spec_call tr cx (CDelete r) = spec_DeleteRole r"
| "spec_call tr cx (CAssign u r) = spec_AssignRole u r"
| "spec_call tr cx (CUnassign u r) = spec_UnassignRole u r"
| "spec_call tr cx (CRules r rules) = spec_SetRoleRules r rules"
| "spec_call tr cx (CMetadata r m) = spec_SetRoleMetadata r (tr_stored tr m)"
| "spec_call tr cx (CBatch b) = spec_ApplyBatch tr cx b"

fun spec_calls :: "store_traits \<Rightarrow> ctx \<Rightarrow> store_call list \<Rightarrow> rbac \<Rightarrow> rbac \<times> err option list" where
  "spec_calls tr cx [] A = (A, [])"
| "spec_calls tr cx (c # cs) A =
     (case spec_call tr cx c A of
        Inl e \<Rightarrow> (let (A, es) = spec_calls tr cx cs A in (A, Some e # es))
      | Inr A \<Rightarrow> (let (A, es) = spec_calls tr cx cs A in (A, None # es)))"

lemma supported_call_Some [simp]: "supported_call (Some ops) f = f ops"
  by (simp add: fun_eq_iff supported_call_def)

context managed_rbac_store
begin

lemma run_call_implements:
  assumes "okay s" and "cx_Err cx = None" and "fair_range cx"
  shows "implements okay absf (run_call ops cx c) s (spec_call tr cx c (absf s))"
  by (cases c) (simp_all add: interfaces assms add_role_live update_role_live delete_role_live assign_role_live
      unassign_role_live set_rules_live set_meta_live apply_batch_live)

lemma run_calls_spec:
  assumes "okay s" and "cx_Err cx = None" and "fair_range cx"
  shows "spec_calls tr cx cs (absf s) = (absf (fst (run_calls ops cx cs s)), snd (run_calls ops cx cs s))"
  using assms(1)
proof (induction cs arbitrary: s)
  case (Cons c cs)
  obtain s' e where step: "run_call ops cx c s = (s', e)" by force
  from run_call_implements [OF Cons.prems assms(2,3), of c] step
  have s': "okay s'" and out: "case spec_call tr cx c (absf s) of
      Inl e' \<Rightarrow> e = Some e' \<and> absf s' = absf s | Inr A \<Rightarrow> e = None \<and> absf s' = A"
    by (auto simp: implements_def split: sum.splits)
  from Cons.IH [OF s'] out step show ?case by (auto simp: split_beta split: sum.splits)
qed simp

end

text \<open>
  The two stores name one error differently: a new role that is its own parent has, to the memory
  store, a missing parent, and closes a cycle, to the SQL store. And the SQL store keeps metadata as JSON.
\<close>

fun own_parent :: "store_call \<Rightarrow> bool" where
  "own_parent (CAdd role) \<longleftrightarrow> role_Name role \<in> set (role_Parents role)"
| "own_parent (CBatch b) \<longleftrightarrow> (\<exists>role \<in> set (pb_Register b). role_Name role \<in> set (role_Parents role))"
| "own_parent _ \<longleftrightarrow> False"

definition same_error :: "bool \<Rightarrow> err option \<Rightarrow> err option \<Rightarrow> bool" where
  "same_error self e e' \<longleftrightarrow> e = e' \<or> (self \<and> e = Some ErrParentNotFound \<and> e' = Some ErrCycleDetected)"

definition as_json :: "rbac \<Rightarrow> rbac" where
  "as_json A = A\<lparr>ab_meta := fmmap json_metadata (ab_meta A)\<rparr>"

lemma as_json_sel [simp]:
  "ab_roles (as_json A) = ab_roles A" "ab_assign (as_json A) = ab_assign A" "ab_rules (as_json A) = ab_rules A"
  "ab_meta (as_json A) = fmmap json_metadata (ab_meta A)" "missing_parent (as_json A) = missing_parent A"
  by (simp_all add: as_json_def missing_parent_def [abs_def])

lemma as_json_upd:
  "(as_json A)\<lparr>ab_roles := x\<rparr> = as_json (A\<lparr>ab_roles := x\<rparr>)" "(as_json A)\<lparr>ab_assign := y\<rparr> = as_json (A\<lparr>ab_assign := y\<rparr>)"
  "(as_json A)\<lparr>ab_rules := z\<rparr> = as_json (A\<lparr>ab_rules := z\<rparr>)"
  "(as_json A)\<lparr>ab_meta := fmupd n (json_metadata m) (fmmap json_metadata (ab_meta A))\<rparr> = as_json (A\<lparr>ab_meta := fmupd n m (ab_meta A)\<rparr>)"
  "(as_json A)\<lparr>ab_roles := x, ab_rules := z, ab_meta := fmmap json_metadata w\<rparr> =
     as_json (A\<lparr>ab_roles := x, ab_rules := z, ab_meta := w\<rparr>)"
  by (simp_all add: as_json_def fmmap_fmupd)

text \<open>Outcomes that agree in this sense; \<open>self\<close> says whether a role that is its own parent is registered.\<close>

definition same_outcome :: "bool \<Rightarrow> err + rbac \<Rightarrow> err + rbac \<Rightarrow> bool" where
  "same_outcome self r r' \<longleftrightarrow>
     (case r of Inr A \<Rightarrow> r' = Inr (as_json A)
      | Inl e \<Rightarrow> (\<exists>e'. r' = Inl e' \<and> same_error self (Some e) (Some e')))"

lemma same_outcome_mono: "same_outcome self r r' \<Longrightarrow> (self \<Longrightarrow> self') \<Longrightarrow> same_outcome self' r r'"
  by (auto simp: same_outcome_def same_error_def split: sum.splits)

lemma same_outcome_bindE:
  assumes "same_outcome self r r'" and "\<And>A. same_outcome self (f A) (f' (as_json A))"
  shows "same_outcome self (bindE r f) (bindE r' f')"
proof (cases r)
  case (Inl e)
  with assms(1) show ?thesis by (auto simp: same_outcome_def bindE_def)
next
  case (Inr A)
  with assms(1) have "r' = Inr (as_json A)" by (simp add: same_outcome_def)
  with Inr assms(2) show ?thesis by (simp add: bindE_def)
qed

lemma same_outcome_forE:
  assumes "\<And>x A. x \<in> set xs \<Longrightarrow> same_outcome self (f x A) (g x (as_json A))"
  shows "same_outcome self (forE f xs A) (forE g xs (as_json A))"
  using assms
proof (induction xs arbitrary: A)
  case (Cons x xs)
  have "forE f (x # xs) A = bindE (f x A) (forE f xs)" "forE g (x # xs) (as_json A) = bindE (g x (as_json A)) (forE g xs)"
    by (simp_all add: bindE_def)
  moreover have "same_outcome self (bindE (f x A) (forE f xs)) (bindE (g x (as_json A)) (forE g xs))"
    using Cons by (intro same_outcome_bindE) simp_all
  ultimately show ?case by simp
qed (simp add: same_outcome_def)

lemma same_outcome_spec:
  "same_outcome (role_Name role \<in> set (role_Parents role)) (spec_AddRole mem_traits role A) (spec_AddRole sql_traits role (as_json A))"
  "same_outcome self (spec_UpdateRole role A) (spec_UpdateRole role (as_json A))"
  "same_outcome self (spec_DeleteRole r A) (spec_DeleteRole r (as_json A))"
  "same_outcome self (spec_AssignRole u r A) (spec_AssignRole u r (as_json A))"
  "same_outcome self (spec_UnassignRole u r A) (spec_UnassignRole u r (as_json A))"
  "same_outcome self (spec_SetRoleRules r rules A) (spec_SetRoleRules r rules (as_json A))"
  "same_outcome self (spec_SetRoleMetadata r (tr_stored mem_traits m) A) (spec_SetRoleMetadata r (tr_stored sql_traits m) (as_json A))"
  by (simp_all add: same_outcome_def same_error_def spec_AddRole_def spec_UpdateRole_def spec_DeleteRole_def spec_AssignRole_def
      spec_UnassignRole_def spec_SetRoleRules_def spec_SetRoleMetadata_def as_json_upd Let_def split: sum.split)

lemma same_outcome_call:
  "same_outcome (own_parent c) (spec_call mem_traits cx c A) (spec_call sql_traits cx c (as_json A))"
proof (cases c)
  case (CBatch b)
  have add: "same_outcome (own_parent c) (spec_AddRole mem_traits role B) (spec_AddRole sql_traits role (as_json B))"
    if "role \<in> set (pb_Register b)" for role B
    using that by (intro same_outcome_mono [OF same_outcome_spec(1)]) (auto simp: CBatch)
  show ?thesis
  proof (cases "validateBatch cx b")
    case None
    show ?thesis
      unfolding CBatch spec_call.simps spec_ApplyBatch_def None option.case
      by (intro same_outcome_bindE same_outcome_forE add [unfolded CBatch]; (auto intro: same_outcome_spec same_outcome_spec(7) [unfolded mem_traits_sel sql_traits_sel])?)
  qed (simp add: CBatch spec_ApplyBatch_def same_outcome_def same_error_def)
qed (simp_all add: same_outcome_spec del: mem_traits_sel sql_traits_sel)

lemma same_outcome_calls:
  assumes "spec_calls mem_traits cx cs A = (A1, es)" and "spec_calls sql_traits cx cs (as_json A) = (A2, es')"
  shows "A2 = as_json A1 \<and> length es = length cs \<and> length es' = length cs \<and>
    (\<forall>i < length cs. same_error (own_parent (cs ! i)) (es ! i) (es' ! i))"
  using assms
proof (induction cs arbitrary: A A1 A2 es es')
  case (Cons c cs)
  note out = same_outcome_call [of c cx A]
  show ?case
  proof (cases "spec_call mem_traits cx c A")
    case (Inl e)
    with out obtain e' where e': "spec_call sql_traits cx c (as_json A) = Inl e'" "same_error (own_parent c) (Some e) (Some e')"
      by (auto simp: same_outcome_def)
    with Cons.prems Inl obtain fs fs' where "es = Some e # fs" "es' = Some e' # fs'"
      "spec_calls mem_traits cx cs A = (A1, fs)" "spec_calls sql_traits cx cs (as_json A) = (A2, fs')"
      by (auto simp: Let_def split: prod.splits)
    with Cons.IH e'(2) show ?thesis by (auto simp: nth_Cons split: nat.split)
  next
    case (Inr B)
    with out have "spec_call sql_traits cx c (as_json A) = Inr (as_json B)" by (simp add: same_outcome_def)
    with Cons.prems Inr obtain fs fs' where "es = None # fs" "es' = None # fs'"
      "spec_calls mem_traits cx cs B = (A1, fs)" "spec_calls sql_traits cx cs (as_json B) = (A2, fs')"
      by (auto simp: Let_def split: prod.splits)
    with Cons.IH show ?thesis by (auto simp: nth_Cons same_error_def split: nat.split)
  qed
qed simp

text \<open>
  C12. The stores are interchangeable, up to the JSON of metadata and the name of one error: after the
  same calls from empty, whatever they are, an SQL database of any dialect and the memory store hold the
  same roles, assignments and rules, and the same metadata but for what is not UTF-8, which the SQL store
  replaces by U+FFFD; and each call had the same error in both, except that registering a role that lists
  itself as a parent may fail with \<^verbatim>\<open>ErrParentNotFound\<close> in one and \<^verbatim>\<open>ErrCycleDetected\<close> in the other.
\<close>

theorem stores_agree:
  assumes "sql_ok db" and "db_tables db = empty_tables" and "cx_Err cx = None" and "fair_range cx"
  shows "let (s, es) = run_calls mem_ops cx cs NewMemoryStore; (db', es') = run_calls (sql_ops d) cx cs db in
    sql_abs db' = as_json (mem_abs s) \<and>
    ((\<forall>n m. fmlookup (ab_meta (mem_abs s)) n = Some m \<longrightarrow> utf8_metadata m) \<longrightarrow> sql_abs db' = mem_abs s) \<and>
    length es = length cs \<and> length es' = length cs \<and>
    (\<forall>i < length cs. same_error (own_parent (cs ! i)) (es ! i) (es' ! i))"
proof -
  obtain s es where mem: "run_calls mem_ops cx cs NewMemoryStore = (s, es)" by force
  obtain db' es' where sql: "run_calls (sql_ops d) cx cs db = (db', es')" by force
  have "sql_abs db = as_json (mem_abs NewMemoryStore)"
    using assms(2) by (simp add: sql_abs_def empty_tables_abs as_json_def NewMemoryStore_abs)
  then have "spec_calls sql_traits cx cs (as_json (mem_abs NewMemoryStore)) = (sql_abs db', es')"
    using sql.run_calls_spec [OF assms(1,3,4), where cs = cs and d = d] sql by simp
  moreover have "spec_calls mem_traits cx cs (mem_abs NewMemoryStore) = (mem_abs s, es)"
    using mem.run_calls_spec [OF NewMemoryStore_ok assms(3,4), where cs = cs] mem by simp
  ultimately have same: "sql_abs db' = as_json (mem_abs s) \<and> length es = length cs \<and> length es' = length cs \<and>
      (\<forall>i < length cs. same_error (own_parent (cs ! i)) (es ! i) (es' ! i))"
    by (intro same_outcome_calls)
  have "as_json (mem_abs s) = mem_abs s"
    if "\<forall>n m. fmlookup (ab_meta (mem_abs s)) n = Some m \<longrightarrow> utf8_metadata m"
  proof -
    have "fmmap json_metadata (ab_meta (mem_abs s)) = ab_meta (mem_abs s)"
    proof (rule fmap_ext)
      show "fmlookup (fmmap json_metadata (ab_meta (mem_abs s))) n = fmlookup (ab_meta (mem_abs s)) n" for n
        using that by (cases "fmlookup (ab_meta (mem_abs s)) n") (simp_all add: json_metadata_utf8)
    qed
    then show ?thesis by (simp add: as_json_def)
  qed
  with same show ?thesis by (simp add: mem sql)
qed

definition narcissus :: role where "narcissus = a_role ''narcissus'' [] [''narcissus'']"

definition same_calls :: "store_call list" where
  "same_calls = [CAdd viewer, CAdd narcissus, CMetadata ''viewer'' latin1]"

theorem stores_agree_witness:
  "snd (run_calls mem_ops background same_calls NewMemoryStore) = [None, Some ErrParentNotFound, None] \<and>
   snd (run_calls (sql_ops SQLite) background same_calls fresh_db) = [None, Some ErrCycleDetected, None] \<and>
   sql_abs (fst (run_calls (sql_ops SQLite) background same_calls fresh_db)) =
     as_json (mem_abs (fst (run_calls mem_ops background same_calls NewMemoryStore)))"
proof (intro conjI)
  show "snd (run_calls mem_ops background same_calls NewMemoryStore) = [None, Some ErrParentNotFound, None]"
    by code_simp
  show "snd (run_calls (sql_ops SQLite) background same_calls fresh_db) = [None, Some ErrCycleDetected, None]"
    by code_simp
  have "db_tables fresh_db = empty_tables" by (simp add: fresh_db_def)
  from stores_agree [OF fresh_db_ok this background_Err fair_background, of same_calls SQLite]
  show "sql_abs (fst (run_calls (sql_ops SQLite) background same_calls fresh_db)) =
     as_json (mem_abs (fst (run_calls mem_ops background same_calls NewMemoryStore)))"
    by (simp add: Let_def split_beta)
qed

end
