(* ===== verification/RedisProps.thy ===== *)
theory RedisProps
  imports RedisCache SqlProps
begin

text \<open>
  The properties of the Redis cache: how old an answer can be when commands fail, and Enforcers that
  share an SQL database and a Redis cache.
\<close>

interpretation shared: engine "sql_ops d" sql_traits sql_ok sql_abs
  "\<lambda>cx role. mutation (sql_UpdateRole d False cx role)" "\<lambda>cx r. mutation (sql_DeleteRole d False cx r)"
  "\<lambda>cx u r. mutation (sql_UnassignRole d False cx u r)" "\<lambda>cx p. answer (sql_ListRolesByPrefix d cx p)"
  "sql_rules_ops d False" "sql_metadata_ops d False" "\<lambda>cx batch. mutation (sql_ApplyPolicyBatch d False cx batch)"
  "redis_ops c" "answers c" "redis_holds c" "redis_valid c" for d c
  by unfold_locales

subsection \<open>The age of an answer\<close>

datatype cache_call =
  CacheGet string | CacheSet string permissionSet | CacheGeneration string
| CacheSetIf string permissionSet string | CacheDelete string | CacheFlush

fun cache_step :: "redisLRU \<Rightarrow> ctx \<times> cache_call \<Rightarrow> redis \<Rightarrow> redis" where
  "cache_step c (cx, CacheGet k) rd = fst (redis_Get c cx k rd)"
| "cache_step c (cx, CacheSet k ps) rd = redis_Set c cx k (Permissions ps) rd"
| "cache_step c (cx, CacheGeneration k) rd = fst (redis_Generation c cx k rd)"
| "cache_step c (cx, CacheSetIf k ps t) rd = redis_SetIfGeneration c cx k (Permissions ps) t rd"
| "cache_step c (cx, CacheDelete k) rd = redis_Delete c k rd"
| "cache_step c (cx, CacheFlush) rd = redis_Flush c rd"

fun writes :: "string \<Rightarrow> permissionSet \<Rightarrow> cache_call \<Rightarrow> bool" where
  "writes k ps (CacheSet k' ps') \<longleftrightarrow> k' = k \<and> ps' = ps"
| "writes k ps (CacheSetIf k' ps' _) \<longleftrightarrow> k' = k \<and> ps' = ps"
| "writes k ps _ \<longleftrightarrow> False"

definition lifetime :: "redisLRU \<Rightarrow> int" where
  "lifetime c = ttlMilliseconds c * 1000000"

lemma lifetime_bound: "lifetime c \<le> max 1000000 (rl_ttl c)"
proof -
  have "x div 1000000 * 1000000 \<le> x" for x :: int by presburger
  from this [of "rl_ttl c"] show ?thesis by (simp add: lifetime_def ttlMilliseconds_def max_def)
qed

text \<open>Every value under the prefix was written by one of the calls and expires a lifetime later.\<close>

definition timely :: "redisLRU \<Rightarrow> (ctx \<times> cache_call) set \<Rightarrow> redis_items \<Rightarrow> bool" where
  "timely c calls items \<longleftrightarrow> (\<forall>k it raw. fmlookup items (redis_key c k) = Some it \<longrightarrow> text_of (it_data it) = Some raw \<longrightarrow>
     (\<exists>cx call ps. (cx, call) \<in> calls \<and> writes k ps call \<and> raw = Json (Permissions ps) \<and>
        it_expires it = Some (cx_now cx + lifetime c)))"

lemma timely_mono: "timely c calls items \<Longrightarrow> calls \<subseteq> calls' \<Longrightarrow> timely c calls' items"
  unfolding timely_def by blast

lemma timely_DEL: "del_closed (timely c calls)"
  by (auto simp: del_closed_def timely_def DEL_def)

lemma timely_upd:
  assumes "timely c calls items"
    and "\<And>raw. text_of (it_data it) = Some raw \<Longrightarrow> \<exists>cx call ps. (cx, call) \<in> calls \<and> writes k ps call \<and>
      raw = Json (Permissions ps) \<and> it_expires it = Some (cx_now cx + lifetime c)"
  shows "timely c calls (fmupd (redis_key c k) it items)"
  using assms by (auto simp: timely_def)

lemmas command_timely = command_inv [where P = "timely c calls" for c calls]

lemma cache_step_timely:
  assumes rd: "timely c calls (rd_items rd)" and call: "(cx, call) \<in> calls"
  shows "timely c calls (rd_items (cache_step c (cx, call) rd))"
proof (cases call)
  case (CacheSet k ps)
  have "timely c calls (fst (redisCacheSet (cx_now cx) (redis_key c k) fresh (Json (Permissions ps)) (ttlMilliseconds c) items))"
    if "timely c calls items" for items fresh
    unfolding set_script by (rule timely_upd [OF that]) (use call CacheSet in \<open>force simp: lifetime_def\<close>)
  then show ?thesis unfolding CacheSet cache_step.simps redis_Set_def by (rule command_timely [OF rd])
next
  case (CacheGeneration k)
  have "timely c calls (fst (redisCacheGeneration (cx_now cx) (redis_key c k) fresh (ttlMilliseconds c) items))"
    if "timely c calls items" for items fresh
  proof -
    have "timely c calls (fmupd (redis_key c k) \<lparr>it_data = Hash (Some fresh) None, it_expires = x\<rparr> items)" for x
      by (rule timely_upd [OF that]) simp
    with that show ?thesis by (simp add: generation_script split: option.split redis_data.split)
  qed
  from command_timely [OF rd this] show ?thesis by (simp add: CacheGeneration redis_Generation_def split_beta)
next
  case (CacheSetIf k ps t)
  have "timely c calls (fst (redisCacheConditionalSet (cx_now cx) (redis_key c k) t (Json (Permissions ps)) (ttlMilliseconds c) items))"
    if "timely c calls items" for items
  proof -
    have "timely c calls (fmupd (redis_key c k)
        \<lparr>it_data = Hash g (Some (Json (Permissions ps))), it_expires = Some (cx_now cx + ttlMilliseconds c * 1000000)\<rparr> items)" for g
      by (rule timely_upd [OF that]) (use call CacheSetIf in \<open>force simp: lifetime_def\<close>)
    with that show ?thesis by (simp add: conditional_script split: option.split redis_data.split)
  qed
  then show ?thesis unfolding CacheSetIf cache_step.simps redis_SetIfGeneration_def by (rule command_timely [OF rd])
next
  case (CacheDelete k)
  then show ?thesis using rd Del_inv [OF timely_DEL] by (simp add: redis_Delete_def)
next
  case CacheFlush
  then show ?thesis using rd flush_inv [OF timely_DEL] by (simp add: redis_Flush_def)
qed (simp add: rd)

lemma cache_run_timely:
  "timely c (calls \<union> set cs) (rd_items rd) \<Longrightarrow> timely c (calls \<union> set cs) (rd_items (fold (cache_step c) cs rd))"
proof (induction cs arbitrary: rd calls)
  case (Cons call cs)
  obtain cx f where call: "call = (cx, f)" by force
  from Cons.prems have "timely c (insert call calls \<union> set cs) (rd_items (cache_step c call rd))"
    unfolding call by (intro cache_step_timely) auto
  from Cons.IH [OF this] show ?case by simp
qed simp

text \<open>
  C17. However commands and their answers get lost, the Redis cache never answers with a set that was
  not written for that key, nor later than the time to live after it was written (one millisecond if
  that is shorter): a lost invalidation is bounded by the expiry.
\<close>

theorem redis_stale_bounded:
  assumes "\<And>k. redis_key c k |\<notin>| fmdom (rd_items rd)" and "snd (redis_Get c cx k (fold (cache_step c) calls rd)) = Some v"
  shows "\<exists>cx' call ps. (cx', call) \<in> set calls \<and> writes k ps call \<and> v = Permissions ps \<and>
    cx_now cx \<le> cx_now cx' + max 1000000 (rl_ttl c)"
proof -
  have "timely c ({} \<union> set calls) (rd_items rd)"
    using assms(1) by (auto simp: timely_def fmlookup_dom_iff)
  from cache_run_timely [OF this] redis_Get_stored [OF assms(2)]
  obtain cx' call ps it where "(cx', call) \<in> set calls" "writes k ps call" "v = Permissions ps" "readable (cx_now cx) it"
    "it_expires it = Some (cx_now cx' + lifetime c)"
    by (auto simp: timely_def) (metis Unmarshal_Permissions option.inject)
  with lifetime_bound [of c] show ?thesis by (fastforce simp: readable_def)
qed

text \<open>A server that loses the second command.\<close>

definition lossy :: "nat \<Rightarrow> answer" where
  "lossy n = (if n = 1 then Unsent (ErrBackend ''i/o timeout'') else Answered)"

definition fresh_redis :: "(nat \<Rightarrow> answer) \<Rightarrow> redis" where
  "fresh_redis how = \<lparr>rd_items = fmempty, rd_clock = 0, rd_answers = how, rd_text = (\<lambda>n. replicate n CHR ''A''),
     rd_scan = (\<lambda>_ keys. [sorted_list_of_fset keys]), rd_nodes = 1, rd_node = (\<lambda>_. 0), rd_class = (\<lambda>_. (\<lambda>_. False, 0))\<rparr>"

definition at_second :: "int \<Rightarrow> ctx" where
  "at_second n = background\<lparr>cx_now := n * 1000000000\<rparr>"

definition lost_delete :: "(ctx \<times> cache_call) list" where
  "lost_delete = [(at_second 0, CacheSet ''bob'' fmempty), (at_second 1, CacheDelete ''bob'')]"

definition five_minute_cache :: redisLRU where
  "five_minute_cache = NewRedisLRU False [] 0"

theorem redis_stale_bounded_witness:
  "snd (redis_Get five_minute_cache (at_second 299) ''bob'' (fold (cache_step five_minute_cache) lost_delete (fresh_redis lossy))) =
     Some (Permissions fmempty) \<and>
   (\<exists>cx' call ps. (cx', call) \<in> set lost_delete \<and> writes ''bob'' ps call \<and> Permissions fmempty = Permissions ps \<and>
      cx_now (at_second 299) \<le> cx_now cx' + max 1000000 (rl_ttl five_minute_cache))"
proof -
  let ?c = five_minute_cache
  have stale: "snd (redis_Get ?c (at_second 299) ''bob'' (fold (cache_step ?c) lost_delete (fresh_redis lossy))) =
      Some (Permissions fmempty)" by code_simp
  have "redis_key ?c k |\<notin>| fmdom (rd_items (fresh_redis lossy))" for k by (simp add: fresh_redis_def)
  from redis_stale_bounded [OF this stale] stale show ?thesis by blast
qed

subsection \<open>Enforcers over an SQL database and a Redis cache\<close>

inductive shared_run :: "redisLRU \<Rightarrow> (sqldb, redis, 'x) enforcer \<Rightarrow> (sqldb, redis, 'x) state \<Rightarrow> bool" for c e where
  start: "sql_ok (st_store st) \<Longrightarrow> db_tables (st_store st) = empty_tables \<Longrightarrow> answers c (st_cache st) \<Longrightarrow>
    (\<And>k. redis_key c k |\<notin>| fmdom (rd_items (st_cache st))) \<Longrightarrow> shared_run c e st"
| call: "shared_run c e st \<Longrightarrow> enforcer_step e st st' \<Longrightarrow> shared_run c e st'"

lemma shared_run_good:
  assumes "shared_run c e st" and "runs_on e (sql_ops d) (redis_ops c)"
  shows "good e sql_ok sql_abs (answers c) (redis_holds c) st"
  using assms(1)
proof induction
  case (start st)
  then show ?case by (auto simp: good_def coherent_def redis_holds_def cached_def fmlookup_dom_iff)
next
  case (call st st')
  then show ?case using shared.enforcer_step_confined [OF _ assms(2)] by blast
qed

text \<open>
  C15. An Enforcer over an SQL database of any dialect and a Redis cache, on one server or a cluster,
  decides exactly as specified in every state it reaches while the database and Redis answer, and every
  call that changes the policy has its specified outcome: the scripts, the expiry and the flush by
  pattern never leave a set that a change has made wrong.
\<close>

theorem redis_Enforcer_exact:
  assumes "shared_run c e st" and "runs_on e (sql_ops d) (redis_ops c)" and "en_audit e = None"
    and "cx_Err cx = None" and "fair_range cx" and "\<not> st_shutdown st"
  shows "(snd (Enforce e cx u res act st) \<longleftrightarrow>
      decision e (sql_abs (st_store st)) u res act (cx_attrs cx) (may e (sql_abs (st_store st)) u res act)) \<and>
    ((f, g) \<in> policy_calls e sql_traits cx actor \<longrightarrow> meets sql_abs f st (g (sql_abs (st_store st))))"
proof (intro conjI impI)
  note st = shared_run_good [OF assms(1,2)]
  show "snd (Enforce e cx u res act st) \<longleftrightarrow>
      decision e (sql_abs (st_store st)) u res act (cx_attrs cx) (may e (sql_abs (st_store st)) u res act)"
    by (rule shared.EnforceCtx_decision [OF assms(2) st assms(4-6), of u res act])
      (simp add: Enforce_def split_beta recordDecision_off [OF assms(3)])
  show "meets sql_abs f st (g (sql_abs (st_store st)))" if "(f, g) \<in> policy_calls e sql_traits cx actor"
    by (rule shared.policy_call_outcome [OF assms(2) st assms(4-6,3) that])
qed

definition shared_acme :: "(sqldb, redis, unit) enforcer" where
  "shared_acme = \<lparr>en_store = sql_ops Postgres, en_cache = Some (redis_ops five_minute_cache), en_logger = True,
     en_metrics = True, en_audit = None, en_wildcards = True, en_rulesEnabled = True, en_tenant = ''acme'',
     en_manageRes = ''roles'', en_manageAct = ''manage'', en_policySource = None, en_publish = None\<rparr>"

definition shared_start :: "(sqldb, redis, unit) state" where
  "shared_start = \<lparr>st_store = fresh_db, st_cache = fresh_redis (\<lambda>_. Answered), st_ext = (),
     st_cacheGeneration = 0, st_policyVersion = 0, st_subscribed = False, st_shutdown = False,
     st_metrics = no_metrics, st_log = []\<rparr>"

text \<open>A decision fills the cache before the assignment; the assignment drops the set.\<close>

definition shared_calls :: "((sqldb, redis, unit) state \<Rightarrow> (sqldb, redis, unit) state) list" where
  "shared_calls =
     [\<lambda>st. fst (RegisterRole shared_acme background viewer st),
      \<lambda>st. fst (EnforceCtx shared_acme background ''bob'' ''doc'' ''read'' st),
      \<lambda>st. fst (AssignRole shared_acme background ''bob'' ''viewer'' st)]"

definition shared_state :: "(sqldb, redis, unit) state" where
  "shared_state = fold (\<lambda>f. f) shared_calls shared_start"

lemma shared_state_run: "shared_run five_minute_cache shared_acme shared_state"
proof -
  have "shared_run five_minute_cache shared_acme shared_start"
    by (rule shared_run.start)
      (simp_all add: shared_start_def fresh_db_ok answers_def fresh_redis_def sorted_list_of_fset.rep_eq, simp add: fresh_db_def)
  moreover have "\<forall>f \<in> set shared_calls. \<forall>st. enforcer_step shared_acme st (f st)"
    by (auto simp: shared_calls_def intro: enforcer_step.intros fair_background)
  ultimately have "shared_run five_minute_cache shared_acme (fold (\<lambda>f. f) fs shared_start)"
    if "set fs \<subseteq> set shared_calls" for fs
    using that by (induction fs rule: rev_induct) (auto intro: shared_run.call)
  then show ?thesis by (simp add: shared_state_def)
qed

theorem redis_Enforcer_exact_witness:
  "decision shared_acme (sql_abs (st_store shared_state)) ''bob'' ''doc'' ''read'' (cx_attrs background)
     (may shared_acme (sql_abs (st_store shared_state)) ''bob'' ''doc'' ''read'')"
proof -
  have runs: "runs_on shared_acme (sql_ops Postgres) (redis_ops five_minute_cache)" "en_audit shared_acme = None"
    by (simp_all add: runs_on_def shared_acme_def)
  have up: "\<not> st_shutdown shared_state" by code_simp
  have "snd (Enforce shared_acme background ''bob'' ''doc'' ''read'' shared_state) = True" by code_simp
  then show ?thesis
    using redis_Enforcer_exact [OF shared_state_run runs background_Err fair_background up] by simp
qed

subsection \<open>The policy version\<close>

text \<open>Taking a version adds one to the version that was read and reads back as the new one.\<close>

lemma redis_version_increases:
  assumes "answers c rd" and took: "redis_NextPolicyVersion key cx rd = (rd', Inr v)"
  shows "redis_PolicyVersion key cx rd' = Inr v"
    and "redis_PolicyVersion key cx rd = Inr w \<Longrightarrow> v = w + 1"
proof -
  obtain n where run: "command (INCR (cx_now cx) key) rd = (rd', Inr n)" and v: "v = word_of_int n" "cx_Err cx = None"
    using took by (auto simp: redis_NextPolicyVersion_def split: option.splits prod.splits sum.splits)
  have rd': "rd_items rd' = fst (INCR (cx_now cx) key (rd_items rd))" "answers c rd'"
    and n: "snd (INCR (cx_now cx) key (rd_items rd)) = Inr n"
    using command_answered [OF assms(1), of "INCR (cx_now cx) key"] answers_command [of c "INCR (cx_now cx) key" rd] assms(1)
    by (simp_all add: run)
  have "live (cx_now cx) (rd_items rd') key = Some (Text (Number n)) \<and> - (2 ^ 63) < n \<and> n < 2 ^ 63 \<and>
      (live (cx_now cx) (rd_items rd) key = None \<and> n = 1 \<or> live (cx_now cx) (rd_items rd) key = Some (Text (Number (n - 1))))"
    using n unfolding rd' INCR_def
    by (auto simp: live_def split: option.splits redis_data.splits raw.splits if_splits)
  then show "redis_PolicyVersion key cx rd' = Inr v" and "redis_PolicyVersion key cx rd = Inr w \<Longrightarrow> v = w + 1"
    using v by (auto simp: redis_PolicyVersion_def command_answered [OF rd'(2)] command_answered [OF assms(1)] GET_def Int64_def
        split: if_splits)
qed

end
