(* ===== verification/Config.thy ===== *)
theory Config
  imports RedisCache SqlStore Tenancy
begin

text \<open>
  The construction of an Enforcer: \<^verbatim>\<open>New\<close> (\<^verbatim>\<open>enforcer.go\<close>), the options (\<^verbatim>\<open>options.go\<close> and the
  files of the components), the configuration from the environment (\<^verbatim>\<open>env.go\<close>), the embedded database
  (\<^verbatim>\<open>sqlite.go\<close>) and the closing of what the options opened (\<^verbatim>\<open>shutdown.go\<close>). What the host answers
  is an argument: its environment, its database drivers, what opening and pinging a database returns,
  and \<^verbatim>\<open>time.ParseDuration\<close>.
\<close>

subsection \<open>The host\<close>

text \<open>A database is one of the caller or the n-th one an option opened, with its driver and its DSN.\<close>

datatype database = CallerDB nat | OwnDB nat string string

record host =
  ho_LookupEnv :: "string \<Rightarrow> string option"
  ho_Drivers :: "string list"
  ho_sqlOpen :: "nat \<Rightarrow> string \<Rightarrow> string \<Rightarrow> err option"
  ho_Ping :: "nat \<Rightarrow> err option"
  ho_version :: "database \<Rightarrow> err option"
  ho_db :: "database \<Rightarrow> sqldb"
  ho_ParseDuration :: "string \<Rightarrow> int option"

text \<open>Resources that options opened; a Redis client has an address, a password and a database index.\<close>

datatype handle = Database nat | Client string string int

subsection \<open>The Enforcer under construction\<close>

text \<open>Values that the caller passes are known by a number.\<close>

datatype store_choice = GivenStore nat | NewMemory | SqlOn database sql_config bool
datatype cache_choice = GivenCache nat | LruCache lru | RedisCache redisLRU

record builder =
  su_store :: "store_choice option"
  su_env :: "string option"
  su_cache :: "cache_choice option"
  su_logger :: "nat option"
  su_metrics :: "nat option"
  su_audit :: "nat option"
  su_wildcards :: bool
  su_rulesEnabled :: bool
  su_tenant :: string
  su_manageRes :: string
  su_manageAct :: string
  su_policySource :: "nat option"
  su_invalidator :: "nat option"
  su_subscribed :: bool
  su_ownedClient :: "handle option"
  su_ownedDBs :: "handle list"
  su_shutdown :: bool
  su_clock :: nat
  su_opened :: "handle list"
  su_closed :: "handle list"

definition close_handle :: "handle \<Rightarrow> builder \<Rightarrow> builder" where
  "close_handle r e = e\<lparr>su_closed := su_closed e @ [r]\<rparr>"

subsection \<open>Reading the environment\<close>

definition envString :: "host \<Rightarrow> string \<Rightarrow> string \<Rightarrow> string" where
  "envString h key fallback =
     (case ho_LookupEnv h key of Some v \<Rightarrow> if v \<noteq> [] then v else fallback | None \<Rightarrow> fallback)"

definition Getenv :: "host \<Rightarrow> string \<Rightarrow> string" where
  "Getenv h key = (case ho_LookupEnv h key of Some v \<Rightarrow> v | None \<Rightarrow> [])"

definition Atoi :: "string \<Rightarrow> int option" where
  "Atoi s =
     (let (neg, ds) = (if HasPrefix s ''+'' then (False, tl s) else sign_split s);
          n = (if neg then - int (nat_of_digits ds) else int (nat_of_digits ds))
      in if ds = [] \<or> \<not> list_all digit ds \<or> n < - (2 ^ 63) \<or> 2 ^ 63 \<le> n then None else Some n)"

definition envInt :: "host \<Rightarrow> string \<Rightarrow> int \<Rightarrow> int" where
  "envInt h key fallback =
     (case ho_LookupEnv h key of None \<Rightarrow> fallback
      | Some v \<Rightarrow> if v = [] then fallback else (case Atoi v of None \<Rightarrow> fallback | Some n \<Rightarrow> n))"

definition envDuration :: "host \<Rightarrow> string \<Rightarrow> int \<Rightarrow> int" where
  "envDuration h key fallback =
     (case ho_LookupEnv h key of None \<Rightarrow> fallback
      | Some v \<Rightarrow> if v = [] then fallback else (case ho_ParseDuration h v of None \<Rightarrow> fallback | Some d \<Rightarrow> d))"

definition driverRegistered :: "host \<Rightarrow> string \<Rightarrow> bool" where
  "driverRegistered h name \<longleftrightarrow> name \<in> set (ho_Drivers h)"

subsection \<open>Databases\<close>

definition isMemoryDSN :: "string \<Rightarrow> bool" where
  "isMemoryDSN dsn \<longleftrightarrow> Contains dsn '':memory:'' \<or> Contains dsn ''mode=memory''"

definition sqlOpen :: "host \<Rightarrow> string \<Rightarrow> string \<Rightarrow> builder \<Rightarrow> builder \<times> (err + nat)" where
  "sqlOpen h driver dsn e =
     (let n = su_clock e; e = e\<lparr>su_clock := n + 1\<rparr>
      in case ho_sqlOpen h n driver dsn of
           Some er \<Rightarrow> (e, Inl er)
         | None \<Rightarrow> (e\<lparr>su_opened := su_opened e @ [Database n]\<rparr>, Inr n))"

text \<open>The store over a database; the flag says whether its pool is capped at one connection.\<close>

definition openStore :: "host \<Rightarrow> database \<Rightarrow> bool \<Rightarrow> sql_option list \<Rightarrow> err + store_choice" where
  "openStore h db capped opts =
     (case snd (NewSQLStore False (ho_version h db) opts (ho_db h db)) of
        Inl er \<Rightarrow> Inl er | Inr cfg \<Rightarrow> Inr (SqlOn db cfg capped))"

definition newSQLiteStore :: "host \<Rightarrow> string \<Rightarrow> builder \<Rightarrow> builder \<times> (err + store_choice \<times> nat)" where
  "newSQLiteStore h path e =
     (case sqlOpen h ''sqlite3'' path e of
        (e, Inl er) \<Rightarrow> (e, Inl er)
      | (e, Inr db) \<Rightarrow>
          (case ho_Ping h db of
             Some er \<Rightarrow> (close_handle (Database db) e, Inl er)
           | None \<Rightarrow>
               (case openStore h (OwnDB db ''sqlite3'' path) (isMemoryDSN path) [] of
                  Inl er \<Rightarrow> (close_handle (Database db) e, Inl er)
                | Inr s \<Rightarrow> (e, Inr (s, db)))))"

subsection \<open>The options\<close>

text \<open>An option sets fields of the Enforcer or fails; a nil argument is \<open>None\<close>.\<close>

definition needs :: "string \<Rightarrow> 'a option \<Rightarrow> ('a \<Rightarrow> builder \<Rightarrow> builder) \<Rightarrow> builder mutation" where
  "needs message arg put e = (case arg of None \<Rightarrow> (e, Some (ErrConfig message)) | Some x \<Rightarrow> (put x e, None))"

definition WithStore :: "nat option \<Rightarrow> builder mutation" where
  "WithStore s = needs ''rbacgo: nil store'' s (\<lambda>s. su_store_update (\<lambda>_. Some (GivenStore s)))"

definition WithMemoryStore :: "builder mutation" where
  "WithMemoryStore e = (e\<lparr>su_store := Some NewMemory\<rparr>, None)"

definition WithSQLStore :: "host \<Rightarrow> nat option \<Rightarrow> sql_option list \<Rightarrow> builder mutation" where
  "WithSQLStore h db opts e =
     (case db of
        None \<Rightarrow> (e, Some (ErrConfig ''rbacgo: nil *sql.DB''))
      | Some n \<Rightarrow> (case openStore h (CallerDB n) False opts of
          Inl er \<Rightarrow> (e, Some er)
        | Inr s \<Rightarrow> (e\<lparr>su_store := Some s\<rparr>, None)))"

definition WithSQLite :: "host \<Rightarrow> string \<Rightarrow> builder mutation" where
  "WithSQLite h path e =
     (case newSQLiteStore h path e of
        (e, Inl er) \<Rightarrow> (e, Some er)
      | (e, Inr (s, db)) \<Rightarrow> (e\<lparr>su_store := Some s, su_ownedDBs := su_ownedDBs e @ [Database db]\<rparr>, None))"

definition WithLRU :: "nat option \<Rightarrow> builder mutation" where
  "WithLRU backend = needs ''rbacgo: nil cache backend'' backend (\<lambda>c. su_cache_update (\<lambda>_. Some (GivenCache c)))"

definition WithRoleManagementPermission :: "string \<Rightarrow> string \<Rightarrow> builder mutation" where
  "WithRoleManagementPermission resource action e =
     (if blank resource \<or> blank action then (e, Some (ErrConfig ''rbacgo: invalid role management permission''))
      else (e\<lparr>su_manageRes := resource, su_manageAct := action\<rparr>, None))"

definition WithPolicyVersionStore :: "nat option \<Rightarrow> builder mutation" where
  "WithPolicyVersionStore vs = needs ''rbacgo: nil policy version store'' vs (\<lambda>v. su_policySource_update (\<lambda>_. Some v))"

definition SetTenant :: "string \<Rightarrow> builder mutation" where
  "SetTenant tenant e =
     (if blank tenant then (e, Some (ErrConfig ''rbacgo: empty tenant''))
      else let t = TrimSpace tenant
           in if Contains t tenantSep then (e, Some (ErrConfig ''rbacgo: tenant contains the reserved separator''))
              else (e\<lparr>su_tenant := t\<rparr>, None))"

definition WithLogger :: "nat option \<Rightarrow> builder mutation" where
  "WithLogger logger = needs ''rbacgo: nil logger'' logger (\<lambda>l. su_logger_update (\<lambda>_. Some l))"

definition WithMetrics :: "nat option \<Rightarrow> builder mutation" where
  "WithMetrics metrics = needs ''rbacgo: nil metrics'' metrics (\<lambda>m. su_metrics_update (\<lambda>_. Some m))"

definition WithAuditSink :: "nat option \<Rightarrow> builder mutation" where
  "WithAuditSink sink = needs ''rbacgo: nil audit sink'' sink (\<lambda>a. su_audit_update (\<lambda>_. Some a))"

definition WithCacheInvalidator :: "nat option \<Rightarrow> builder mutation" where
  "WithCacheInvalidator i = needs ''rbacgo: nil cache invalidator'' i (\<lambda>i. su_invalidator_update (\<lambda>_. Some i))"

definition WithWildcardPermissions :: "builder mutation" where
  "WithWildcardPermissions e = (e\<lparr>su_wildcards := True\<rparr>, None)"

definition WithPolicyRules :: "builder mutation" where
  "WithPolicyRules e = (e\<lparr>su_rulesEnabled := True\<rparr>, None)"

definition WithEnvPrefix :: "string \<Rightarrow> builder mutation" where
  "WithEnvPrefix prefix e = (e\<lparr>su_env := Some prefix\<rparr>, None)"

subsection \<open>The configuration from the environment\<close>

definition envPrefix :: "builder \<Rightarrow> string" where
  "envPrefix e = (case su_env e of Some p \<Rightarrow> if p \<noteq> [] then p else ''RBAC_'' | None \<Rightarrow> ''RBAC_'')"

text \<open>The database of \<^verbatim>\<open>STORE=sql\<close>: PostgreSQL by its URL, SQLite otherwise.\<close>

definition env_sql :: "host \<Rightarrow> string \<Rightarrow> builder mutation" where
  "env_sql h prefix e =
     (let url = Getenv h (prefix @ ''DATABASE_URL'');
          pg = HasPrefix url ''postgres://'' \<or> HasPrefix url ''postgresql://'';
          driver = (if pg then ''pgx'' else ''sqlite3'');
          tablePrefix = envString h (prefix @ ''SQL_TABLE_PREFIX'') [];
          opts = (if tablePrefix \<noteq> [] then [WithTablePrefix tablePrefix] else [])
      in if url = [] then (e, Some (ErrConfig ''rbacgo: DATABASE_URL is required when STORE=sql''))
         else if pg \<and> \<not> driverRegistered h ''pgx'' then (e, Some (ErrConfig ''rbacgo: pgx driver not registered''))
         else case sqlOpen h driver url e of
                (e, Inl er) \<Rightarrow> (e, Some er)
              | (e, Inr db) \<Rightarrow>
                  (case openStore h (OwnDB db driver url) (\<not> pg \<and> isMemoryDSN url) opts of
                     Inl er \<Rightarrow> (close_handle (Database db) e, Some er)
                   | Inr s \<Rightarrow> (e\<lparr>su_store := Some s, su_ownedDBs := su_ownedDBs e @ [Database db]\<rparr>, None)))"

definition env_store :: "host \<Rightarrow> string \<Rightarrow> builder mutation" where
  "env_store h prefix e =
     (if su_store e \<noteq> None then (e, None)
      else let kind = envString h (prefix @ ''STORE'') ''sqlite''
           in if kind = ''sqlite'' then WithSQLite h (envString h (prefix @ ''SQLITE_PATH'') '':memory:'') e
              else if kind = ''sql'' then env_sql h prefix e
              else if kind = ''memory'' then (e\<lparr>su_store := Some NewMemory\<rparr>, None)
              else (e, Some (ErrConfig ''rbacgo: unknown STORE value'')))"

definition env_cache :: "host \<Rightarrow> string \<Rightarrow> builder mutation" where
  "env_cache h prefix e =
     (if su_cache e \<noteq> None then (e, None)
      else let kind = envString h (prefix @ ''CACHE'') ''memory'';
               ttl = envDuration h (prefix @ ''CACHE_TTL'') five_minutes
           in if kind = ''memory''
              then (e\<lparr>su_cache := Some (LruCache (NewMemoryLRU (envInt h (prefix @ ''CACHE_CAPACITY'') 1024) ttl))\<rparr>, None)
              else if kind = ''redis''
              then let client = Client (envString h (prefix @ ''REDIS_ADDR'') ''localhost:6379'')
                         (Getenv h (prefix @ ''REDIS_PASSWORD'')) (envInt h (prefix @ ''REDIS_DB'') 0)
                   in (e\<lparr>su_opened := su_opened e @ [client], su_ownedClient := Some client,
                         su_cache := Some (RedisCache (NewRedisLRU False (prefix @ ''cache:'') ttl))\<rparr>, None)
              else if kind = ''none'' then (e, None)
              else (e, Some (ErrConfig ''rbacgo: unknown CACHE value'')))"

definition WithConfigFromEnv :: "host \<Rightarrow> builder mutation" where
  "WithConfigFromEnv h e =
     (let prefix = envPrefix e;
          e = (case su_env e of None \<Rightarrow> e\<lparr>su_env := Some prefix\<rparr> | Some _ \<Rightarrow> e)
      in andS (env_store h prefix) (env_cache h prefix) e)"

subsection \<open>Closing and New\<close>

text \<open>The first \<^verbatim>\<open>Shutdown\<close>, with the goroutine that it waits for, run to its end.\<close>

definition closeOwned :: "builder \<Rightarrow> builder" where
  "closeOwned e =
     (let e = e\<lparr>su_subscribed := False\<rparr>
      in case su_ownedClient e of None \<Rightarrow> e | Some client \<Rightarrow> close_handle client e)"

definition shutdownBuilder :: "builder \<Rightarrow> builder" where
  "shutdownBuilder e = (let e = closeOwned (e\<lparr>su_shutdown := True\<rparr>) in fold close_handle (su_ownedDBs e) e)"

text \<open>The options of the package with their arguments.\<close>

datatype setting =
  Store "nat option" | SQLStore "nat option" "sql_option list" | MemoryStore | SQLite string
| Cache "nat option" | RoleManagementPermission string string | PolicyVersionStore "nat option"
| Tenant string | Logger "nat option" | Metrics "nat option" | AuditSink "nat option"
| CacheInvalidator "nat option" | WildcardPermissions | PolicyRules | EnvPrefix string | ConfigFromEnv

fun apply_setting :: "host \<Rightarrow> setting \<Rightarrow> builder mutation" where
  "apply_setting h (Store s) = WithStore s"
| "apply_setting h (SQLStore db opts) = WithSQLStore h db opts"
| "apply_setting h MemoryStore = WithMemoryStore"
| "apply_setting h (SQLite path) = WithSQLite h path"
| "apply_setting h (Cache c) = WithLRU c"
| "apply_setting h (RoleManagementPermission r a) = WithRoleManagementPermission r a"
| "apply_setting h (PolicyVersionStore v) = WithPolicyVersionStore v"
| "apply_setting h (Tenant t) = SetTenant t"
| "apply_setting h (Logger l) = WithLogger l"
| "apply_setting h (Metrics m) = WithMetrics m"
| "apply_setting h (AuditSink a) = WithAuditSink a"
| "apply_setting h (CacheInvalidator i) = WithCacheInvalidator i"
| "apply_setting h WildcardPermissions = WithWildcardPermissions"
| "apply_setting h PolicyRules = WithPolicyRules"
| "apply_setting h (EnvPrefix p) = WithEnvPrefix p"
| "apply_setting h ConfigFromEnv = WithConfigFromEnv h"

fun apply_settings :: "host \<Rightarrow> setting list \<Rightarrow> builder mutation" where
  "apply_settings h [] e = (e, None)"
| "apply_settings h (s # ss) e = andS (apply_setting h s) (apply_settings h ss) e"

definition blank_builder :: "nat \<Rightarrow> builder" where
  "blank_builder n = \<lparr>su_store = None, su_env = None, su_cache = None, su_logger = None, su_metrics = None,
     su_audit = None, su_wildcards = False, su_rulesEnabled = False, su_tenant = [], su_manageRes = ''roles'',
     su_manageAct = ''manage'', su_policySource = None, su_invalidator = None, su_subscribed = False,
     su_ownedClient = None, su_ownedDBs = [], su_shutdown = False, su_clock = n, su_opened = [], su_closed = []\<rparr>"

text \<open>What \<^verbatim>\<open>New\<close> does after the options.\<close>

definition finishNew :: "host \<Rightarrow> builder mutation" where
  "finishNew h =
     andS (\<lambda>e. if su_store e = None then WithSQLite h '':memory:'' e else (e, None))
       (\<lambda>e. let e = (if su_cache e = None \<and> su_env e = None
                      then e\<lparr>su_cache := Some (LruCache (NewMemoryLRU 1024 five_minutes))\<rparr> else e)
             in if su_tenant e = [] then (e, Some ErrTenantRequired)
                else (e\<lparr>su_subscribed := su_invalidator e \<noteq> None \<and> su_cache e \<noteq> None\<rparr>, None))"

text \<open>An Enforcer, or the error and what is left of the builder after it was shut down.\<close>

definition New :: "host \<Rightarrow> setting list \<Rightarrow> nat \<Rightarrow> builder \<times> err option" where
  "New h opts n =
     (case andS (apply_settings h opts) (finishNew h) (blank_builder n) of
        (e, None) \<Rightarrow> (e, None)
      | (e, Some er) \<Rightarrow> (shutdownBuilder e, Some er))"

end
