(* ===== verification/ConfigProps.thy ===== *)
theory ConfigProps
  imports Config "HOL-Library.Multiset"
begin

text \<open>
  The properties of the construction: the books of what the options opened and closed, and which option
  decides a field of the Enforcer.
\<close>

subsection \<open>The books\<close>

definition owned :: "builder \<Rightarrow> handle multiset" where
  "owned e = mset (su_ownedDBs e) + mset (case su_ownedClient e of None \<Rightarrow> [] | Some c \<Rightarrow> [c])"

text \<open>
  What was opened is closed or owned, nothing is opened twice, and a Redis client is there only with a cache.
\<close>

definition books :: "builder \<Rightarrow> bool" where
  "books e \<longleftrightarrow> mset (su_opened e) = mset (su_closed e) + owned e \<and> distinct (su_opened e) \<and>
     (\<forall>k. Database k \<in> set (su_opened e) \<longrightarrow> k < su_clock e) \<and>
     (\<forall>a p d. Client a p d \<in> set (su_opened e) \<longrightarrow> su_cache e \<noteq> None) \<and>
     (su_ownedClient e \<noteq> None \<longrightarrow> su_cache e \<noteq> None)"

definition balanced :: "builder mutation \<Rightarrow> bool" where
  "balanced f \<longleftrightarrow> (\<forall>e. books e \<longrightarrow> books (fst (f e)) \<and> (snd (f e) = None \<longrightarrow> su_closed (fst (f e)) = su_closed e))"

named_theorems balanced_intros \<open>options that keep the books\<close>

lemma balanced_andS [balanced_intros]: "balanced f \<Longrightarrow> balanced g \<Longrightarrow> balanced (andS f g)"
  unfolding balanced_def andS_def by (auto split: prod.split option.split)

text \<open>An option that does not touch the books.\<close>

lemma balanced_plain:
  assumes "\<And>e. su_opened (fst (f e)) = su_opened e \<and> su_closed (fst (f e)) = su_closed e \<and>
    su_ownedDBs (fst (f e)) = su_ownedDBs e \<and> su_ownedClient (fst (f e)) = su_ownedClient e \<and>
    su_clock (fst (f e)) = su_clock e \<and> (su_cache e \<noteq> None \<longrightarrow> su_cache (fst (f e)) \<noteq> None)"
  shows "balanced f"
  using assms by (simp add: balanced_def books_def owned_def)

lemma balanced_needs:
  assumes "\<And>x e. su_opened (put x e) = su_opened e \<and> su_closed (put x e) = su_closed e \<and>
    su_ownedDBs (put x e) = su_ownedDBs e \<and> su_ownedClient (put x e) = su_ownedClient e \<and>
    su_clock (put x e) = su_clock e \<and> (su_cache e \<noteq> None \<longrightarrow> su_cache (put x e) \<noteq> None)"
  shows "balanced (needs m arg put)"
  using assms by (intro balanced_plain) (cases arg; simp add: needs_def)

lemma balanced_simple [balanced_intros]:
  "balanced (WithStore s)" "balanced WithMemoryStore" "balanced (WithLRU s)" "balanced (WithRoleManagementPermission r a)"
  "balanced (WithPolicyVersionStore s)" "balanced (SetTenant t)" "balanced (WithLogger s)" "balanced (WithMetrics s)"
  "balanced (WithAuditSink s)" "balanced (WithCacheInvalidator s)" "balanced WithWildcardPermissions"
  "balanced WithPolicyRules" "balanced (WithEnvPrefix r)" "balanced (WithSQLStore h s opts)"
  unfolding WithStore_def WithLRU_def WithPolicyVersionStore_def WithLogger_def WithMetrics_def WithAuditSink_def
    WithCacheInvalidator_def
  by ((rule balanced_needs, simp)
    | (rule balanced_plain, simp add: WithMemoryStore_def WithRoleManagementPermission_def SetTenant_def
        WithWildcardPermissions_def WithPolicyRules_def WithEnvPrefix_def WithSQLStore_def Let_def
        split: option.split sum.split))+

text \<open>A database is opened with a new number; afterwards it is closed or handed over.\<close>

lemma sqlOpen_books:
  assumes "books e" and "sqlOpen h driver dsn e = (e', r)"
  shows "\<And>er. r = Inl er \<Longrightarrow> books e' \<and> su_closed e' = su_closed e"
    and "\<And>db. r = Inr db \<Longrightarrow> books (close_handle (Database db) e') \<and>
      books (e'\<lparr>su_store := s, su_ownedDBs := su_ownedDBs e' @ [Database db]\<rparr>) \<and> su_closed e' = su_closed e"
  using assms by (auto simp: sqlOpen_def Let_def books_def owned_def close_handle_def less_Suc_eq split: option.splits)

lemma newSQLiteStore_books:
  assumes "books e" and "newSQLiteStore h path e = (e', r)"
  shows "\<And>er. r = Inl er \<Longrightarrow> books e'"
    and "\<And>s db. r = Inr (s, db) \<Longrightarrow>
      books (e'\<lparr>su_store := Some s, su_ownedDBs := su_ownedDBs e' @ [Database db]\<rparr>) \<and> su_closed e' = su_closed e"
  using assms sqlOpen_books [OF assms(1)]
  by (auto simp: newSQLiteStore_def split: prod.splits sum.splits option.splits)

lemma balanced_WithSQLite [balanced_intros]: "balanced (WithSQLite h path)"
  unfolding balanced_def
proof (intro allI impI)
  fix e assume e: "books e"
  obtain e' r where run: "newSQLiteStore h path e = (e', r)" by force
  show "books (fst (WithSQLite h path e)) \<and>
      (snd (WithSQLite h path e) = None \<longrightarrow> su_closed (fst (WithSQLite h path e)) = su_closed e)"
    using newSQLiteStore_books [OF e run] by (cases r) (auto simp: WithSQLite_def run)
qed

lemma balanced_env_sql [balanced_intros]: "balanced (env_sql h prefix)"
  unfolding balanced_def
proof (intro allI impI)
  fix e assume e: "books e"
  let ?url = "Getenv h (prefix @ ''DATABASE_URL'')"
  let ?pg = "HasPrefix ?url ''postgres://'' \<or> HasPrefix ?url ''postgresql://''"
  obtain e' r where run: "sqlOpen h (if ?pg then ''pgx'' else ''sqlite3'') ?url e = (e', r)" by force
  note failed = sqlOpen_books(1) [OF e run] and opened = sqlOpen_books(2) [OF e run]
  show "books (fst (env_sql h prefix e)) \<and> (snd (env_sql h prefix e) = None \<longrightarrow> su_closed (fst (env_sql h prefix e)) = su_closed e)"
  proof (cases r)
    case (Inl er)
    with failed show ?thesis unfolding env_sql_def Let_def run using e by simp
  next
    case (Inr db)
    with opened show ?thesis unfolding env_sql_def Let_def run using e by (simp split: sum.split)
  qed
qed

lemma balanced_env_store [balanced_intros]: "balanced (env_store h prefix)"
proof -
  have memory: "balanced (\<lambda>e. (e\<lparr>su_store := Some NewMemory\<rparr>, None))" by (rule balanced_plain) simp
  show ?thesis
    using memory balanced_WithSQLite balanced_env_sql by (simp add: balanced_def env_store_def Let_def)
qed

lemma balanced_env_cache [balanced_intros]: "balanced (env_cache h prefix)"
  by (auto simp: balanced_def env_cache_def Let_def books_def owned_def)

lemma balanced_WithConfigFromEnv [balanced_intros]: "balanced (WithConfigFromEnv h)"
proof -
  have "books e \<Longrightarrow> books (e\<lparr>su_env := x\<rparr>)" for e x by (simp add: books_def owned_def)
  moreover have "balanced (andS (env_store h p) (env_cache h p))" for p by (intro balanced_intros)
  ultimately show ?thesis
    by (simp add: balanced_def WithConfigFromEnv_def Let_def split: option.split)
qed

lemma balanced_settings: "balanced (apply_settings h ss)"
proof (induction ss)
  case (Cons s ss)
  have "balanced (apply_setting h s)" by (cases s) (simp_all add: balanced_intros)
  then show ?case using balanced_andS [OF _ Cons] by (simp add: balanced_def)
qed (simp add: balanced_def)

lemma balanced_finishNew: "balanced (finishNew h)"
proof -
  have "balanced (\<lambda>e. if su_store e = None then WithSQLite h '':memory:'' e else (e, None))"
    using balanced_WithSQLite by (simp add: balanced_def)
  moreover have "balanced (\<lambda>e. let e = (if su_cache e = None \<and> su_env e = None then e\<lparr>su_cache := c\<rparr> else e)
      in if su_tenant e = [] then (e, er) else (e\<lparr>su_subscribed := su_invalidator e \<noteq> None \<and> su_cache e \<noteq> None\<rparr>, None))" for c er
    by (rule balanced_plain) (simp add: Let_def)
  ultimately show ?thesis unfolding finishNew_def by (rule balanced_andS)
qed

lemma closed_after_shutdown: "mset (su_closed (shutdownBuilder e)) = mset (su_closed e) + owned e"
proof -
  have "su_closed (fold close_handle rs e) = su_closed e @ rs" for rs e
    by (induction rs arbitrary: e) (simp_all add: close_handle_def)
  then show ?thesis
    by (simp add: shutdownBuilder_def closeOwned_def owned_def Let_def close_handle_def split: option.split)
qed

text \<open>
  C19. No construction leaks a database or a Redis client: whatever the options, the environment and the
  host answer, a failed \<^verbatim>\<open>New\<close> has closed everything its options opened, each once; after a
  successful one nothing is closed, and the shutdown of the Enforcer closes all of it, each once.
\<close>

theorem New_closes_all:
  assumes "New h opts n = (e, r)"
  shows "distinct (su_opened e) \<and>
    (case r of
       Some er \<Rightarrow> su_shutdown e \<and> mset (su_closed e) = mset (su_opened e)
     | None \<Rightarrow> su_closed e = [] \<and> mset (su_closed (shutdownBuilder e)) = mset (su_opened e))"
proof -
  obtain e1 r1 where run: "andS (apply_settings h opts) (finishNew h) (blank_builder n) = (e1, r1)" by force
  have "books (blank_builder n)" by (simp add: books_def owned_def blank_builder_def)
  with balanced_andS [OF balanced_settings balanced_finishNew, of h opts h] run
  have e1: "books e1" "r1 = None \<Longrightarrow> su_closed e1 = []"
    by (auto simp: balanced_def blank_builder_def dest!: spec [of _ "blank_builder n"])
  have keep: "su_opened (shutdownBuilder e1) = su_opened e1" "su_shutdown (shutdownBuilder e1)"
  proof -
    have "su_opened (fold close_handle rs e) = su_opened e \<and> su_shutdown (fold close_handle rs e) = su_shutdown e" for rs e
      by (induction rs arbitrary: e) (simp_all add: close_handle_def)
    then show "su_opened (shutdownBuilder e1) = su_opened e1" "su_shutdown (shutdownBuilder e1)"
      by (simp_all add: shutdownBuilder_def closeOwned_def Let_def close_handle_def split: option.split)
  qed
  show ?thesis
    using assms e1 keep closed_after_shutdown [of e1] by (auto simp: New_def run books_def split: option.splits)
qed

text \<open>A host with SQLite and these environment variables.\<close>

definition a_host :: "(string \<times> string) list \<Rightarrow> host" where
  "a_host env = \<lparr>ho_LookupEnv = map_of env, ho_Drivers = [''sqlite3''], ho_sqlOpen = (\<lambda>_ _ _. None), ho_Ping = (\<lambda>_. None),
     ho_version = (\<lambda>_. None), ho_db = (\<lambda>_. fresh_db), ho_ParseDuration = (\<lambda>_. None)\<rparr>"

definition redis_env :: "(string \<times> string) list" where
  "redis_env = [(''RBAC_CACHE'', ''redis''), (''RBAC_REDIS_DB'', ''3'')]"

theorem New_closes_all_witness:
  "su_opened (fst (New (a_host redis_env) [ConfigFromEnv] 0)) = [Database 0, Client ''localhost:6379'' [] 3] \<and>
   snd (New (a_host redis_env) [ConfigFromEnv] 0) = Some ErrTenantRequired \<and>
   mset (su_closed (fst (New (a_host redis_env) [ConfigFromEnv] 0))) =
     {#Database 0, Client ''localhost:6379'' [] 3#}"
proof -
  let ?e = "New (a_host redis_env) [ConfigFromEnv] 0"
  have "su_opened (fst ?e) = [Database 0, Client ''localhost:6379'' [] 3]" and "snd ?e = Some ErrTenantRequired"
    by code_simp+
  with New_closes_all [OF prod.collapse [symmetric, of ?e]] show ?thesis by simp
qed

subsection \<open>Which option decides\<close>

fun sets_store :: "setting \<Rightarrow> bool" where
  "sets_store (Store _) = True"
| "sets_store (SQLStore _ _) = True"
| "sets_store MemoryStore = True"
| "sets_store (SQLite _) = True"
| "sets_store _ = False"

fun sets_cache :: "setting \<Rightarrow> bool" where
  "sets_cache (Cache _) = True"
| "sets_cache _ = False"

text \<open>The database an option opened, with what its driver says of the dialect, and the prefix of its tables.\<close>

definition opened_store :: "host \<Rightarrow> string \<Rightarrow> string \<Rightarrow> string \<Rightarrow> bool \<Rightarrow> store_choice \<Rightarrow> bool" where
  "opened_store h driver dsn tables capped c \<longleftrightarrow>
     (\<exists>n. c = SqlOn (OwnDB n driver dsn)
        \<lparr>sc_dialect = detectDialect (ho_version h (OwnDB n driver dsn)), sc_tablePrefix = tables\<rparr> capped)"

fun store_of :: "host \<Rightarrow> setting \<Rightarrow> store_choice \<Rightarrow> bool" where
  "store_of h (Store s) c \<longleftrightarrow> (\<exists>n. s = Some n \<and> c = GivenStore n)"
| "store_of h (SQLStore db opts) c \<longleftrightarrow> (\<exists>n cfg. db = Some n \<and> c = SqlOn (CallerDB n) cfg False \<and>
     forE (\<lambda>opt s. opt s) opts \<lparr>sc_dialect = detectDialect (ho_version h (CallerDB n)), sc_tablePrefix = []\<rparr> = Inr cfg)"
| "store_of h MemoryStore c \<longleftrightarrow> c = NewMemory"
| "store_of h (SQLite path) c \<longleftrightarrow> opened_store h ''sqlite3'' path [] (isMemoryDSN path) c"
| "store_of h _ c \<longleftrightarrow> False"

text \<open>
  The prefixes with which the environment is read: that of the last \<^verbatim>\<open>WithEnvPrefix\<close> before each
  \<^verbatim>\<open>WithConfigFromEnv\<close>, or the default.
\<close>

definition or_default :: "string \<Rightarrow> string" where
  "or_default p = (if p = [] then ''RBAC_'' else p)"

fun env_prefixes :: "string \<Rightarrow> setting list \<Rightarrow> string list" where
  "env_prefixes p [] = []"
| "env_prefixes p (s # ss) =
     (case s of EnvPrefix q \<Rightarrow> env_prefixes q ss | ConfigFromEnv \<Rightarrow> or_default p # env_prefixes p ss | _ \<Rightarrow> env_prefixes p ss)"

fun prefix_after :: "string \<Rightarrow> setting list \<Rightarrow> string" where
  "prefix_after p [] = p"
| "prefix_after p (s # ss) = (case s of EnvPrefix q \<Rightarrow> prefix_after q ss | _ \<Rightarrow> prefix_after p ss)"

lemma prefix_snoc:
  "prefix_after p (ss @ [s]) = (case s of EnvPrefix q \<Rightarrow> q | _ \<Rightarrow> prefix_after p ss)"
  "env_prefixes p (ss @ [s]) = env_prefixes p ss @ (if s = ConfigFromEnv then [or_default (prefix_after p ss)] else [])"
  by (induction ss arbitrary: p) (auto split: setting.split)

lemma env_prefixes_Nil: "env_prefixes p ss = [] \<longleftrightarrow> ConfigFromEnv \<notin> set ss"
  by (induction ss arbitrary: p) (auto split: setting.split)

text \<open>The store that the environment asks for.\<close>

definition env_store_of :: "host \<Rightarrow> string \<Rightarrow> store_choice \<Rightarrow> bool" where
  "env_store_of h prefix c \<longleftrightarrow>
     (let kind = envString h (prefix @ ''STORE'') ''sqlite'';
          path = envString h (prefix @ ''SQLITE_PATH'') '':memory:'';
          url = Getenv h (prefix @ ''DATABASE_URL'');
          postgres = HasPrefix url ''postgres://'' \<or> HasPrefix url ''postgresql://'';
          tables = envString h (prefix @ ''SQL_TABLE_PREFIX'') []
      in kind = ''sqlite'' \<and> opened_store h ''sqlite3'' path [] (isMemoryDSN path) c \<or>
         kind = ''sql'' \<and> url \<noteq> [] \<and>
           (if postgres then ''pgx'' \<in> set (ho_Drivers h) \<and> opened_store h ''pgx'' url tables False c
            else opened_store h ''sqlite3'' url tables (isMemoryDSN url) c) \<or>
         kind = ''memory'' \<and> c = NewMemory)"

text \<open>The cache that the environment asks for, with the Redis client it opens.\<close>

definition cache_of :: "host \<Rightarrow> string \<Rightarrow> (cache_choice \<times> handle option) option" where
  "cache_of h prefix =
     (let kind = envString h (prefix @ ''CACHE'') ''memory'';
          ttl = envDuration h (prefix @ ''CACHE_TTL'') five_minutes
      in if kind = ''memory'' then Some (LruCache (NewMemoryLRU (envInt h (prefix @ ''CACHE_CAPACITY'') 1024) ttl), None)
         else if kind = ''redis'' then
           Some (RedisCache (NewRedisLRU False (prefix @ ''cache:'') ttl),
             Some (Client (envString h (prefix @ ''REDIS_ADDR'') ''localhost:6379'')
               (Getenv h (prefix @ ''REDIS_PASSWORD'')) (envInt h (prefix @ ''REDIS_DB'') 0)))
         else None)"

text \<open>The first environment that asks for a cache; \<open>CACHE=none\<close> asks for none.\<close>

fun env_cache_of :: "host \<Rightarrow> string list \<Rightarrow> cache_choice option \<times> handle option" where
  "env_cache_of h [] = (None, None)"
| "env_cache_of h (p # ps) = (case cache_of h p of Some (c, client) \<Rightarrow> (Some c, client) | None \<Rightarrow> env_cache_of h ps)"

lemma env_cache_of_snoc:
  "env_cache_of h (ps @ [p]) = (if fst (env_cache_of h ps) = None then env_cache_of h [p] else env_cache_of h ps)"
  by (induction ps) (auto split: option.split)

lemma env_cache_of_None: "fst (env_cache_of h ps) = None \<Longrightarrow> snd (env_cache_of h ps) = None"
  by (induction ps) (auto split: option.splits)

lemma openStore_store:
  "openStore h db capped opts = Inr c \<Longrightarrow> \<exists>cfg. c = SqlOn db cfg capped \<and>
     forE (\<lambda>opt s. opt s) opts \<lparr>sc_dialect = detectDialect (ho_version h db), sc_tablePrefix = []\<rparr> = Inr cfg"
  by (auto simp: openStore_def NewSQLStore_def failQ_def bindQ_def returnQ_def split: sum.splits if_splits prod.splits)

text \<open>A step that leaves the cache, the environment and the tenant alone.\<close>

definition same_fields :: "builder \<Rightarrow> builder \<Rightarrow> bool" where
  "same_fields e e' \<longleftrightarrow> su_cache e' = su_cache e \<and> su_env e' = su_env e \<and> su_tenant e' = su_tenant e \<and>
     su_ownedClient e' = su_ownedClient e"

lemma sqlOpen_frame: "sqlOpen h driver dsn e = (e', r) \<Longrightarrow> same_fields e e'"
  by (auto simp: sqlOpen_def Let_def same_fields_def split: option.splits)

lemma WithSQLite_frame:
  "WithSQLite h path e = (e', None) \<Longrightarrow>
     same_fields e e' \<and> (\<exists>c. su_store e' = Some c \<and> opened_store h ''sqlite3'' path [] (isMemoryDSN path) c)"
  by (auto simp: WithSQLite_def newSQLiteStore_def same_fields_def opened_store_def dest!: sqlOpen_frame openStore_store
      split: prod.splits sum.splits option.splits)

lemma env_sql_frame:
  assumes "env_sql h prefix e = (e', None)"
  shows "same_fields e e'"
    and "envString h (prefix @ ''STORE'') ''sqlite'' = ''sql'' \<Longrightarrow> \<exists>c. su_store e' = Some c \<and> env_store_of h prefix c"
  using assms
  by (auto simp: env_sql_def env_store_of_def opened_store_def driverRegistered_def WithTablePrefix_def Let_def same_fields_def
      dest!: sqlOpen_frame openStore_store split: prod.splits sum.splits if_splits)

lemma env_store_frame:
  assumes "env_store h prefix e = (e', None)"
  shows "same_fields e e' \<and> (if su_store e = None then \<exists>c. su_store e' = Some c \<and> env_store_of h prefix c
    else su_store e' = su_store e)"
proof (cases "su_store e = None \<and> envString h (prefix @ ''STORE'') ''sqlite'' = ''sql''")
  case True
  with assms env_sql_frame show ?thesis by (auto simp: env_store_def)
next
  case False
  with assms show ?thesis
    by (auto simp: env_store_def env_store_of_def Let_def same_fields_def dest!: WithSQLite_frame split: if_splits)
qed

lemma env_cache_frame:
  "env_cache h prefix e = (e', None) \<Longrightarrow>
     (if su_cache e = None
      then su_cache e' = fst (env_cache_of h [prefix]) \<and>
        (su_ownedClient e = None \<longrightarrow> su_ownedClient e' = snd (env_cache_of h [prefix]))
      else su_cache e' = su_cache e \<and> su_ownedClient e' = su_ownedClient e) \<and>
     su_env e' = su_env e \<and> su_tenant e' = su_tenant e \<and> su_store e' = su_store e"
  by (auto simp: env_cache_def cache_of_def Let_def split: if_splits)

lemma WithConfigFromEnv_frame:
  assumes "WithConfigFromEnv h e = (e', None)"
  shows "(if su_cache e = None
      then su_cache e' = fst (env_cache_of h [envPrefix e]) \<and>
        (su_ownedClient e = None \<longrightarrow> su_ownedClient e' = snd (env_cache_of h [envPrefix e]))
      else su_cache e' = su_cache e \<and> su_ownedClient e' = su_ownedClient e) \<and>
    su_env e' = Some (case su_env e of None \<Rightarrow> ''RBAC_'' | Some p \<Rightarrow> p) \<and> su_tenant e' = su_tenant e \<and>
    (if su_store e = None then \<exists>c. su_store e' = Some c \<and> env_store_of h (envPrefix e) c else su_store e' = su_store e)"
proof -
  define e0 where "e0 = (case su_env e of None \<Rightarrow> e\<lparr>su_env := Some (envPrefix e)\<rparr> | Some _ \<Rightarrow> e)"
  have e0: "su_cache e0 = su_cache e" "su_env e0 = Some (case su_env e of None \<Rightarrow> ''RBAC_'' | Some p \<Rightarrow> p)"
    "su_tenant e0 = su_tenant e" "su_store e0 = su_store e" "su_ownedClient e0 = su_ownedClient e"
    by (simp_all add: e0_def envPrefix_def split: option.split)
  obtain e1 where e1: "env_store h (envPrefix e) e0 = (e1, None)" and e': "env_cache h (envPrefix e) e1 = (e', None)"
    using assms by (auto simp: WithConfigFromEnv_def Let_def e0_def andS_def split: prod.splits option.splits)
  show ?thesis using env_store_frame [OF e1] env_cache_frame [OF e'] unfolding same_fields_def e0 by simp
qed

text \<open>What one option does to each field.\<close>

lemmas plain_options = WithStore_def WithMemoryStore_def WithSQLStore_def WithLRU_def WithRoleManagementPermission_def
  WithPolicyVersionStore_def SetTenant_def WithLogger_def WithMetrics_def WithAuditSink_def WithCacheInvalidator_def
  WithWildcardPermissions_def WithPolicyRules_def WithEnvPrefix_def needs_def Let_def

lemma setting_cache:
  assumes "apply_setting h s e = (e', None)"
  shows "case s of
      Cache c \<Rightarrow> c \<noteq> None \<and> su_cache e' = map_option GivenCache c
    | ConfigFromEnv \<Rightarrow>
        (if su_cache e = None
         then su_cache e' = fst (env_cache_of h [envPrefix e]) \<and>
           (su_ownedClient e = None \<longrightarrow> su_ownedClient e' = snd (env_cache_of h [envPrefix e]))
         else su_cache e' = su_cache e \<and> su_ownedClient e' = su_ownedClient e)
    | _ \<Rightarrow> su_cache e' = su_cache e \<and> su_ownedClient e' = su_ownedClient e"
proof (cases "s = ConfigFromEnv")
  case True
  with assms WithConfigFromEnv_frame show ?thesis by simp
next
  case False
  with assms show ?thesis
    by (cases s; auto simp: plain_options same_fields_def dest: WithSQLite_frame split: option.splits sum.splits if_splits)
qed

lemma setting_env:
  assumes "apply_setting h s e = (e', None)"
  shows "su_env e' = (case s of EnvPrefix p \<Rightarrow> Some p
    | ConfigFromEnv \<Rightarrow> Some (case su_env e of None \<Rightarrow> ''RBAC_'' | Some p \<Rightarrow> p) | _ \<Rightarrow> su_env e)"
  using assms by (cases s; auto simp: plain_options same_fields_def dest: WithSQLite_frame WithConfigFromEnv_frame
      split: option.splits sum.splits if_splits)

lemma setting_tenant:
  assumes "apply_setting h s e = (e', None)"
  shows "su_tenant e' = su_tenant e \<or>
    (\<exists>t. s = Tenant t \<and> su_tenant e' = TrimSpace t \<and> \<not> Contains (su_tenant e') tenantSep)"
  using assms by (cases s; auto simp: plain_options same_fields_def dest: WithSQLite_frame WithConfigFromEnv_frame
      split: option.splits sum.splits if_splits)

lemma setting_store:
  assumes "apply_setting h s e = (e', None)"
  shows "if sets_store s then \<exists>c. su_store e' = Some c \<and> store_of h s c
    else if s = ConfigFromEnv \<and> su_store e = None then \<exists>c. su_store e' = Some c \<and> env_store_of h (envPrefix e) c
    else su_store e' = su_store e"
proof (cases "s = ConfigFromEnv")
  case True
  with assms WithConfigFromEnv_frame show ?thesis by simp
next
  case False
  with assms show ?thesis
    by (cases s; auto simp: plain_options dest: WithSQLite_frame openStore_store split: option.splits sum.splits if_splits)
qed

text \<open>After the options: each field as the last option that sets it says.\<close>

definition store_configured :: "host \<Rightarrow> setting list \<Rightarrow> builder \<Rightarrow> bool" where
  "store_configured h ss e \<longleftrightarrow>
     (case find sets_store (rev ss) of
        Some s \<Rightarrow> \<exists>c. su_store e = Some c \<and> store_of h s c
      | None \<Rightarrow> (case env_prefixes [] ss of
          [] \<Rightarrow> su_store e = None
        | p # _ \<Rightarrow> \<exists>c. su_store e = Some c \<and> env_store_of h p c))"

definition cache_configured :: "host \<Rightarrow> setting list \<Rightarrow> builder \<Rightarrow> bool" where
  "cache_configured h ss e \<longleftrightarrow>
     (case find sets_cache (rev ss) of
        Some s \<Rightarrow> \<exists>n. s = Cache (Some n) \<and> su_cache e = Some (GivenCache n)
      | None \<Rightarrow> (su_cache e, su_ownedClient e) = env_cache_of h (env_prefixes [] ss))"

definition env_configured :: "setting list \<Rightarrow> builder \<Rightarrow> bool" where
  "env_configured ss e \<longleftrightarrow> (su_env e = None \<longleftrightarrow> ConfigFromEnv \<notin> set ss \<and> (\<forall>p. EnvPrefix p \<notin> set ss)) \<and>
     envPrefix e = or_default (prefix_after [] ss)"

definition tenant_configured :: "setting list \<Rightarrow> builder \<Rightarrow> bool" where
  "tenant_configured ss e \<longleftrightarrow> su_tenant e = [] \<or>
     \<not> Contains (su_tenant e) tenantSep \<and> (\<exists>t. Tenant t \<in> set ss \<and> su_tenant e = TrimSpace t)"

definition configured :: "host \<Rightarrow> setting list \<Rightarrow> builder \<Rightarrow> bool" where
  "configured h ss e \<longleftrightarrow> store_configured h ss e \<and> cache_configured h ss e \<and> env_configured ss e \<and> tenant_configured ss e"

lemma apply_settings_snoc: "apply_settings h (ss @ [s]) = andS (apply_settings h ss) (apply_setting h s)"
proof (rule ext)
  show "apply_settings h (ss @ [s]) e = andS (apply_settings h ss) (apply_setting h s) e" for e
    by (induction ss arbitrary: e) (auto simp: andS_def split: prod.split option.split)
qed

lemma store_after:
  assumes "store_configured h ss e" and "env_configured ss e" and "apply_setting h s e = (e', None)"
  shows "store_configured h (ss @ [s]) e'"
proof (cases "s = ConfigFromEnv")
  case True
  with setting_store [OF assms(3)] assms(1,2) show ?thesis
    by (auto simp: store_configured_def env_configured_def prefix_snoc split: option.splits list.splits)
next
  case False
  with setting_store [OF assms(3)] assms(1) show ?thesis
    by (auto simp: store_configured_def prefix_snoc split: if_splits option.splits list.splits)
qed

lemma cache_after:
  assumes "cache_configured h ss e" and "env_configured ss e" and "apply_setting h s e = (e', None)"
  shows "cache_configured h (ss @ [s]) e'"
proof (cases "sets_cache s")
  case True
  then show ?thesis
    using setting_cache [OF assms(3)] by (cases s) (auto simp: cache_configured_def)
next
  case False
  show ?thesis
  proof (cases "s = ConfigFromEnv")
    case True
    note new = setting_cache [OF assms(3), unfolded True setting.case]
    show ?thesis
    proof (cases "find sets_cache (rev ss)")
      case None
      with assms(1) have old: "su_cache e = fst (env_cache_of h (env_prefixes [] ss))"
          "su_ownedClient e = snd (env_cache_of h (env_prefixes [] ss))"
        by (simp_all add: cache_configured_def prod_eq_iff)
      with new env_cache_of_None [of h "env_prefixes [] ss"] assms(2) None True show ?thesis
        by (simp add: cache_configured_def env_configured_def prefix_snoc env_cache_of_snoc prod_eq_iff del: env_cache_of.simps split: if_splits)
    next
      case (Some c)
      with new assms(1) True show ?thesis by (auto simp: cache_configured_def split: if_splits)
    qed
  next
    case other: False
    with False setting_cache [OF assms(3)] have "su_cache e' = su_cache e" "su_ownedClient e' = su_ownedClient e"
      by (cases s; simp)+
    with False other assms(1) show ?thesis by (auto simp: cache_configured_def prefix_snoc split: option.splits if_splits)
  qed
qed

lemma env_after:
  assumes "env_configured ss e" and "apply_setting h s e = (e', None)"
  shows "env_configured (ss @ [s]) e'"
  using assms(1) setting_env [OF assms(2)]
  by (cases s) (auto simp: env_configured_def prefix_snoc envPrefix_def or_default_def split: option.splits if_splits)

lemma tenant_after: "tenant_configured ss e \<Longrightarrow> apply_setting h s e = (e', None) \<Longrightarrow> tenant_configured (ss @ [s]) e'"
  by (drule setting_tenant) (auto simp: tenant_configured_def)

lemma configured_step: "configured h ss e \<Longrightarrow> apply_setting h s e = (e', None) \<Longrightarrow> configured h (ss @ [s]) e'"
  unfolding configured_def using store_after cache_after env_after tenant_after by blast

lemma configured_settings: "apply_settings h ss (blank_builder n) = (e, None) \<Longrightarrow> configured h ss e"
proof (induction ss arbitrary: e rule: rev_induct)
  case Nil
  then show ?case
    by (auto simp: configured_def store_configured_def cache_configured_def env_configured_def tenant_configured_def
      blank_builder_def envPrefix_def or_default_def)
next
  case (snoc s ss)
  then obtain e1 where "apply_settings h ss (blank_builder n) = (e1, None)" "apply_setting h s e1 = (e, None)"
    unfolding apply_settings_snoc by (auto simp: andS_def split: prod.splits option.splits)
  with snoc.IH configured_step show ?case by blast
qed

text \<open>
  C20. Explicit options win over the environment, and the environment over the defaults: after a
  successful \<^verbatim>\<open>New\<close> the store and the cache are those of the last option that sets them, wherever
  \<^verbatim>\<open>WithConfigFromEnv\<close> stands. Otherwise the environment decides, read with the prefix that the last
  \<^verbatim>\<open>WithEnvPrefix\<close> before \<^verbatim>\<open>WithConfigFromEnv\<close> gave: the store is the one that \<^verbatim>\<open>STORE\<close> names, on the
  database of \<^verbatim>\<open>SQLITE_PATH\<close> or \<^verbatim>\<open>DATABASE_URL\<close>, with its driver, its table prefix and a single
  connection exactly for SQLite in memory; the cache and its Redis client are those of \<^verbatim>\<open>CACHE\<close> and the
  variables beside it. Without it the store is SQLite in memory, on a single connection, and the cache an
  LRU of 1024 entries and five minutes. A prefix for the environment without \<^verbatim>\<open>WithConfigFromEnv\<close> leaves
  the Enforcer without a cache. The tenant is one of the given ones, trimmed, not empty and without the
  separator.
\<close>

theorem New_precedence:
  assumes "New h opts n = (e, None)"
  shows "(\<exists>c. su_store e = Some c \<and>
      (case find sets_store (rev opts) of
         Some s \<Rightarrow> store_of h s c
       | None \<Rightarrow> (case env_prefixes [] opts of
           prefix # _ \<Rightarrow> env_store_of h prefix c
         | [] \<Rightarrow> opened_store h ''sqlite3'' '':memory:'' [] True c))) \<and>
    (case find sets_cache (rev opts) of
        Some s \<Rightarrow> \<exists>n. s = Cache (Some n) \<and> su_cache e = Some (GivenCache n)
      | None \<Rightarrow> (if ConfigFromEnv \<in> set opts
          then (su_cache e, su_ownedClient e) = env_cache_of h (env_prefixes [] opts)
          else su_cache e = (if \<exists>p. EnvPrefix p \<in> set opts then None else Some (LruCache (NewMemoryLRU 1024 five_minutes))))) \<and>
    su_tenant e \<noteq> [] \<and> \<not> Contains (su_tenant e) tenantSep \<and> (\<exists>t. Tenant t \<in> set opts \<and> su_tenant e = TrimSpace t)"
proof -
  obtain e1 where e1: "apply_settings h opts (blank_builder n) = (e1, None)" and "finishNew h e1 = (e, None)"
    using assms by (auto simp: New_def andS_def split: prod.splits option.splits)
  then obtain e2 where store: "(if su_store e1 = None then WithSQLite h '':memory:'' e1 else (e1, None)) = (e2, None)"
    and e: "su_store e = su_store e2" "su_tenant e = su_tenant e2" "su_tenant e2 \<noteq> []" "su_ownedClient e = su_ownedClient e2"
      "su_cache e = (if su_cache e2 = None \<and> su_env e2 = None then Some (LruCache (NewMemoryLRU 1024 five_minutes)) else su_cache e2)"
    by (auto simp: finishNew_def andS_def Let_def split: prod.splits option.splits if_splits)
  have e2: "same_fields e1 e2 \<and> (if su_store e1 = None
      then \<exists>c. su_store e2 = Some c \<and> opened_store h ''sqlite3'' '':memory:'' [] True c else su_store e2 = su_store e1)"
  proof (cases "su_store e1 = None")
    case True
    moreover have "isMemoryDSN '':memory:''" by code_simp
    ultimately show ?thesis using store WithSQLite_frame [of h "'':memory:''" e1 e2] by auto
  next
    case False
    with store have "e2 = e1" by (simp split: if_splits)
    with False show ?thesis by (simp add: same_fields_def)
  qed
  from configured_settings [OF e1] have conf: "store_configured h opts e1" "cache_configured h opts e1"
      "env_configured opts e1" "tenant_configured opts e1"
    by (simp_all add: configured_def)
  have store: "\<exists>c. su_store e = Some c \<and>
      (case find sets_store (rev opts) of
         Some s \<Rightarrow> store_of h s c
       | None \<Rightarrow> (case env_prefixes [] opts of
           prefix # _ \<Rightarrow> env_store_of h prefix c
         | [] \<Rightarrow> opened_store h ''sqlite3'' '':memory:'' [] True c))"
    using conf(1) e2 e(1) by (auto simp: store_configured_def split: option.splits list.splits)
  have cache: "case find sets_cache (rev opts) of
        Some s \<Rightarrow> \<exists>n. s = Cache (Some n) \<and> su_cache e = Some (GivenCache n)
      | None \<Rightarrow> (if ConfigFromEnv \<in> set opts
          then (su_cache e, su_ownedClient e) = env_cache_of h (env_prefixes [] opts)
          else su_cache e = (if \<exists>p. EnvPrefix p \<in> set opts then None else Some (LruCache (NewMemoryLRU 1024 five_minutes))))"
    using conf(2,3) e2 e(4,5) env_prefixes_Nil [of "[]" opts]
    by (auto simp: cache_configured_def env_configured_def same_fields_def split: option.splits if_splits)
  show ?thesis using store cache conf(4) e2 e(2,3) by (simp add: tenant_configured_def same_fields_def)
qed

text \<open>
  The environment with the prefix \<^verbatim>\<open>APP_\<close> names a SQLite file and no cache, that with the default prefix
  Redis; the second is not read.
\<close>

definition app_env :: "(string \<times> string) list" where
  "app_env = [(''APP_SQLITE_PATH'', ''rbac.db''), (''APP_CACHE'', ''none''), (''RBAC_CACHE'', ''redis'')]"

theorem New_precedence_witness:
  "su_store (fst (New (a_host redis_env) [EnvPrefix ''APP_'', Tenant '' acme '', MemoryStore] 0)) = Some NewMemory \<and>
   su_cache (fst (New (a_host redis_env) [EnvPrefix ''APP_'', Tenant '' acme '', MemoryStore] 0)) = None \<and>
   su_tenant (fst (New (a_host redis_env) [EnvPrefix ''APP_'', Tenant '' acme '', MemoryStore] 0)) = ''acme'' \<and>
   (\<exists>n. su_store (fst (New (a_host app_env) [EnvPrefix ''APP_'', Tenant ''acme'', ConfigFromEnv] 0)) =
      Some (SqlOn (OwnDB n ''sqlite3'' ''rbac.db'') \<lparr>sc_dialect = dialect.SQLite, sc_tablePrefix = []\<rparr> False)) \<and>
   su_cache (fst (New (a_host app_env) [EnvPrefix ''APP_'', Tenant ''acme'', ConfigFromEnv] 0)) = None"
proof -
  let ?opts = "[EnvPrefix ''APP_'', Tenant '' acme '', MemoryStore]"
    and ?env = "[EnvPrefix ''APP_'', Tenant ''acme'', ConfigFromEnv]"
  have "snd (New (a_host redis_env) ?opts 0) = None" by code_simp
  then have "New (a_host redis_env) ?opts 0 = (fst (New (a_host redis_env) ?opts 0), None)" by (simp add: prod_eq_iff)
  from New_precedence [OF this] have "su_store (fst (New (a_host redis_env) ?opts 0)) = Some NewMemory"
    and "su_cache (fst (New (a_host redis_env) ?opts 0)) = None"
    and "su_tenant (fst (New (a_host redis_env) ?opts 0)) = TrimSpace '' acme ''" by auto
  moreover have "TrimSpace '' acme '' = ''acme''" by code_simp
  moreover have "snd (New (a_host app_env) ?env 0) = None" by code_simp
  then have "New (a_host app_env) ?env 0 = (fst (New (a_host app_env) ?env 0), None)" by (simp add: prod_eq_iff)
  note env = New_precedence [OF this]
  have reads: "env_prefixes [] ?env = [''APP_'']" "env_cache_of (a_host app_env) [''APP_''] = (None, None)"
    "envString (a_host app_env) (''APP_'' @ ''STORE'') ''sqlite'' = ''sqlite''"
    "envString (a_host app_env) (''APP_'' @ ''SQLITE_PATH'') '':memory:'' = ''rbac.db''" "\<not> isMemoryDSN ''rbac.db''"
    by code_simp+
  have "env_store_of (a_host app_env) ''APP_'' c \<Longrightarrow> \<exists>n. c =
      SqlOn (OwnDB n ''sqlite3'' ''rbac.db'') \<lparr>sc_dialect = dialect.SQLite, sc_tablePrefix = []\<rparr> False" for c
    unfolding env_store_of_def Let_def reads(3,4)
    by (auto simp: opened_store_def reads(5) a_host_def detectDialect_def)
  with env have "\<exists>n. su_store (fst (New (a_host app_env) ?env 0)) =
      Some (SqlOn (OwnDB n ''sqlite3'' ''rbac.db'') \<lparr>sc_dialect = dialect.SQLite, sc_tablePrefix = []\<rparr> False)"
    and "su_cache (fst (New (a_host app_env) ?env 0)) = None"
    using reads(1,2) by auto
  ultimately show ?thesis by simp
qed

end
