(* ===== verification/AuditFile.thy ===== *)
theory AuditFile
  imports Scenario "HOL-Library.Sublist"
begin

text \<open>
  The audit file of \<^verbatim>\<open>observability.go\<close>: \<^verbatim>\<open>FileAuditSink\<close>, which appends one JSON line per event and
  syncs each. The file is what the operating system answers: how much of a write arrived and whether
  a sync succeeded are arbitrary. What a sync has covered survives a crash.
\<close>

subsection \<open>The file\<close>

text \<open>
  The content in pieces: a whole line, the first bytes of one, or bytes that were there before. A JSON
  text contains no line break, so a line ends where its piece does.
\<close>

datatype piece = Line audit_event | Fragment audit_event nat | Foreign string

definition ends_line :: "piece \<Rightarrow> bool" where
  "ends_line p = (case p of Line _ \<Rightarrow> True | Fragment _ _ \<Rightarrow> False | Foreign s \<Rightarrow> s \<noteq> [] \<and> last s = CHR 0x0A)"

text \<open>
  \<open>af_write k\<close> is the outcome of the \<open>k\<close>th write: how many bytes arrived, \<^term>\<open>None\<close> for all of them, and
  the error; \<open>af_sync k\<close> that of a sync.
\<close>

record audit_file =
  af_open :: bool
  af_failed :: "err option"
  af_content :: "piece list"
  af_durable :: "piece list"
  af_write :: "nat \<Rightarrow> nat option \<times> err option"
  af_sync :: "nat \<Rightarrow> err option"
  af_clock :: nat

definition ErrClosed :: err where "ErrClosed = ErrBackend ''file already closed''"
definition ErrShortWrite :: err where "ErrShortWrite = ErrBackend ''short write''"

definition Sync :: "audit_file \<Rightarrow> audit_file \<times> err option" where
  "Sync f =
     (let e = af_sync f (af_clock f); f = f\<lparr>af_clock := af_clock f + 1\<rparr>
      in case e of None \<Rightarrow> (f\<lparr>af_durable := af_content f\<rparr>, None) | Some e \<Rightarrow> (f, Some e))"

definition Write :: "audit_event \<Rightarrow> audit_file \<Rightarrow> audit_file \<times> nat option \<times> err option" where
  "Write event f =
     (let (n, e) = af_write f (af_clock f);
          p = (case n of None \<Rightarrow> [Line event] | Some k \<Rightarrow> if k = 0 then [] else [Fragment event k])
      in (f\<lparr>af_clock := af_clock f + 1, af_content := af_content f @ p\<rparr>, n, e))"

subsection \<open>Emit and Close\<close>

text \<open>\<^verbatim>\<open>json.Marshal\<close> refuses a time whose year is not within 0 and 9999; here in nanoseconds since 1970.\<close>

definition Marshal_event :: "audit_event \<Rightarrow> err option" where
  "Marshal_event event =
     (if - 62167219200 * 1000000000 \<le> ae_Time event \<and> ae_Time event < 253402300800 * 1000000000 then None
      else Some (ErrBackend ''Time.MarshalJSON: year outside of range [0,9999]''))"

definition file_Emit :: "ctx \<Rightarrow> audit_event \<Rightarrow> audit_file mutation" where
  "file_Emit cx event f =
     (case cx_Err cx of Some e \<Rightarrow> (f, Some e) | None \<Rightarrow>
     (case Marshal_event event of Some e \<Rightarrow> (f, Some e) | None \<Rightarrow>
      if \<not> af_open f then (f, Some ErrClosed)
      else case af_failed f of Some e \<Rightarrow> (f, Some e) | None \<Rightarrow>
        (case Write event f of
           (f, _, Some e) \<Rightarrow> (f\<lparr>af_failed := Some e\<rparr>, Some e)
         | (f, Some _, None) \<Rightarrow> (f\<lparr>af_failed := Some ErrShortWrite\<rparr>, Some ErrShortWrite)
         | (f, None, None) \<Rightarrow>
             let (f, e) = Sync f in (f\<lparr>af_failed := e\<rparr>, e))))"

definition file_Close :: "err option \<Rightarrow> audit_file mutation" where
  "file_Close close f = (if \<not> af_open f then (f, None) else (f\<lparr>af_open := False\<rparr>, close))"

subsection \<open>Opening\<close>

text \<open>What the operating system and \<^verbatim>\<open>path/filepath\<close> answer.\<close>

record file_os =
  fo_GOOS :: string
  fo_OpenFile :: "string \<Rightarrow> err + piece list"
  fo_Stat :: "err option"
  fo_IsRegular :: bool
  fo_ReadAt :: "err option"
  fo_SyncFile :: "err option"
  fo_EvalSymlinks :: "string \<Rightarrow> err + string"
  fo_Dir :: "string \<Rightarrow> string"
  fo_Abs :: "string \<Rightarrow> err + string"
  fo_OpenDir :: "string \<Rightarrow> err option"
  fo_SyncDir :: "string \<Rightarrow> err option"
  fo_CloseDir :: "string \<Rightarrow> err option"

definition unix :: "string set" where
  "unix = {''aix'', ''android'', ''darwin'', ''dragonfly'', ''freebsd'', ''illumos'', ''ios'', ''linux'',
     ''netbsd'', ''openbsd'', ''solaris''}"

text \<open>The loop over the parents keeps the absolute names that it has synced.\<close>

fun syncParents :: "file_os \<Rightarrow> string list \<Rightarrow> string fset \<Rightarrow> err + string fset" where
  "syncParents os [] seen = Inr seen"
| "syncParents os (p # ps) seen =
     (case fo_Abs os p of
        Inl e \<Rightarrow> Inl e
      | Inr absolute \<Rightarrow>
          if absolute |\<in>| seen then syncParents os ps seen
          else case fo_OpenDir os p of
              Some e \<Rightarrow> Inl e
            | None \<Rightarrow>
                (case (fo_SyncDir os p, fo_CloseDir os p) of
                   (None, None) \<Rightarrow> syncParents os ps (finsert absolute seen)
                 | (None, Some e) \<Rightarrow> Inl e
                 | (Some e, None) \<Rightarrow> Inl e
                 | (Some e, Some e') \<Rightarrow> Inl (errors_Join (Some e) e')))"

definition syncAuditParents :: "file_os \<Rightarrow> string \<Rightarrow> err option" where
  "syncAuditParents os path =
     (if fo_GOOS os \<notin> unix then None
      else case fo_EvalSymlinks os path of
          Inl e \<Rightarrow> Some e
        | Inr resolved \<Rightarrow> error_of (syncParents os [fo_Dir os path, fo_Dir os resolved] {||}))"

definition newFileAuditSink ::
  "file_os \<Rightarrow> (nat \<Rightarrow> nat option \<times> err option) \<Rightarrow> (nat \<Rightarrow> err option) \<Rightarrow> string \<Rightarrow> err + audit_file" where
  "newFileAuditSink os wr sy path =
     (case fo_OpenFile os path of
        Inl e \<Rightarrow> Inl e
      | Inr content \<Rightarrow>
          let err = fo_Stat os;
              err = (if err = None \<and> \<not> fo_IsRegular os
                     then Some (ErrBackend ''rbacgo: audit sink must be a regular file'') else err);
              err = (if err = None \<and> content \<noteq> []
                     then (case fo_ReadAt os of
                         Some e \<Rightarrow> Some e
                       | None \<Rightarrow> if \<not> ends_line (last content)
                           then Some (ErrBackend ''rbacgo: incomplete audit file tail; repair explicitly before appending'')
                           else None)
                     else err);
              err = (if err = None then fo_SyncFile os else err);
              err = (if err = None then syncAuditParents os path else err)
          in case err of
              Some e \<Rightarrow> Inl e
            | None \<Rightarrow> Inr \<lparr>af_open = True, af_failed = None, af_content = content, af_durable = content,
                af_write = wr, af_sync = sy, af_clock = 0\<rparr>)"

subsection \<open>What the file holds\<close>

text \<open>A sequence of events, with the error of each.\<close>

fun emit_all :: "(ctx \<times> audit_event) list \<Rightarrow> audit_file \<Rightarrow> audit_file \<times> err option list" where
  "emit_all [] f = (f, [])"
| "emit_all ((cx, ev) # evs) f =
     (let (f, e) = file_Emit cx ev f; (f, es) = emit_all evs f in (f, e # es))"

fun acknowledged :: "(ctx \<times> audit_event) list \<Rightarrow> err option list \<Rightarrow> audit_event list" where
  "acknowledged ((cx, ev) # evs) (e # es) = (if e = None then [ev] else []) @ acknowledged evs es"
| "acknowledged _ _ = []"

definition intact :: "piece list \<Rightarrow> audit_file \<Rightarrow> bool" where
  "intact before f \<longleftrightarrow>
     af_durable f = before \<and>
     (case af_failed f of None \<Rightarrow> af_content f = before
      | Some _ \<Rightarrow> af_content f = before \<or> (\<exists>p. af_content f = before @ [p]))"

lemma file_Emit_intact:
  assumes "intact before f"
  shows "intact (before @ (if snd (file_Emit cx ev f) = None then [Line ev] else [])) (fst (file_Emit cx ev f))"
    and "af_failed f \<noteq> None \<Longrightarrow> snd (file_Emit cx ev f) \<noteq> None"
  using assms
  by (auto simp: file_Emit_def Write_def Sync_def Let_def intact_def split: option.splits prod.splits)

lemma emit_all_intact:
  assumes "intact before f"
  shows "intact (before @ map Line (acknowledged evs (snd (emit_all evs f)))) (fst (emit_all evs f))"
  using assms
proof (induction evs arbitrary: before f)
  case (Cons cxev evs)
  obtain cx ev where cxev: "cxev = (cx, ev)" by force
  obtain f1 e where one: "file_Emit cx ev f = (f1, e)" by force
  obtain f2 es where two: "emit_all evs f1 = (f2, es)" by force
  have "intact (before @ (if e = None then [Line ev] else [])) f1"
    using file_Emit_intact(1) [OF Cons.prems, of cx ev] one by simp
  from Cons.IH [OF this] show ?case by (auto simp: cxev one two)
qed simp

text \<open>
  C22. The audit file is an honest log, whatever the disk does: what is safe on disk is what the file held
  when it was opened and then, in order, exactly the events that were acknowledged; beyond it there is at
  most one unacknowledged piece, and that only after a failure, which every later call reports. A file
  whose last line is not complete is not opened.
\<close>

theorem audit_file_honest:
  assumes "newFileAuditSink os wr sy path = Inr f0" and "emit_all evs f0 = (f, es)"
  shows "af_durable f = af_content f0 @ map Line (acknowledged evs es) \<and>
    (\<exists>rest. af_content f = af_durable f @ rest \<and> length rest \<le> 1 \<and> (rest \<noteq> [] \<longrightarrow> af_failed f \<noteq> None)) \<and>
    (af_failed f \<noteq> None \<longrightarrow> (\<forall>cx ev. snd (file_Emit cx ev f) \<noteq> None)) \<and>
    (af_content f0 \<noteq> [] \<longrightarrow> ends_line (last (af_content f0)))"
proof -
  have f0: "intact (af_content f0) f0" and tail: "af_content f0 \<noteq> [] \<longrightarrow> ends_line (last (af_content f0))"
    using assms(1) by (auto simp: newFileAuditSink_def Let_def intact_def split: sum.splits option.splits if_splits)
  have f: "intact (af_content f0 @ map Line (acknowledged evs es)) f"
    using emit_all_intact [OF f0, of evs] assms(2) by simp
  then have "\<exists>rest. af_content f = af_durable f @ rest \<and> length rest \<le> 1 \<and> (rest \<noteq> [] \<longrightarrow> af_failed f \<noteq> None)"
    by (auto simp: intact_def split: option.splits)
  with f tail file_Emit_intact(2) [OF f] show ?thesis by (simp add: intact_def)
qed

definition plain_os :: file_os where
  "plain_os = \<lparr>fo_GOOS = ''linux'', fo_OpenFile = (\<lambda>_. Inr []), fo_Stat = None, fo_IsRegular = True,
     fo_ReadAt = None, fo_SyncFile = None, fo_EvalSymlinks = Inr, fo_Dir = (\<lambda>_. ''/var/log''), fo_Abs = Inr,
     fo_OpenDir = (\<lambda>_. None), fo_SyncDir = (\<lambda>_. None), fo_CloseDir = (\<lambda>_. None)\<rparr>"

text \<open>A disk that is full when the second event is written.\<close>

definition full_disk :: "nat \<Rightarrow> nat option \<times> err option" where
  "full_disk k = (if k < 2 then (None, None) else (Some 7, Some (ErrBackend ''no space left on device'')))"

definition fresh_file :: audit_file where
  "fresh_file = \<lparr>af_open = True, af_failed = None, af_content = [], af_durable = [],
     af_write = full_disk, af_sync = (\<lambda>_. None), af_clock = 0\<rparr>"

theorem audit_file_honest_witness:
  "af_durable (fst (emit_all [(background, blank_event), (background, blank_event)] fresh_file)) = [Line blank_event] \<and>
   snd (emit_all [(background, blank_event), (background, blank_event)] fresh_file) =
     [None, Some (ErrBackend ''no space left on device'')]"
proof
  let ?run = "emit_all [(background, blank_event), (background, blank_event)] fresh_file"
  show errors: "snd ?run = [None, Some (ErrBackend ''no space left on device'')]" by code_simp
  have "newFileAuditSink plain_os full_disk (\<lambda>_. None) ''audit.jsonl'' = Inr fresh_file"
    by (simp add: newFileAuditSink_def plain_os_def fresh_file_def syncAuditParents_def unix_def)
  from audit_file_honest [OF this prod.collapse [symmetric, of ?run]] errors
  show "af_durable (fst ?run) = [Line blank_event]" by (simp add: fresh_file_def)
qed

subsection \<open>What the file has gained\<close>

text \<open>
  \<open>logged Ps f f'\<close>: what became safe on disk between \<open>f\<close> and \<open>f'\<close> contains, in this order, one event for each of
  \<open>Ps\<close>. What was there before counts for nothing.
\<close>

definition logged :: "(audit_event \<Rightarrow> bool) list \<Rightarrow> audit_file \<Rightarrow> audit_file \<Rightarrow> bool" where
  "logged Ps f f' \<longleftrightarrow>
     (\<exists>evs. af_durable f' = af_durable f @ map Line evs \<and> (\<exists>found. subseq found evs \<and> list_all2 (\<lambda>P ev. P ev) Ps found))"

lemma logged_refl: "logged [] f f"
  by (simp add: logged_def)

lemma logged_trans: "logged Ps f f1 \<Longrightarrow> logged Qs f1 f2 \<Longrightarrow> logged (Ps @ Qs) f f2"
  unfolding logged_def by (metis append_assoc map_append list_emb_append_mono list_all2_appendI)

text \<open>A step on a file that keeps its order: it only appends, among other things one event for each of \<open>Ps\<close>.\<close>

definition adds :: "(audit_event \<Rightarrow> bool) list \<Rightarrow> audit_file \<Rightarrow> audit_file \<Rightarrow> bool" where
  "adds Ps f f' \<longleftrightarrow> (intact (af_durable f) f \<longrightarrow> intact (af_durable f') f' \<and> logged Ps f f')"

lemma adds_refl: "adds [] f f"
  by (simp add: adds_def logged_refl)

lemma adds_trans: "adds Ps f f1 \<Longrightarrow> adds Qs f1 f2 \<Longrightarrow> adds (Ps @ Qs) f f2"
  using logged_trans by (auto simp: adds_def)

lemma adds_nothing: "adds Ps f f' \<Longrightarrow> adds [] f f'"
  by (auto simp: adds_def logged_def)

lemma adds_one: "adds [P] f f' \<Longrightarrow> (\<And>ev. P ev \<Longrightarrow> Q ev) \<Longrightarrow> adds [Q] f f'"
  by (fastforce simp: adds_def logged_def list_all2_Cons1)

lemma file_Emit_adds:
  "adds (if snd (file_Emit cx ev f) = None then [\<lambda>x. x = ev] else []) f (fst (file_Emit cx ev f))"
proof -
  have "logged (if snd (file_Emit cx ev f) = None then [\<lambda>x. x = ev] else []) f (fst (file_Emit cx ev f))"
    if "af_durable (fst (file_Emit cx ev f)) =
        af_durable f @ (if snd (file_Emit cx ev f) = None then [Line ev] else [])"
    using that unfolding logged_def
    by (intro exI [of _ "if snd (file_Emit cx ev f) = None then [ev] else []"] conjI) auto
  with file_Emit_intact(1) [of "af_durable f" f cx ev] show ?thesis
    unfolding adds_def by (metis intact_def)
qed

subsection \<open>The Enforcer with an audit file\<close>

text \<open>
  The sink of an Enforcer whose surroundings are the audit file and everything else. An invalidator and a
  version source do not write the audit file.
\<close>

definition file_sink :: "ctx \<Rightarrow> audit_event \<Rightarrow> (audit_file \<times> 'w) mutation" where
  "file_sink cx ev x = (let (f, er) = file_Emit cx ev (fst x) in ((f, snd x), er))"

definition audits_to_file :: "('s, 'c, audit_file \<times> 'w) enforcer \<Rightarrow> bool" where
  "audits_to_file e \<longleftrightarrow> en_audit e = Some file_sink \<and>
     (\<forall>pub cx ev x. en_publish e = Some pub \<longrightarrow> fst (fst (pub cx ev x)) = fst x) \<and>
     (\<forall>source cx x. en_policySource e = Some source \<longrightarrow> fst (fst (pv_Next source cx x)) = fst x)"

abbreviation file_of :: "('s, 'c, audit_file \<times> 'w) state \<Rightarrow> audit_file" where
  "file_of st \<equiv> fst (st_ext st)"

text \<open>The event of a change, and that of a granted decision.\<close>

definition change_event ::
  "('s, 'c, 'x) enforcer \<Rightarrow> string \<Rightarrow> string \<Rightarrow> string \<Rightarrow> string \<Rightarrow> audit_event \<Rightarrow> bool" where
  "change_event e op actor u r ev \<longleftrightarrow> ae_Tenant ev = en_tenant e \<and> ae_Operation ev = op \<and> ae_ActorID ev = actor \<and>
     ae_TargetUserID ev = u \<and> ae_RoleName ev = r"

definition grant_event ::
  "('s, 'c, 'x) enforcer \<Rightarrow> string \<Rightarrow> string \<Rightarrow> string \<Rightarrow> string \<Rightarrow> audit_event \<Rightarrow> bool" where
  "grant_event e op user res act ev \<longleftrightarrow> ae_Tenant ev = en_tenant e \<and> ae_Operation ev = op \<and> ae_ActorID ev = user \<and>
     ae_Resource ev = res \<and> ae_Action ev = act \<and> ae_Allowed ev"

text \<open>The calls that change the policy, with the events of each.\<close>

definition who :: "ctx \<Rightarrow> string \<Rightarrow> string" where
  "who cx actor = (if actor = [] then cx_actor cx else actor)"

abbreviation registered_by :: "('s, 'c, 'x) enforcer \<Rightarrow> string \<Rightarrow> role \<Rightarrow> audit_event \<Rightarrow> bool" where
  "registered_by e actor role \<equiv> change_event e ''register_role'' actor [] (role_Name role)"

definition audited_calls ::
  "('s, 'c, 'x) enforcer \<Rightarrow> ctx \<Rightarrow> string \<Rightarrow> (('s, 'c, 'x) action \<times> (audit_event \<Rightarrow> bool) list) set" where
  "audited_calls e cx actor =
     {(RegisterRole e cx role, [registered_by e (cx_actor cx) role]) |role. True} \<union>
     {(RegisterRoles e cx roles, map (registered_by e (cx_actor cx)) roles) |roles. True} \<union>
     {(AssignRole e cx u r, [change_event e ''assign_role'' (cx_actor cx) u r]) |u r. True} \<union>
     {(UpdateRole e cx actor role, [change_event e ''update_role'' (who cx actor) [] (role_Name role)]) |role. True} \<union>
     {(DeleteRole e cx actor r, [change_event e ''delete_role'' (who cx actor) [] r]) |r. True} \<union>
     {(UnassignRole e cx actor u r, [change_event e ''unassign_role'' (who cx actor) u r]) |u r. True} \<union>
     {(SetRoleRules e cx actor r rules, [change_event e ''set_role_rules'' (who cx actor) [] r]) |r rules. True} \<union>
     {(SetRoleMetadata e cx actor r m, [change_event e ''set_role_metadata'' (who cx actor) [] r]) |r m. True} \<union>
     {(RegisterRoleAs e cx actor role, [registered_by e actor role]) |role. True} \<union>
     {(RegisterRolesAs e cx actor roles, map (registered_by e actor) roles) |roles. True} \<union>
     {(AssignRoleAs e cx actor u r, [change_event e ''assign_role'' actor u r]) |u r. True} \<union>
     {(ApplyPolicyBatch e cx actor b, [change_event e ''apply_policy_batch'' (who cx actor) [] []]) |b. True}"

text \<open>What a call leaves of the file, and what it adds to it when it succeeds.\<close>

definition records :: "(audit_event \<Rightarrow> bool) list \<Rightarrow> ('s, 'c, audit_file \<times> 'w) action \<Rightarrow> bool" where
  "records Ps f \<longleftrightarrow> (\<forall>st. adds (if snd (f st) = None then Ps else []) (file_of st) (file_of (fst (f st))))"

lemma records_quiet: "records Ps f \<Longrightarrow> adds [] (file_of st) (file_of (fst (f st)))"
  unfolding records_def using adds_nothing by blast

lemma records_success: "records Ps f \<Longrightarrow> snd (f st) = None \<Longrightarrow> adds Ps (file_of st) (file_of (fst (f st)))"
  unfolding records_def by presburger

lemma emitAudit_adds:
  assumes "audits_to_file e"
  shows "adds (if snd (emitAudit e cx ev st) = None
      then [\<lambda>x. x = ev\<lparr>ae_ID := cx_rand cx, ae_Time := cx_now cx, ae_Tenant := en_tenant e\<rparr>] else [])
    (file_of st) (file_of (fst (emitAudit e cx ev st)))"
proof -
  let ?ev = "ev\<lparr>ae_ID := cx_rand cx, ae_Time := cx_now cx, ae_Tenant := en_tenant e\<rparr>"
  have "file_of (fst (emitAudit e cx ev st)) = fst (file_Emit cx ?ev (file_of st))"
    "snd (emitAudit e cx ev st) = snd (file_Emit cx ?ev (file_of st))"
    using assms by (simp_all add: emitAudit_def audits_to_file_def file_sink_def Let_def split_beta split: option.split)
  with file_Emit_adds [of cx ?ev "file_of st"] show ?thesis by simp
qed

lemma recordMutation_records:
  assumes "audits_to_file e"
  shows "records [change_event e op (who cx actor) u r] (recordMutation e cx op actor u r)"
  unfolding records_def
proof
  fix st
  let ?st = "metric e (\<lambda>m. m\<lparr>mt_mutations := mt_mutations m + 1\<rparr>) st"
  let ?ev = "blank_event\<lparr>ae_Operation := op, ae_ActorID := (if actor = [] then cx_actor cx else actor),
    ae_TargetUserID := u, ae_RoleName := r\<rparr>"
  have run: "recordMutation e cx op actor u r st =
      (fst (emitAudit e cx ?ev ?st), map_option (AuditWriteError True) (snd (emitAudit e cx ?ev ?st)))"
    by (simp add: recordMutation_def Let_def split_beta)
  have named: "change_event e op (who cx actor) u r x"
    if "x = ?ev\<lparr>ae_ID := cx_rand cx, ae_Time := cx_now cx, ae_Tenant := en_tenant e\<rparr>" for x
    unfolding that by (simp add: change_event_def who_def)
  show "adds (if snd (recordMutation e cx op actor u r st) = None then [change_event e op (who cx actor) u r] else [])
      (file_of st) (file_of (fst (recordMutation e cx op actor u r st)))"
    using emitAudit_adds [OF assms, of cx ?ev ?st] named unfolding run by (auto elim: adds_one split: if_splits)
qed

text \<open>What a call does before it writes its event leaves the file as it is.\<close>

lemma bumpPolicyVersion_file: "audits_to_file e \<Longrightarrow> file_of (bumpPolicyVersion e cx st) = file_of st"
  by (auto simp: bumpPolicyVersion_def nextVersion_def audits_to_file_def Let_def split_beta simp del: split_paired_All
      split: option.splits sum.splits)

lemma publish_file: "audits_to_file e \<Longrightarrow> file_of (publish e cx ev st) = file_of st"
  by (simp add: publish_def audits_to_file_def case_prod_unfold del: split_paired_All split: option.split)

lemma flushCache_ext: "st_ext (flushCache e cx st) = st_ext st"
  by (simp add: flushCache_def Let_def split: option.splits prod.splits)

lemma dropCache_ext: "st_ext (dropCache e cx u st) = st_ext st"
  by (simp add: dropCache_def dropCacheKey_def Let_def split: option.splits)

lemma lookup_ext:
  "st_ext (fst (cacheLookup e cx u st)) = st_ext st" "st_ext (fst (cacheToken e cx u st)) = st_ext st"
  "st_ext (cacheFill e cx u ps g t st) = st_ext st"
  by (simp_all add: cacheLookup_def cacheToken_def cacheFill_def Let_def split_beta split: option.split cache_value.split)

lemma permissionsFor_ext: "st_ext (fst (permissionsFor e cx u st)) = st_ext st"
  by (simp add: permissionsFor_def Let_def split_beta lookup_ext split: option.split sum.split)

named_theorems recording \<open>calls that write their events\<close>

lemma records_store [recording]: "records [] (on_store f)"
  by (simp add: records_def on_store_def Let_def split_beta adds_refl)

lemma records_andS [recording]:
  assumes f: "records [] f" and g: "records Ps g"
  shows "records Ps (andS f g)"
  unfolding records_def
proof
  fix st
  obtain st1 er where run: "f st = (st1, er)" by force
  then have one: "adds [] (file_of st) (file_of st1)" using records_quiet [OF f, of st] by simp
  show "adds (if snd (andS f g st) = None then Ps else []) (file_of st) (file_of (fst (andS f g st)))"
  proof (cases er)
    case None
    have "adds (if snd (g st1) = None then Ps else []) (file_of st1) (file_of (fst (g st1)))"
      using g by (simp only: records_def)
    from adds_trans [OF one this] show ?thesis by (simp add: andS_def run None)
  next
    case (Some c)
    with one show ?thesis by (simp add: andS_def run)
  qed
qed

lemma records_after:
  assumes "records Ps f" and "\<And>st. file_of (g st) = file_of st"
  shows "records Ps (\<lambda>st. f (g st))"
  unfolding records_def
proof
  fix st
  have "adds (if snd (f (g st)) = None then Ps else []) (file_of (g st)) (file_of (fst (f (g st))))"
    using assms(1) by (simp only: records_def)
  then show "adds (if snd (f (g st)) = None then Ps else []) (file_of st) (file_of (fst (f (g st))))"
    by (simp only: assms(2))
qed

lemma records_role [recording]:
  assumes "audits_to_file e"
  shows "records [change_event e op (who cx actor) [] r] (afterRoleChange e cx op actor r)"
  unfolding afterRoleChange_def [abs_def] invalidateAll_def
  by (rule records_after [OF recordMutation_records [OF assms]])
    (simp add: publish_file [OF assms] flushCache_ext bumpPolicyVersion_file [OF assms])

lemma records_user [recording]:
  assumes "audits_to_file e"
  shows "records [change_event e op (who cx actor) u r] (afterUserChange e cx op actor u r)"
  unfolding afterUserChange_def [abs_def] invalidateUser_def
  by (rule records_after [OF recordMutation_records [OF assms]])
    (simp add: publish_file [OF assms] dropCache_ext bumpPolicyVersion_file [OF assms])

lemma records_meta [recording]:
  assumes "audits_to_file e"
  shows "records [change_event e op (who cx actor) u r] (\<lambda>st. recordMutation e cx op actor u r (bumpPolicyVersion e cx st))"
  by (rule records_after [OF recordMutation_records [OF assms]]) (rule bumpPolicyVersion_file [OF assms])

lemma records_supported [recording]:
  "(\<And>ops. records Ps (f ops)) \<Longrightarrow> records Ps (supported i f)"
  by (cases i) (simp_all add: records_def supported_def adds_refl)

lemma records_if [recording]:
  assumes "records Ps f"
  shows "records Ps (\<lambda>st. if b st then (st, Some er) else f st)"
  unfolding records_def
proof
  fix st
  show "adds (if snd (if b st then (st, Some er) else f st) = None then Ps else []) (file_of st)
      (file_of (fst (if b st then (st, Some er) else f st)))"
    using assms by (cases "b st") (simp_all only: records_def if_True if_False fst_conv snd_conv option.distinct adds_refl)
qed

lemma records_option [recording]:
  "records Ps f \<Longrightarrow> records Ps (\<lambda>st. case x of Some er \<Rightarrow> (st, Some er) | None \<Rightarrow> f st)"
  by (cases x) (simp_all add: records_def adds_refl)

lemma records_forS [recording]:
  assumes "\<And>x. records [P x] (f x)"
  shows "records (map P xs) (forS f xs)"
proof (induction xs)
  case Nil
  then show ?case by (simp add: records_def adds_refl)
next
  case (Cons x xs)
  show ?case
    unfolding records_def
  proof
    fix st
    obtain st1 er where run: "f x st = (st1, er)" by force
    show "adds (if snd (forS f (x # xs) st) = None then map P (x # xs) else []) (file_of st) (file_of (fst (forS f (x # xs) st)))"
    proof (cases er)
      case None
      have one: "adds [P x] (file_of st) (file_of st1)"
        using records_success [OF assms [of x], of st] run None by simp
      have "adds (if snd (forS f xs st1) = None then map P xs else []) (file_of st1) (file_of (fst (forS f xs st1)))"
        using Cons.IH by (simp only: records_def)
      with adds_trans [OF one this] adds_nothing show ?thesis by (auto simp: run None)
    next
      case (Some c)
      then show ?thesis using records_quiet [OF assms [of x], of st] run by simp
    qed
  qed
qed

lemma recordDecision_adds:
  assumes "audits_to_file e" and "st_ext (fst r) = st_ext st0"
  shows "adds (if snd (recordDecision e cx op u res act r) = (True, None) then [grant_event e op u res act] else [])
    (file_of st0) (file_of (fst (recordDecision e cx op u res act r)))"
proof -
  obtain st allowed err where r: "r = (st, allowed, err)" by (metis prod_cases3)
  let ?ev = "blank_event\<lparr>ae_Operation := op, ae_ActorID := u, ae_Resource := res, ae_Action := act,
    ae_Allowed := (allowed \<and> err = None), ae_Error := err\<rparr>"
  have emitted: "file_of (fst (recordDecision e cx op u res act r)) = file_of (fst (emitAudit e cx ?ev st))"
    by (simp add: r recordDecision_def Let_def split_beta)
  have start: "file_of st = file_of st0" using assms(2) by (simp add: r)
  note adds = emitAudit_adds [OF assms(1), of cx ?ev st]
  show ?thesis
  proof (cases "snd (recordDecision e cx op u res act r) = (True, None)")
    case True
    then have ok: "snd (emitAudit e cx ?ev st) = None" "allowed" "err = None"
      by (auto simp: r recordDecision_result split: option.splits)
    have named: "grant_event e op u res act x"
      if "x = ?ev\<lparr>ae_ID := cx_rand cx, ae_Time := cx_now cx, ae_Tenant := en_tenant e\<rparr>" for x
      unfolding that using ok by (simp add: grant_event_def)
    from adds ok(1) named have "adds [grant_event e op u res act] (file_of st) (file_of (fst (emitAudit e cx ?ev st)))"
      by (auto elim: adds_one)
    with True start show ?thesis by (simp add: emitted)
  next
    case False
    with adds_nothing [OF adds] start show ?thesis by (simp add: emitted)
  qed
qed

lemma EnforceCtx_adds:
  assumes "audits_to_file e"
  shows "adds (if snd (EnforceCtx e cx u res act st) = (True, None) then [grant_event e ''enforce'' u res act] else [])
    (file_of st) (file_of (fst (EnforceCtx e cx u res act st)))"
  unfolding EnforceCtx_def
  by (rule recordDecision_adds [OF assms])
    (simp add: decided_def split_beta permissionsFor_ext split: sum.split)

lemma EnforceOwnedCtx_adds:
  assumes "audits_to_file e"
  shows "adds (if snd (EnforceOwnedCtx e cx u owner grp res act st) = (True, None)
      then [grant_event e ''enforce_owned'' u res act] else [])
    (file_of st) (file_of (fst (EnforceOwnedCtx e cx u owner grp res act st)))"
  unfolding EnforceOwnedCtx_def
  by (rule recordDecision_adds [OF assms])
    (simp add: decided_def Let_def split_beta permissionsFor_ext split: sum.split)

lemma requireManagement_quiet:
  assumes "audits_to_file e"
  shows "records [] (requireManagement e cx actor)"
proof -
  have "file_of (fst (requireManagement e cx actor st)) =
      file_of (fst (EnforceCtx e cx actor (en_manageRes e) (en_manageAct e) st))" for st
    by (simp add: requireManagement_def Let_def split_beta split: option.split)
  with adds_nothing [OF EnforceCtx_adds [OF assms]] show ?thesis by (simp add: records_def)
qed

lemma records_guarded [recording]:
  assumes "audits_to_file e" and "records Ps f"
  shows "records Ps (guarded e cx actor f)"
  unfolding guarded_def by (rule records_andS [OF requireManagement_quiet [OF assms(1)] assms(2)])

lemma who_trusted: "who cx [] = cx_actor cx"
  by (simp add: who_def)

lemma who_behalf: "cx_actor (withAuditActor cx actor) = actor"
  by (simp add: withAuditActor_def)

lemma RegisterRole_records [recording]:
  assumes "audits_to_file e"
  shows "records [registered_by e (cx_actor cx) role] (RegisterRole e cx role)"
  unfolding RegisterRole_def [abs_def] who_trusted [symmetric] by (intro recording assms)

lemma RegisterRoles_records [recording]:
  assumes "audits_to_file e"
  shows "records (map (registered_by e (cx_actor cx)) roles) (RegisterRoles e cx roles)"
  unfolding RegisterRoles_def [abs_def] by (intro recording assms)

lemma AssignRole_records [recording]:
  assumes "audits_to_file e"
  shows "records [change_event e ''assign_role'' (cx_actor cx) u r] (AssignRole e cx u r)"
  unfolding AssignRole_def [abs_def] who_trusted [symmetric] by (intro recording assms)

lemma As_records:
  assumes "audits_to_file e"
  shows "records [registered_by e actor role] (RegisterRoleAs e cx actor role)"
    and "records (map (registered_by e actor) roles) (RegisterRolesAs e cx actor roles)"
    and "records [change_event e ''assign_role'' actor u r] (AssignRoleAs e cx actor u r)"
proof -
  note rules = RegisterRole_records RegisterRoles_records AssignRole_records
  note behalf = records_guarded [OF assms rules(1) [OF assms, of "withAuditActor cx actor"]]
    records_guarded [OF assms rules(2) [OF assms, of "withAuditActor cx actor"]]
    records_guarded [OF assms rules(3) [OF assms, of "withAuditActor cx actor"]]
  show "records [registered_by e actor role] (RegisterRoleAs e cx actor role)"
    "records (map (registered_by e actor) roles) (RegisterRolesAs e cx actor roles)"
    "records [change_event e ''assign_role'' actor u r] (AssignRoleAs e cx actor u r)"
    unfolding RegisterRoleAs_def RegisterRolesAs_def AssignRoleAs_def by (rule behalf [unfolded who_behalf])+
qed

lemma managed_records:
  assumes "audits_to_file e"
  shows "records [change_event e ''update_role'' (who cx actor) [] (role_Name role)] (UpdateRole e cx actor role)"
    and "records [change_event e ''delete_role'' (who cx actor) [] r] (DeleteRole e cx actor r)"
    and "records [change_event e ''unassign_role'' (who cx actor) u r] (UnassignRole e cx actor u r)"
    and "records [change_event e ''set_role_rules'' (who cx actor) [] r] (SetRoleRules e cx actor r rules)"
    and "records [change_event e ''set_role_metadata'' (who cx actor) [] r] (SetRoleMetadata e cx actor r m)"
    and "records [change_event e ''apply_policy_batch'' (who cx actor) [] []] (ApplyPolicyBatch e cx actor b)"
  unfolding UpdateRole_def DeleteRole_def UnassignRole_def SetRoleRules_def [abs_def] SetRoleMetadata_def ApplyPolicyBatch_def
  by (intro recording assms)+

lemma audited_call_records:
  assumes "audits_to_file e" and "(f, Ps) \<in> audited_calls e cx actor"
  shows "records Ps f"
  using assms(2) RegisterRole_records [OF assms(1)] RegisterRoles_records [OF assms(1)] AssignRole_records [OF assms(1)]
    As_records [OF assms(1)] managed_records [OF assms(1)]
  unfolding audited_calls_def by (elim UnE CollectE exE conjE Pair_inject) (simp_all only:)

text \<open>Several roles: those registered before the call stops have their events, whatever follows.\<close>

lemma forS_append: "forS f (xs @ ys) = andS (forS f xs) (forS f ys)"
proof
  show "forS f (xs @ ys) s = andS (forS f xs) (forS f ys) s" for s
    by (induction xs arbitrary: s) (auto simp: andS_def split: prod.splits option.splits)
qed

lemma RegisterRoles_partial:
  assumes e: "audits_to_file e" and first: "snd (RegisterRoles e cx first st) = None"
  shows "adds (map (registered_by e (cx_actor cx)) first) (file_of st) (file_of (fst (RegisterRoles e cx (first @ rest) st)))"
proof -
  have up: "\<not> st_shutdown st" using first by (auto simp: RegisterRoles_def)
  obtain st1 where run: "forS (RegisterRole e cx) first st = (st1, None)"
    using first up by (auto simp: RegisterRoles_def prod_eq_iff)
  have one: "adds (map (registered_by e (cx_actor cx)) first) (file_of st) (file_of st1)"
    using records_success [OF RegisterRoles_records [OF e] first] up by (simp add: RegisterRoles_def run)
  have "records (map (registered_by e (cx_actor cx)) rest) (forS (RegisterRole e cx) rest)" by (intro recording e)
  from adds_trans [OF one records_quiet [OF this]] up show ?thesis
    by (simp add: RegisterRoles_def forS_append andS_def run)
qed

lemma RegisterRolesAs_partial:
  assumes e: "audits_to_file e" and first: "snd (RegisterRolesAs e cx actor first st) = None"
  shows "adds (map (registered_by e actor) first) (file_of st) (file_of (fst (RegisterRolesAs e cx actor (first @ rest) st)))"
proof -
  obtain st1 where run: "requireManagement e cx actor st = (st1, None)"
    using first by (auto simp: RegisterRolesAs_def guarded_def andS_def split: prod.splits option.splits)
  then have "snd (RegisterRoles e (withAuditActor cx actor) first st1) = None"
    using first by (simp add: RegisterRolesAs_def guarded_def andS_def)
  from RegisterRoles_partial [OF e this]
  have more: "adds (map (registered_by e actor) first) (file_of st1)
      (file_of (fst (RegisterRoles e (withAuditActor cx actor) (first @ rest) st1)))" by (simp only: who_behalf)
  from records_quiet [OF requireManagement_quiet [OF e, of cx actor], of st]
  have "adds [] (file_of st) (file_of st1)" by (simp only: run fst_conv)
  from adds_trans [OF this more] show ?thesis by (simp add: RegisterRolesAs_def guarded_def andS_def run)
qed

text \<open>
  C21. With an audit file no change and no permission goes unrecorded. Take a file as it was opened and used
  so far, on any disk. Whenever a call that changes the policy succeeds, and whenever a decision is granted,
  the lines that became safe on disk during that call contain its event, which names the tenant, the
  operation, the actor and what it concerned. A call that registers several roles leaves one event for each,
  in their order, and when it stops at an error, those of the roles already registered.
\<close>

theorem nothing_unrecorded:
  fixes e :: "('s, 'c, audit_file \<times> 'w) enforcer"
  assumes "audits_to_file e"
    and "newFileAuditSink os wr sy path = Inr f0" and "emit_all evs f0 = (file_of st, es)"
  shows "((f, Ps) \<in> audited_calls e cx actor \<longrightarrow> snd (f st) = None \<longrightarrow>
      logged Ps (file_of st) (file_of (fst (f st)))) \<and>
    (snd (RegisterRoles e cx first st) = None \<longrightarrow>
      logged (map (registered_by e (cx_actor cx)) first) (file_of st)
        (file_of (fst (RegisterRoles e cx (first @ rest) st)))) \<and>
    (snd (RegisterRolesAs e cx actor first st) = None \<longrightarrow>
      logged (map (registered_by e actor) first) (file_of st)
        (file_of (fst (RegisterRolesAs e cx actor (first @ rest) st)))) \<and>
    (snd (Enforce e cx user res act st) \<longrightarrow>
      logged [grant_event e ''enforce'' user res act] (file_of st) (file_of (fst (Enforce e cx user res act st)))) \<and>
    (snd (EnforceAttributes e cx user res act attrs st) \<longrightarrow>
      logged [grant_event e ''enforce'' user res act] (file_of st)
        (file_of (fst (EnforceAttributes e cx user res act attrs st)))) \<and>
    (snd (EnforceOwned e cx user owner grp res act st) \<longrightarrow>
      logged [grant_event e ''enforce_owned'' user res act] (file_of st)
        (file_of (fst (EnforceOwned e cx user owner grp res act st))))"
proof -
  have "intact (af_content f0) f0"
    using assms(2) by (auto simp: newFileAuditSink_def Let_def intact_def split: sum.splits option.splits if_splits)
  from emit_all_intact [OF this, of evs] assms(3) have "intact (af_durable (file_of st)) (file_of st)"
    by (simp add: intact_def)
  then have logged: "logged Ps (file_of st) f'" if "adds Ps (file_of st) f'" for Ps f'
    using that by (simp add: adds_def)
  show ?thesis
  proof (intro conjI impI; rule logged)
    assume "(f, Ps) \<in> audited_calls e cx actor" and "snd (f st) = None"
    then show "adds Ps (file_of st) (file_of (fst (f st)))"
      by (rule records_success [OF audited_call_records [OF assms(1)]])
  next
    assume "snd (Enforce e cx user res act st)"
    then have "snd (EnforceCtx e cx user res act st) = (True, None)"
      by (auto simp: Enforce_def prod_eq_iff split_beta)
    with EnforceCtx_adds [OF assms(1), of cx user res act st]
    show "adds [grant_event e ''enforce'' user res act] (file_of st) (file_of (fst (Enforce e cx user res act st)))"
      by (simp add: Enforce_def split_beta)
  next
    assume "snd (EnforceAttributes e cx user res act attrs st)"
    then have "EnforceAttributesCtx e cx user res act attrs st = EnforceCtx e (WithAttributes cx attrs) user res act st"
      "snd (EnforceCtx e (WithAttributes cx attrs) user res act st) = (True, None)"
      by (auto simp: EnforceAttributes_def EnforceAttributesCtx_def prod_eq_iff split_beta split: if_splits)
    with EnforceCtx_adds [OF assms(1), of "WithAttributes cx attrs" user res act st]
    show "adds [grant_event e ''enforce'' user res act] (file_of st)
        (file_of (fst (EnforceAttributes e cx user res act attrs st)))"
      by (simp add: EnforceAttributes_def split_beta)
  next
    assume "snd (EnforceOwned e cx user owner grp res act st)"
    then have "snd (EnforceOwnedCtx e cx user owner grp res act st) = (True, None)"
      by (auto simp: EnforceOwned_def prod_eq_iff split_beta)
    with EnforceOwnedCtx_adds [OF assms(1), of cx user owner grp res act st]
    show "adds [grant_event e ''enforce_owned'' user res act] (file_of st)
        (file_of (fst (EnforceOwned e cx user owner grp res act st)))"
      by (simp add: EnforceOwned_def split_beta)
  qed (rule RegisterRoles_partial [OF assms(1)] RegisterRolesAs_partial [OF assms(1)], assumption)+
qed

definition logged_acme :: "(mem, lru, audit_file \<times> unit) enforcer" where
  "logged_acme = \<lparr>en_store = mem_ops, en_cache = Some lru_ops, en_logger = True, en_metrics = True,
     en_audit = Some file_sink, en_wildcards = True, en_rulesEnabled = True, en_tenant = ''acme'',
     en_manageRes = ''roles'', en_manageAct = ''manage'', en_policySource = None, en_publish = None\<rparr>"

definition logged_start :: "(mem, lru, audit_file \<times> unit) state" where
  "logged_start = \<lparr>st_store = NewMemoryStore, st_cache = NewMemoryLRU 1024 five_minutes,
     st_ext = (fresh_file\<lparr>af_write := (\<lambda>_. (None, None))\<rparr>, ()), st_cacheGeneration = 0, st_policyVersion = 0,
     st_subscribed = False, st_shutdown = False, st_metrics = no_metrics, st_log = []\<rparr>"

text \<open>Two roles, then one without a name: the call fails, and both have their events.\<close>

definition nameless :: role where "nameless = \<lparr>role_Name = [], role_Permissions = [], role_Parents = []\<rparr>"

theorem nothing_unrecorded_witness:
  "let st1 = fst (RegisterRoles logged_acme background [viewer, editor, nameless] logged_start)
   in snd (RegisterRoles logged_acme background [viewer, editor, nameless] logged_start) = Some ErrInvalidRole \<and>
     logged (map (registered_by logged_acme (cx_actor background)) [viewer, editor]) (file_of logged_start) (file_of st1)"
proof -
  have sink: "audits_to_file logged_acme" by (simp add: audits_to_file_def logged_acme_def)
  have opened: "newFileAuditSink plain_os (\<lambda>_. (None, None)) (\<lambda>_. None) ''audit.jsonl'' = Inr (file_of logged_start)"
    by (simp add: newFileAuditSink_def plain_os_def fresh_file_def syncAuditParents_def unix_def logged_start_def)
  have unused: "emit_all [] (file_of logged_start) = (file_of logged_start, [])" by simp
  have ok: "snd (RegisterRoles logged_acme background [viewer, editor] logged_start) = None" by code_simp
  have stops: "snd (RegisterRoles logged_acme background [viewer, editor, nameless] logged_start) = Some ErrInvalidRole"
    by code_simp
  have roles: "[viewer, editor] @ [nameless] = [viewer, editor, nameless]" by simp
  from nothing_unrecorded [OF sink opened unused, where cx = background and first = "[viewer, editor]" and rest = "[nameless]",
      unfolded roles] ok stops
  show ?thesis unfolding Let_def by blast
qed

end
