(* ===== verification/TenancyProps.thy ===== *)
theory TenancyProps
  imports Scenario
begin

text \<open>
  The properties of tenants that share a store: which tenant names keep apart, that tenants kept
  apart cannot influence each other's decisions, and what an Enforcer reports of its tenant.
\<close>

subsection \<open>Isolation\<close>

text \<open>
  C28. Tenants are isolated: in a deployment whose tenants have disjoint keys, however the calls of
  all Enforcers interleaved before, no call of one tenant's Enforcer changes any decision of another
  tenant's Enforcer.
\<close>

theorem tenant_isolation:
  assumes "deploy_run n en d" and "tenants_apart n en" and "\<And>k. k < n \<Longrightarrow> runs_on (en k) mem_ops lru_ops"
    and "deploy_step en i d d'" and "i < n" and "j < n" and "j \<noteq> i"
    and "en_audit (en j) = None" and "cx_Err cx = None" and "fair_range cx"
  shows "snd (Enforce (en j) cx u res act (instance_of d' j)) = snd (Enforce (en j) cx u res act (instance_of d j))"
proof -
  let ?e = "en j"
  have ok: "deploy_ok mem_ok mem_abs lru_ok lru_holds n en d" by (rule deploy_run_ok [OF assms(1-3)])
  have ok': "deploy_ok mem_ok mem_abs lru_ok lru_holds n en d'"
    by (rule embedded.deploy_step_ok(1) [OF assms(4,5,2,3) ok])
  have same: "st_shutdown (instance_of d' j) = st_shutdown (instance_of d j)"
    using assms(4,7) by (auto simp: instance_of_def elim: deploy_stepE)
  have exact: "snd (Enforce ?e cx u res act (instance_of q j)) =
      decision ?e (mem_abs (dp_store q)) u res act (cx_attrs cx) (may ?e (mem_abs (dp_store q)) u res act)"
    if q: "deploy_ok mem_ok mem_abs lru_ok lru_holds n en q" and up: "\<not> st_shutdown (instance_of q j)" for q
  proof -
    have st: "good ?e mem_ok mem_abs lru_ok lru_holds (instance_of q j)"
      using q assms(6) unfolding deploy_ok_def by blast
    have store: "st_store (instance_of q j) = dp_store q" by (simp add: instance_of_def)
    show ?thesis
      by (rule embedded.EnforceCtx_decision [OF assms(3) [OF assms(6)] st assms(9,10) up, of u res act])
        (simp add: Enforce_def split_beta recordDecision_off [OF assms(8)] store)
  qed
  have down: "\<not> snd (Enforce ?e cx u res act (instance_of q j))" if "st_shutdown (instance_of q j)" for q
    using shutdown_decision(1) [OF that, of ?e cx u res act True] by (auto simp: Enforce_def split_beta prod_eq_iff)
  show ?thesis
  proof (cases "st_shutdown (instance_of d j)")
    case True
    with same down show ?thesis by simp
  next
    case False
    note apart = embedded.deploy_step_decision [OF assms(4,5,2,3) ok assms(6,7)]
    from False same show ?thesis by (simp add: exact [OF ok] exact [OF ok'] apart)
  qed
qed

definition two_tenants :: "nat \<Rightarrow> local_enforcer" where
  "two_tenants i = (if i = 0 then acme else acme\<lparr>en_tenant := ''globex''\<rparr>)"

definition two_fresh :: "(mem, lru, unit) deployment" where
  "two_fresh = \<lparr>dp_store = NewMemoryStore, dp_local = (\<lambda>_. fresh_state)\<rparr>"

theorem tenant_isolation_witness:
  "\<exists>d'. deploy_step two_tenants 0 two_fresh d' \<and> fmhas (m_roles (dp_store d')) ''acme::viewer'' \<and>
    snd (Enforce (two_tenants 1) background ''bob'' ''doc'' ''read'' (instance_of d' 1)) =
      snd (Enforce (two_tenants 1) background ''bob'' ''doc'' ''read'' (instance_of two_fresh 1))"
proof -
  let ?st = "fst (RegisterRole acme background viewer (instance_of two_fresh 0))"
  let ?d = "two_fresh\<lparr>dp_store := st_store ?st, dp_local := (dp_local two_fresh)(0 := ?st)\<rparr>"
  have "enforcer_step (two_tenants 0) (instance_of two_fresh 0) ?st"
    by (simp add: two_tenants_def enforcer_step.intros)
  then have step: "deploy_step two_tenants 0 two_fresh ?d" by (rule deploy_step.intros)
  have start: "deploy_run 2 two_tenants two_fresh"
    by (rule deploy_run.start) (auto simp: deploy_start_def two_fresh_def fresh_state_def)
  have "disjoint_tenants ''acme'' ''globex''" "disjoint_tenants ''globex'' ''acme''"
    by (subst disjoint_tenants_iff; simp add: tenantSep_def HasPrefix_def)+
  then have apart: "tenants_apart 2 two_tenants"
    by (auto simp: tenants_apart_def two_tenants_def acme_def less_2_cases_iff)
  have runs: "k < 2 \<Longrightarrow> runs_on (two_tenants k) mem_ops lru_ops" for k
    by (simp add: two_tenants_def runs_on_def acme_def)
  have "fmhas (m_roles (st_store ?st)) ''acme::viewer''" by code_simp
  then show ?thesis
    using step tenant_isolation [OF start apart runs step, of 1 background "''bob''" "''doc''" "''read''"]
    by (intro exI [of _ ?d]) (simp add: two_tenants_def acme_def)
qed

text \<open>
  C29. Which tenants that keeps apart: two tenants that \<^verbatim>\<open>WithTenant\<close> accepts share a stored key
  exactly when they are equal or one is the other followed by a single colon.
\<close>

theorem tenant_keys_meet:
  assumes "WithTenant s e = Inr es" and "WithTenant t e = Inr et"
  shows "(\<exists>x y. roleKey es x = roleKey et y) \<longleftrightarrow>
    en_tenant es = en_tenant et \<or> en_tenant et = en_tenant es @ '':'' \<or> en_tenant es = en_tenant et @ '':''"
proof -
  have "(\<exists>x y. roleKey es x = roleKey et y) \<longleftrightarrow> \<not> disjoint_tenants (en_tenant es) (en_tenant et)"
    unfolding disjoint_tenants_def own_iff by (auto simp: roleKey_def)
  with disjoint_tenants_iff [OF WithTenant_tenant(3) [OF assms(1)] WithTenant_tenant(3) [OF assms(2)]]
  show ?thesis by blast
qed

theorem tenant_keys_meet_witness:
  "\<exists>x y. roleKey (acme\<lparr>en_tenant := ''a''\<rparr>) x = roleKey (acme\<lparr>en_tenant := ''a:''\<rparr>) y"
proof -
  have "\<not> blank ''a''" "TrimSpace ''a'' = ''a''" "\<not> Contains ''a'' tenantSep"
    "\<not> blank '' a: ''" "TrimSpace '' a: '' = ''a:''" "\<not> Contains ''a:'' tenantSep" by code_simp+
  then have "WithTenant ''a'' acme = Inr (acme\<lparr>en_tenant := ''a''\<rparr>)" "WithTenant '' a: '' acme = Inr (acme\<lparr>en_tenant := ''a:''\<rparr>)"
    by (simp_all add: WithTenant_def)
  from tenant_keys_meet [OF this] show ?thesis by simp
qed

definition colon_tenant :: local_enforcer where "colon_tenant = acme\<lparr>en_tenant := ''acme:''\<rparr>"

definition colon_state :: local_state where
  "colon_state = run_all [RegisterRole colon_tenant background (a_role ''owner'' [(''doc'', ''delete'')] []),
     AssignRole colon_tenant background ''bob'' ''owner''] fresh_state"

text \<open>
  So the namespaces of accepted tenants are not always isolated: an Enforcer of the accepted
  tenant \<^verbatim>\<open>acme:\<close> registers a role and assigns it to its user \<^verbatim>\<open>bob\<close>; the Enforcer of tenant
  \<^verbatim>\<open>acme\<close> over the same store then grants that permission to its user \<^verbatim>\<open>:bob\<close>, whom nobody gave a
  role there, and lists the role as one of its own.
\<close>

theorem tenant_keys_collide:
  "WithTenant ''acme:'' acme = Inr colon_tenant \<and>
   \<not> snd (Enforce acme background '':bob'' ''doc'' ''delete'' fresh_state) \<and>
   snd (Enforce acme background '':bob'' ''doc'' ''delete'' (fresh_state\<lparr>st_store := st_store colon_state\<rparr>)) \<and>
   ListRoles acme background (fresh_state\<lparr>st_store := st_store colon_state\<rparr>) =
     Inr [a_role '':owner'' [(''doc'', ''delete'')] []]"
proof (intro conjI)
  show "WithTenant ''acme:'' acme = Inr colon_tenant"
  proof -
    have "\<not> blank ''acme:''" "TrimSpace ''acme:'' = ''acme:''" "\<not> Contains ''acme:'' tenantSep" by code_simp+
    then show ?thesis by (simp add: WithTenant_def colon_tenant_def)
  qed
  have "snd (Enforce acme background '':bob'' ''doc'' ''delete'' fresh_state) = False" by code_simp
  then show "\<not> snd (Enforce acme background '':bob'' ''doc'' ''delete'' fresh_state)" by simp
  show "snd (Enforce acme background '':bob'' ''doc'' ''delete'' (fresh_state\<lparr>st_store := st_store colon_state\<rparr>))" by code_simp
  show "ListRoles acme background (fresh_state\<lparr>st_store := st_store colon_state\<rparr>) =
     Inr [a_role '':owner'' [(''doc'', ''delete'')] []]" by code_simp
qed

subsection \<open>Introspection\<close>

text \<open>
  \<^verbatim>\<open>ListRoles\<close> lists exactly the tenant's roles, by their unscoped names in strictly increasing
  order, and scoping a listed role again gives the stored one.
\<close>

theorem ListRoles_exact:
  assumes "local_run e st" and "runs_on e mem_ops lru_ops" and "cx_Err cx = None" and "fair_range cx"
    and "\<not> st_shutdown st"
  shows "\<exists>rs. ListRoles e cx st = Inr rs \<and> sorted_wrt (<) (map role_Name rs) \<and>
    (\<forall>n. n \<in> role_Name ` set rs \<longleftrightarrow> fmhas (m_roles (st_store st)) (roleKey e n)) \<and>
    (\<forall>r \<in> set rs. fmlookup (m_roles (st_store st)) (roleKey e (role_Name r)) = Some (scopeRole e r))"
proof -
  let ?m = "m_roles (st_store st)"
  obtain found where run: "ListRoles e cx st = Inr (sort_key role_Name (map (unscopeRole e) found))"
    and d: "distinct (map role_Name found)"
    and found: "\<And>r. r \<in> set found \<longleftrightarrow> fmlookup ?m (role_Name r) = Some r \<and> own (en_tenant e) (role_Name r)"
    using embedded.ListRoles_listed [OF assms(2) local_run_good [OF assms(1,2)] assms(3-5)]
    by (auto simp: mem_GetRole_def own_def)
  let ?rs = "sort_key role_Name (map (unscopeRole e) found)"
  have names: "map role_Name (map (unscopeRole e) found) = map (\<lambda>k. TrimPrefix k (en_tenant e @ tenantSep)) (map role_Name found)"
    by (simp add: role_Name_unscope)
  have "distinct (map role_Name (map (unscopeRole e) found))"
    unfolding names by (rule distinct_unscope [OF d]) (auto simp: found)
  then have "distinct (map role_Name ?rs)" by (metis distinct_map distinct_sort set_sort)
  then have sorted: "sorted_wrt (<) (map role_Name ?rs)" by (simp add: strict_sorted_iff)
  have scope: "scopeRole e (unscopeRole e r) = r \<and> roleKey e (role_Name (unscopeRole e r)) = role_Name r" if r: "r \<in> set found" for r
  proof -
    have own: "own (en_tenant e) (role_Name r)" and look: "fmlookup ?m (role_Name r) = Some r" using r found by auto
    have "own (en_tenant e) p" if "p \<in> set (role_Parents r)" for p
    proof -
      have "ab_parent (ab_roles (mem_abs (st_store st))) (role_Name r) p"
        using that look by (auto simp: ab_parent_def mem_abs_def abs_roles_def role_entry_def fset_of_list_elem)
      with own local_run_separated [OF assms(1,2)] show ?thesis unfolding separated_def by blast
    qed
    then have "map (roleKey e) (map (\<lambda>p. TrimPrefix p (en_tenant e @ tenantSep)) (role_Parents r)) = role_Parents r"
      by (simp add: roleKey_TrimPrefix map_idI)
    then show ?thesis using own by (simp add: scopeRole_def unscopeRole_def roleKey_TrimPrefix)
  qed
  have member: "n \<in> role_Name ` set ?rs \<longleftrightarrow> fmhas ?m (roleKey e n)" for n
  proof
    assume "n \<in> role_Name ` set ?rs"
    then obtain r where "r \<in> set found" "n = role_Name (unscopeRole e r)" by auto
    then show "fmhas ?m (roleKey e n)" using scope found by (auto simp: fmhas_def)
  next
    assume "fmhas ?m (roleKey e n)"
    then obtain r where r: "fmlookup ?m (roleKey e n) = Some r" by (auto simp: fmhas_def)
    have "mem_ok (st_store st)" using local_run_good [OF assms(1,2)] by (rule goodD)
    with r have "role_Name r = roleKey e n" by (auto simp: mem_ok_def)
    with r have "r \<in> set found" by (simp add: found)
    moreover have "role_Name (unscopeRole e r) = n" using \<open>role_Name r = roleKey e n\<close> by (simp add: role_Name_unscope)
    ultimately show "n \<in> role_Name ` set ?rs" by force
  qed
  have "fmlookup ?m (roleKey e (role_Name r)) = Some (scopeRole e r)" if "r \<in> set ?rs" for r
    using that scope found by auto
  with run sorted member show ?thesis by blast
qed

text \<open>
  C30. The permission view of a user is exact: it names the roles assigned to the user in the
  tenant, and an action is listed under a resource exactly when the user is entitled to it through an
  assigned role or one of its ancestors.
\<close>

theorem PermissionView_exact:
  assumes "local_run e st" and "runs_on e mem_ops lru_ops" and "cx_Err cx = None" and "fair_range cx"
    and "\<not> st_shutdown st"
  shows "\<exists>v. snd (PermissionView e cx u st) = Inr v \<and> pv_UserID v = u \<and> sorted_wrt (<) (pv_Roles v) \<and>
    (\<forall>n. n \<in> set (pv_Roles v) \<longleftrightarrow> (userKey e u, roleKey e n) |\<in>| ab_assign (mem_abs (st_store st))) \<and>
    (\<forall>res act. (\<exists>acts. fmlookup (pv_Permissions v) res = Some acts \<and> act \<in> set acts) \<longleftrightarrow>
       entitled (mem_abs (st_store st)) (userKey e u) res act)"
proof -
  let ?A = "mem_abs (st_store st)"
  have st: "good e mem_ok mem_abs lru_ok lru_holds st" by (rule local_run_good [OF assms(1,2)])
  have s: "mem_ok (st_store st)" by (rule goodD(1) [OF st])
  obtain roles where roles: "so_GetRoles mem_ops cx (userKey e u) (st_store st) = Inr roles"
    using mem.get_roles_live [OF s assms(3)] by blast
  note assigned = mem.get_roles [OF s roles]
  obtain st1 r where run: "permissionsFor e cx u st = (st1, r)" by force
  note perms = embedded.permissionsFor_good [OF assms(2) st run]
  obtain ps where ps: "r = Inr ps" using perms(5) assms(3,5) by blast
  obtain st2 version where ver: "currentPolicyVersion e cx st1 = (st2, version)" by force
  let ?v = "\<lparr>pv_UserID = u, pv_Roles = sort (unscopeRoles e roles),
     pv_Permissions = fmmap (\<lambda>actions. sort (map fst (filter snd (ranged cx actions)))) ps, pv_PolicyVersion = version\<rparr>"
  have "en_store e = mem_ops" using assms(2) by (simp add: runs_on_def)
  then have view: "snd (PermissionView e cx u st) = Inr ?v"
    using assms(5) roles run ps ver by (simp add: PermissionView_def Let_def)
  have own: "own (en_tenant e) k" if "k \<in> set roles" for k
    using that assigned local_run_separated [OF assms(1,2)] own_keys(2) unfolding separated_def by blast
  have "sorted_wrt (<) (pv_Roles ?v)"
    using strictly_sorted_sort [OF distinct_unscope [OF conjunct1 [OF assigned] own]] by (simp add: unscopeRoles_def)
  moreover have "n \<in> set (pv_Roles ?v) \<longleftrightarrow> (userKey e u, roleKey e n) |\<in>| ab_assign ?A" for n
  proof -
    have "n \<in> set (pv_Roles ?v) \<longleftrightarrow> (\<exists>k \<in> set roles. n = TrimPrefix k (en_tenant e @ tenantSep))"
      by (auto simp: unscopeRoles_def)
    also have "\<dots> \<longleftrightarrow> roleKey e n \<in> set roles"
    proof
      assume "\<exists>k \<in> set roles. n = TrimPrefix k (en_tenant e @ tenantSep)"
      then obtain k where "k \<in> set roles" "n = TrimPrefix k (en_tenant e @ tenantSep)" by blast
      then show "roleKey e n \<in> set roles" using roleKey_TrimPrefix [OF own] by simp
    next
      assume "roleKey e n \<in> set roles"
      then show "\<exists>k \<in> set roles. n = TrimPrefix k (en_tenant e @ tenantSep)"
        by (intro bexI [of _ "roleKey e n"]) simp_all
    qed
    finally have "n \<in> set (pv_Roles ?v) \<longleftrightarrow> roleKey e n \<in> set roles" .
    with assigned show ?thesis by blast
  qed
  moreover have "(\<exists>acts. fmlookup (pv_Permissions ?v) res = Some acts \<and> act \<in> set acts) \<longleftrightarrow> entitled ?A (userKey e u) res act" for res act
  proof -
    have "(\<exists>acts. fmlookup (pv_Permissions ?v) res = Some acts \<and> act \<in> set acts) \<longleftrightarrow> ps_get ps res act"
      by (force simp: ps_get_def set_ranged [OF assms(4)] split: option.split)
    with perms(4) [OF ps] show ?thesis by simp
  qed
  ultimately show ?thesis using view by (intro exI [of _ ?v]) simp
qed

theorem PermissionView_exact_witness:
  "\<exists>v. snd (PermissionView acme background ''bob'' acme_state) = Inr v \<and> pv_UserID v = ''bob'' \<and> sorted_wrt (<) (pv_Roles v)"
  using PermissionView_exact [OF acme_run acme_runs(1) background_Err fair_background acme_up, of "''bob''"] by blast

end
