(* ===== verification/Registry.thy ===== *)
theory Registry
  imports Model
begin

text \<open>
  The tenant registry of \<^verbatim>\<open>registry.go\<close>: a bounded cache of Enforcers that are created by a
  factory in a goroutine of their own, handed out under counted leases, and shut down once they are
  retired, provisioned and unleased.

  Each section the code runs under \<^verbatim>\<open>r.mu\<close> is one function on the state; the steps between such
  sections (the factory, the select of a waiting caller, the goroutine that shuts an Enforcer down)
  are functions of their own. The relation \<open>registry_step\<close> interleaves all of them freely.

  A pointer to a \<^verbatim>\<open>registryEntry\<close> is a number; \<open>rg_heap\<close> maps it to the entry and \<open>rg_next\<close> is the
  next free one. Time is an argument. The life of a channel is a flag: open or closed.
\<close>

subsection \<open>Data\<close>

text \<open>
  What the registry knows of an Enforcer: which object it is and the tenant it was built for. Whether
  it has been shut down is in \<open>rg_shut\<close>, the record of all shutdowns.
\<close>

record inst =
  inst_ref :: nat
  inst_tenant :: string

record registry_entry =
  re_ready :: bool
  re_finished :: bool
  re_ctx :: "err option"
  re_enf :: "inst option"
  re_err :: "err option"
  re_lastUsed :: int
  re_refs :: int
  re_retired :: bool
  re_closing :: bool

record registry_config =
  cf_capacity :: int
  cf_idleTTL :: int
  cf_factoryTimeout :: int

text \<open>
  The goroutines and callers: the provisioning of an entry (calling the factory for a tenant, about to
  publish the checked result, finished), its closing (about to shut the Enforcer down, about to take
  the lock again, finished), and a call of \<^verbatim>\<open>Acquire\<close> that waits, holds its lease or gave it back.
\<close>

datatype provisioning =
    Calling string
  | Checked string "inst option" "err option"
  | Provisioned string

datatype closer = Closing | ShutDown | Gone

datatype call =
    Waiting string nat
  | Holding string nat "inst option"
  | Released

record registry =
  rg_config :: registry_config
  rg_cache :: "(string, nat) fmap"
  rg_all :: "nat fset"
  rg_heap :: "nat \<Rightarrow> registry_entry"
  rg_next :: nat
  rg_cancelled :: bool
  rg_closed :: bool
  rg_stopped :: bool
  rg_prov :: "nat \<Rightarrow> provisioning option"
  rg_closer :: "nat \<Rightarrow> closer option"
  rg_calls :: "call list"
  rg_shut :: "nat list"
  rg_made :: "nat list"
  rg_panic :: bool

definition modify :: "nat \<Rightarrow> (registry_entry \<Rightarrow> registry_entry) \<Rightarrow> registry \<Rightarrow> registry" where
  "modify n f r = r\<lparr>rg_heap := (rg_heap r)(n := f (rg_heap r n))\<rparr>"

subsection \<open>Options and construction\<close>

type_synonym registry_option = "registry_config \<Rightarrow> err + registry_config"

definition WithRegistryCapacity :: "int \<Rightarrow> registry_option" where
  "WithRegistryCapacity capacity c =
     (if capacity < 0 then Inl (ErrConfig ''rbacgo: negative registry capacity'')
      else Inr (c\<lparr>cf_capacity := capacity\<rparr>))"

definition WithRegistryIdleTTL :: "int \<Rightarrow> registry_option" where
  "WithRegistryIdleTTL ttl c =
     (if ttl < 0 then Inl (ErrConfig ''rbacgo: negative idle TTL'') else Inr (c\<lparr>cf_idleTTL := ttl\<rparr>))"

definition WithRegistryFactoryTimeout :: "int \<Rightarrow> registry_option" where
  "WithRegistryFactoryTimeout timeout c =
     (if timeout < 0 then Inl (ErrConfig ''rbacgo: negative factory timeout'')
      else Inr (c\<lparr>cf_factoryTimeout := timeout\<rparr>))"

fun configure :: "registry_option list \<Rightarrow> registry_config \<Rightarrow> err + registry_config" where
  "configure [] c = Inr c"
| "configure (opt # opts) c = (case opt c of Inl er \<Rightarrow> Inl er | Inr c \<Rightarrow> configure opts c)"

definition new_entry :: registry_entry where
  "new_entry = \<lparr>re_ready = False, re_finished = False, re_ctx = None, re_enf = None, re_err = None,
     re_lastUsed = 0, re_refs = 0, re_retired = False, re_closing = False\<rparr>"

text \<open>An invalid option panics: no registry.\<close>

definition NewTenantRegistryContext :: "registry_option list \<Rightarrow> registry option" where
  "NewTenantRegistryContext opts =
     (case configure opts \<lparr>cf_capacity = 0, cf_idleTTL = 0, cf_factoryTimeout = 0\<rparr> of
        Inl er \<Rightarrow> None
      | Inr c \<Rightarrow> Some \<lparr>rg_config = c, rg_cache = fmempty, rg_all = {||}, rg_heap = (\<lambda>_. new_entry),
          rg_next = 0, rg_cancelled = False, rg_closed = False, rg_stopped = False,
          rg_prov = (\<lambda>_. None), rg_closer = (\<lambda>_. None), rg_calls = [], rg_shut = [], rg_made = [],
          rg_panic = False\<rparr>)"

subsection \<open>Retiring and closing an entry\<close>

text \<open>\<^verbatim>\<open>cancel()\<close>: the first cancellation or deadline decides what \<^verbatim>\<open>ctx.Err()\<close> says.\<close>

definition cancel :: "registry_entry \<Rightarrow> registry_entry" where
  "cancel e = (case re_ctx e of None \<Rightarrow> e\<lparr>re_ctx := Some Canceled\<rparr> | Some _ \<Rightarrow> e)"

definition entryReady :: "registry_entry \<Rightarrow> bool" where
  "entryReady e = re_ready e"

text \<open>The goroutine that \<^verbatim>\<open>finishLocked\<close> starts is \<open>rg_closer\<close>; it runs in the two steps below.\<close>

definition finishLocked :: "nat \<Rightarrow> registry \<Rightarrow> registry" where
  "finishLocked n r =
     (let e = rg_heap r n
      in if \<not> re_retired e \<or> re_refs e \<noteq> 0 \<or> \<not> entryReady e \<or> re_closing e then r
         else (modify n (\<lambda>e. e\<lparr>re_closing := True\<rparr>) r)\<lparr>rg_closer := (rg_closer r)(n \<mapsto> Closing)\<rparr>)"

definition retireLocked :: "nat \<Rightarrow> registry \<Rightarrow> registry" where
  "retireLocked n r = finishLocked n (modify n (\<lambda>e. cancel (e\<lparr>re_retired := True\<rparr>)) r)"

definition signalStoppedLocked :: "registry \<Rightarrow> registry" where
  "signalStoppedLocked r = (if rg_closed r \<and> rg_all r = {||} then r\<lparr>rg_stopped := True\<rparr> else r)"

definition closeEnforcer :: "nat \<Rightarrow> registry \<Rightarrow> registry" where
  "closeEnforcer n r =
     (let r = r\<lparr>rg_closer := (rg_closer r)(n \<mapsto> ShutDown)\<rparr>
      in case re_enf (rg_heap r n) of None \<Rightarrow> r | Some i \<Rightarrow> r\<lparr>rg_shut := rg_shut r @ [inst_ref i]\<rparr>)"

text \<open>Closing a closed channel panics.\<close>

definition entryFinished :: "nat \<Rightarrow> registry \<Rightarrow> registry" where
  "entryFinished n r =
     (let r = r\<lparr>rg_all := rg_all r |-| {|n|}, rg_closer := (rg_closer r)(n \<mapsto> Gone)\<rparr>;
          r = r\<lparr>rg_panic := rg_panic r \<or> re_finished (rg_heap r n)\<rparr>
      in signalStoppedLocked (modify n (\<lambda>e. e\<lparr>re_finished := True\<rparr>) r))"

subsection \<open>Acquiring a lease\<close>

text \<open>
  The eviction scan ranges over the cache in the order the runtime chooses, \<open>order\<close>: among the
  provisioned entries without a lease the first of those unused for longest.
\<close>

fun oldestEntry :: "(nat \<Rightarrow> registry_entry) \<Rightarrow> (string \<times> nat) list \<Rightarrow> (string \<times> nat) option \<Rightarrow> (string \<times> nat) option" where
  "oldestEntry h [] oldest = oldest"
| "oldestEntry h ((name, n) # order) oldest =
     (if re_refs (h n) \<noteq> 0 \<or> \<not> entryReady (h n) then oldestEntry h order oldest
      else case oldest of
          None \<Rightarrow> oldestEntry h order (Some (name, n))
        | Some (_, m) \<Rightarrow>
            oldestEntry h order (if re_lastUsed (h n) < re_lastUsed (h m) then Some (name, n) else oldest))"

definition makeRoom :: "(string \<times> nat) list \<Rightarrow> registry \<Rightarrow> err + registry" where
  "makeRoom order r =
     (if cf_capacity (rg_config r) > 0 \<and> int (fcard (fmdom (rg_cache r))) \<ge> cf_capacity (rg_config r)
      then case oldestEntry (rg_heap r) order None of
          None \<Rightarrow> Inl ErrTenantCapacity
        | Some (name, n) \<Rightarrow> Inr (retireLocked n (r\<lparr>rg_cache := fmdrop name (rg_cache r)\<rparr>))
      else Inr r)"

definition newEntry :: "string \<Rightarrow> registry \<Rightarrow> nat \<times> registry" where
  "newEntry tenant r =
     (let n = rg_next r;
          e = new_entry\<lparr>re_ctx := (if rg_cancelled r then Some Canceled else None)\<rparr>
      in (n, r\<lparr>rg_heap := (rg_heap r)(n := e), rg_next := n + 1,
           rg_cache := fmupd tenant n (rg_cache r), rg_all := finsert n (rg_all r),
           rg_prov := (rg_prov r)(n \<mapsto> Calling tenant)\<rparr>))"

definition lease :: "int \<Rightarrow> string \<Rightarrow> nat \<Rightarrow> registry \<Rightarrow> registry" where
  "lease now tenant n r =
     (modify n (\<lambda>e. e\<lparr>re_refs := re_refs e + 1, re_lastUsed := now\<rparr>) r)\<lparr>rg_calls := rg_calls r @ [Waiting tenant n]\<rparr>"

definition acquireLocked ::
  "(string \<times> nat) list \<Rightarrow> int \<Rightarrow> err option \<Rightarrow> string \<Rightarrow> registry \<Rightarrow> registry \<times> (err + nat)" where
  "acquireLocked order now ctxErr tenant r =
     (case ctxErr of
        Some er \<Rightarrow> (r, Inl er)
      | None \<Rightarrow>
          if rg_closed r then (r, Inl ErrRegistryClosed)
          else case fmlookup (rg_cache r) tenant of
              Some n \<Rightarrow> (lease now tenant n r, Inr n)
            | None \<Rightarrow>
                (case makeRoom order r of
                   Inl er \<Rightarrow> (r, Inl er)
                 | Inr r \<Rightarrow> let (n, r) = newEntry tenant r in (lease now tenant n r, Inr n)))"

text \<open>\<^verbatim>\<open>release\<close>: the \<^verbatim>\<open>sync.Once\<close> of call \<open>t\<close> is its phase.\<close>

definition giveBack :: "nat \<Rightarrow> int \<Rightarrow> nat \<Rightarrow> registry \<Rightarrow> registry" where
  "giveBack t now n r =
     (finishLocked n (modify n (\<lambda>e. e\<lparr>re_refs := re_refs e - 1, re_lastUsed := now\<rparr>)
        (r\<lparr>rg_calls := (rg_calls r)[t := Released]\<rparr>)))"

definition release :: "nat \<Rightarrow> int \<Rightarrow> registry \<Rightarrow> registry" where
  "release t now r =
     (case rg_calls r ! t of
        Waiting _ n \<Rightarrow> giveBack t now n r
      | Holding _ n _ \<Rightarrow> giveBack t now n r
      | Released \<Rightarrow> r)"

text \<open>
  The select of a waiting call. \<open>Select\<close> names the case taken: the caller's context is done (with
  this error), the entry's context is done, the entry is ready. In the last two the caller's context
  is read again: \<open>ctxErr\<close>.
\<close>

datatype select = CallerDone err | EntryDone | EntryReady

definition selectable :: "select \<Rightarrow> registry_entry \<Rightarrow> bool" where
  "selectable s e = (case s of CallerDone _ \<Rightarrow> True | EntryDone \<Rightarrow> re_ctx e \<noteq> None | EntryReady \<Rightarrow> entryReady e)"

definition readyResult :: "registry_entry \<Rightarrow> err option \<Rightarrow> err + inst option" where
  "readyResult e ctxErr =
     (case re_err e of
        Some er \<Rightarrow> Inl er
      | None \<Rightarrow> (case ctxErr of Some er \<Rightarrow> Inl er | None \<Rightarrow> Inr (re_enf e)))"

definition acquireResult :: "select \<Rightarrow> registry_entry \<Rightarrow> err option \<Rightarrow> err + inst option" where
  "acquireResult s e ctxErr =
     (case s of
        CallerDone er \<Rightarrow> Inl er
      | EntryDone \<Rightarrow> if entryReady e then readyResult e ctxErr else Inl (the (re_ctx e))
      | EntryReady \<Rightarrow> readyResult e ctxErr)"

definition acquireReturn :: "nat \<Rightarrow> select \<Rightarrow> int \<Rightarrow> err option \<Rightarrow> registry \<Rightarrow> registry" where
  "acquireReturn t s now ctxErr r =
     (case rg_calls r ! t of
        Waiting tenant n \<Rightarrow>
          (case acquireResult s (rg_heap r n) ctxErr of
             Inl er \<Rightarrow> release t now r
           | Inr i \<Rightarrow> r\<lparr>rg_calls := (rg_calls r)[t := Holding tenant n i]\<rparr>)
      | _ \<Rightarrow> r)"

subsection \<open>Provisioning\<close>

text \<open>
  The result of the factory, which may panic, is checked outside the lock; an Enforcer that is not
  accepted is shut down there. A second step publishes the outcome.
\<close>

datatype factory_result = Returned "inst option" "err option" | Panicked

definition provisionCheck :: "nat \<Rightarrow> factory_result \<Rightarrow> registry \<Rightarrow> registry" where
  "provisionCheck n res r =
     (case rg_prov r n of
        Some (Calling tenant) \<Rightarrow>
          (let (enf, err) = (case res of Returned enf err \<Rightarrow> (enf, err) | Panicked \<Rightarrow> (None, Some ErrTenantFactory));
               err = (case err of None \<Rightarrow> re_ctx (rg_heap r n) | Some _ \<Rightarrow> err);
               bad = (case enf of None \<Rightarrow> True | Some i \<Rightarrow> inst_tenant i \<noteq> tenant \<or> inst_ref i \<in> set (rg_shut r));
               err = (if err = None \<and> bad then Some ErrTenantFactory else err)
           in case (err, enf) of
               (Some _, Some i) \<Rightarrow>
                 r\<lparr>rg_shut := rg_shut r @ [inst_ref i], rg_prov := (rg_prov r)(n \<mapsto> Checked tenant None err)\<rparr>
             | _ \<Rightarrow> r\<lparr>rg_prov := (rg_prov r)(n \<mapsto> Checked tenant enf err)\<rparr>)
      | _ \<Rightarrow> r)"

definition provisionDone :: "nat \<Rightarrow> registry \<Rightarrow> registry" where
  "provisionDone n r =
     (case rg_prov r n of
        Some (Checked tenant enf err) \<Rightarrow>
          (let r = r\<lparr>rg_prov := (rg_prov r)(n \<mapsto> Provisioned tenant), rg_panic := rg_panic r \<or> re_ready (rg_heap r n)\<rparr>
           in finishLocked n (modify n (\<lambda>e. cancel (e\<lparr>re_enf := enf, re_err := err, re_ready := True\<rparr>)) r))
      | _ \<Rightarrow> r)"

subsection \<open>Clearing, evicting, shutting down\<close>

text \<open>\<open>order\<close> is the order in which the loop ranges over the cache, or over \<^verbatim>\<open>r.all\<close>.\<close>

definition Clear :: "registry \<Rightarrow> registry" where
  "Clear r = r\<lparr>rg_all := rg_all r |-| fmran (rg_cache r), rg_cache := fmempty\<rparr>"

definition Len :: "registry \<Rightarrow> nat" where
  "Len r = fcard (fmdom (rg_cache r))"

definition evictLocked :: "string \<Rightarrow> registry \<Rightarrow> registry \<times> nat option" where
  "evictLocked tenant r =
     (case fmlookup (rg_cache r) tenant of
        None \<Rightarrow> (r, None)
      | Some n \<Rightarrow> (retireLocked n (r\<lparr>rg_cache := fmdrop tenant (rg_cache r)\<rparr>), Some n))"

definition clearLocked :: "(string \<times> nat) list \<Rightarrow> registry \<Rightarrow> registry" where
  "clearLocked order r = fold retireLocked (map snd order) (r\<lparr>rg_cache := fmempty\<rparr>)"

definition shutdownLocked :: "nat list \<Rightarrow> registry \<Rightarrow> registry" where
  "shutdownLocked order r =
     signalStoppedLocked (fold retireLocked order
       (r\<lparr>rg_closed := True, rg_cancelled := True, rg_heap := cancel \<circ> rg_heap r, rg_cache := fmempty\<rparr>))"

text \<open>The waits: \<^verbatim>\<open>EvictContext\<close> and \<^verbatim>\<open>Shutdown\<close> return when the channel is closed or their context is done.\<close>

definition EvictContext_returns :: "registry \<Rightarrow> nat option \<Rightarrow> err option \<Rightarrow> bool \<Rightarrow> err option \<Rightarrow> bool" where
  "EvictContext_returns r found ctxErr ok err =
     (case found of
        None \<Rightarrow> \<not> ok \<and> err = None
      | Some n \<Rightarrow> ok \<and> (err = None \<and> re_finished (rg_heap r n) \<or> err \<noteq> None \<and> err = ctxErr))"

definition Shutdown_returns :: "registry \<Rightarrow> err option \<Rightarrow> err option \<Rightarrow> bool" where
  "Shutdown_returns r ctxErr err = (err = None \<and> rg_stopped r \<or> err \<noteq> None \<and> err = ctxErr)"

text \<open>\<^verbatim>\<open>Evict\<close> waits without a deadline; \<^verbatim>\<open>ClearAndCloseContext\<close> waits for one entry after the other.\<close>

definition Evict_returns :: "registry \<Rightarrow> nat option \<Rightarrow> bool \<Rightarrow> bool" where
  "Evict_returns r found ok = EvictContext_returns r found None ok None"

fun ClearAndClose_returns :: "registry \<Rightarrow> nat list \<Rightarrow> err option \<Rightarrow> err option \<Rightarrow> bool" where
  "ClearAndClose_returns r [] ctxErr err = (err = None)"
| "ClearAndClose_returns r (n # entries) ctxErr err =
     (re_finished (rg_heap r n) \<and> ClearAndClose_returns r entries ctxErr err \<or> err \<noteq> None \<and> err = ctxErr)"

text \<open>\<^verbatim>\<open>GetContext\<close> gives its lease back before it returns the Enforcer.\<close>

definition GetContext_returns ::
  "nat \<Rightarrow> nat \<Rightarrow> select \<Rightarrow> int \<Rightarrow> err option \<Rightarrow> registry \<Rightarrow> registry \<times> (err + inst option)" where
  "GetContext_returns t n s now ctxErr r =
     (let acquired = acquireReturn t s now ctxErr r; e = acquireResult s (rg_heap r n) ctxErr
      in (case e of Inl er \<Rightarrow> acquired | Inr i \<Rightarrow> release t now acquired, e))"

definition idle :: "int \<Rightarrow> registry_config \<Rightarrow> registry_entry \<Rightarrow> bool" where
  "idle now c e \<longleftrightarrow> re_refs e = 0 \<and> entryReady e \<and> now - re_lastUsed e \<ge> cf_idleTTL c"

fun pruneLoop :: "int \<Rightarrow> (string \<times> nat) list \<Rightarrow> registry \<times> nat \<Rightarrow> registry \<times> nat" where
  "pruneLoop now [] (r, removed) = (r, removed)"
| "pruneLoop now ((name, n) # order) (r, removed) =
     (if idle now (rg_config r) (rg_heap r n)
      then pruneLoop now order (retireLocked n (r\<lparr>rg_cache := fmdrop name (rg_cache r)\<rparr>), removed + 1)
      else pruneLoop now order (r, removed))"

definition PruneIdle :: "(string \<times> nat) list \<Rightarrow> int \<Rightarrow> registry \<Rightarrow> registry \<times> nat" where
  "PruneIdle order now r =
     (if cf_idleTTL (rg_config r) \<le> 0 \<or> rg_closed r then (r, 0) else pruneLoop now order (r, 0))"

text \<open>The period of the janitor, in nanoseconds: half the TTL, at least a millisecond, at most a minute.\<close>

definition reapInterval :: "registry_config \<Rightarrow> int" where
  "reapInterval c = min 60000000000 (max 1000000 (cf_idleTTL c div 2))"

subsection \<open>Steps\<close>

text \<open>
  Everything that can happen, in any order. The factory makes an Enforcer of its own for every call
  (the documented contract: independently owned Enforcers), possibly one that the application shut
  down already. A factory context with a timeout may expire at any time.
\<close>

definition ranges :: "('k \<times> 'v) list \<Rightarrow> ('k, 'v) fmap \<Rightarrow> bool" where
  "ranges order m \<longleftrightarrow> distinct (map fst order) \<and> fmap_of_list order = m"

definition factory_makes :: "factory_result \<Rightarrow> bool \<Rightarrow> registry \<Rightarrow> registry" where
  "factory_makes res down r =
     (case res of
        Returned (Some i) _ \<Rightarrow>
          r\<lparr>rg_made := rg_made r @ [inst_ref i], rg_shut := rg_shut r @ (if down then [inst_ref i] else [])\<rparr>
      | _ \<Rightarrow> r)"

definition own_result :: "factory_result \<Rightarrow> registry \<Rightarrow> bool" where
  "own_result res r = (case res of Returned (Some i) _ \<Rightarrow> inst_ref i \<notin> set (rg_made r) | _ \<Rightarrow> True)"

inductive background_step :: "registry \<Rightarrow> registry \<Rightarrow> bool" where
  factory: "rg_prov r n = Some (Calling tenant) \<Longrightarrow> own_result res r \<Longrightarrow>
     background_step r (provisionCheck n res (factory_makes res down r))"
| provisioned: "rg_prov r n = Some (Checked tenant enf err) \<Longrightarrow> background_step r (provisionDone n r)"
| closing: "rg_closer r n = Some Closing \<Longrightarrow> background_step r (closeEnforcer n r)"
| closed: "rg_closer r n = Some ShutDown \<Longrightarrow> background_step r (entryFinished n r)"
| returned: "t < length (rg_calls r) \<Longrightarrow> rg_calls r ! t = Waiting tenant n \<Longrightarrow> selectable s (rg_heap r n) \<Longrightarrow>
     background_step r (acquireReturn t s now ctxErr r)"
| released: "t < length (rg_calls r) \<Longrightarrow> rg_calls r ! t = Holding tenant n i \<Longrightarrow>
     background_step r (release t now r)"

inductive registry_step :: "registry \<Rightarrow> registry \<Rightarrow> bool" where
  background: "background_step r r' \<Longrightarrow> registry_step r r'"
| again: "t < length (rg_calls r) \<Longrightarrow> rg_calls r ! t = Released \<Longrightarrow> registry_step r (release t now r)"
| acquire: "ranges order (rg_cache r) \<Longrightarrow> registry_step r (fst (acquireLocked order now ctxErr tenant r))"
| clear: "registry_step r (Clear r)"
| evict: "registry_step r (fst (evictLocked tenant r))"
| clear_and_close: "ranges order (rg_cache r) \<Longrightarrow> registry_step r (clearLocked order r)"
| shutdown: "distinct order \<Longrightarrow> fset_of_list order = rg_all r \<Longrightarrow> registry_step r (shutdownLocked order r)"
| prune: "ranges order (rg_cache r) \<Longrightarrow> registry_step r (fst (PruneIdle order now r))"
| expire: "cf_factoryTimeout (rg_config r) > 0 \<Longrightarrow> n < rg_next r \<Longrightarrow> re_ctx (rg_heap r n) = None \<Longrightarrow>
     registry_step r (modify n (\<lambda>e. e\<lparr>re_ctx := Some DeadlineExceeded\<rparr>) r)"

inductive registry_run :: "registry \<Rightarrow> bool" where
  start: "NewTenantRegistryContext opts = Some r \<Longrightarrow> registry_run r"
| step: "registry_run r \<Longrightarrow> registry_step r r' \<Longrightarrow> registry_run r'"

end
