(* ===== verification/RegistryLeases.thy ===== *)
theory RegistryLeases
  imports Registry
begin

text \<open>
  The invariant of the tenant registry and what follows from it: leases are counted, an Enforcer
  under a lease is never shut down by the registry, no channel is closed twice, the capacity bounds
  the cache, and a shut down registry can always drain.
\<close>

subsection \<open>The invariant\<close>

fun call_entry :: "call \<Rightarrow> nat option" where
  "call_entry (Waiting _ n) = Some n"
| "call_entry (Holding _ n _) = Some n"
| "call_entry Released = None"

definition leases :: "registry \<Rightarrow> nat \<Rightarrow> int" where
  "leases r n = int (length (filter (\<lambda>c. call_entry c = Some n) (rg_calls r)))"

fun prov_tenant :: "provisioning \<Rightarrow> string" where
  "prov_tenant (Calling t) = t"
| "prov_tenant (Checked t _ _) = t"
| "prov_tenant (Provisioned t) = t"

text \<open>An outcome is an Enforcer of the tenant, or an error and no Enforcer.\<close>

definition provided :: "string \<Rightarrow> inst option \<Rightarrow> err option \<Rightarrow> bool" where
  "provided t i er \<longleftrightarrow> (er = None \<longrightarrow> i \<noteq> None \<and> inst_tenant (the i) = t) \<and> (er \<noteq> None \<longrightarrow> i = None)"

definition prov_ok :: "provisioning option \<Rightarrow> registry_entry \<Rightarrow> bool" where
  "prov_ok p e \<longleftrightarrow>
     (case p of
        Some (Checked t i er) \<Rightarrow> \<not> re_ready e \<and> provided t i er
      | Some (Provisioned t) \<Rightarrow> re_ready e \<and> provided t (re_enf e) (re_err e)
      | _ \<Rightarrow> \<not> re_ready e)"

definition closer_ok :: "closer option \<Rightarrow> registry_entry \<Rightarrow> bool" where
  "closer_ok c e \<longleftrightarrow>
     (re_closing e \<longleftrightarrow> c \<noteq> None) \<and> (re_finished e \<longleftrightarrow> c = Some Gone) \<and>
     (re_closing e \<longrightarrow> re_retired e \<and> re_ready e \<and> re_refs e = 0) \<and>
     (re_retired e \<longrightarrow> re_ctx e \<noteq> None)"

definition drained :: "registry_entry \<Rightarrow> bool" where
  "drained e \<longleftrightarrow> re_retired e \<and> re_ready e \<and> re_refs e = 0"

text \<open>
  The entries in \<open>X\<close> are in the middle of a lock section: drained and not yet closing, or out of the
  cache and not yet retired.
\<close>

definition entry_ok :: "nat set \<Rightarrow> registry \<Rightarrow> nat \<Rightarrow> bool" where
  "entry_ok X r n \<longleftrightarrow>
     (let e = rg_heap r n in
       prov_ok (rg_prov r n) e \<and> closer_ok (rg_closer r n) e \<and> re_refs e = leases r n \<and>
       (rg_prov r n = None \<longleftrightarrow> rg_next r \<le> n) \<and>
       (rg_next r \<le> n \<longrightarrow> \<not> re_retired e \<and> n |\<notin>| rg_all r) \<and>
       (drained e \<longrightarrow> re_closing e \<or> n \<in> X) \<and>
       (n |\<in>| rg_all r \<longrightarrow> re_retired e \<or> n |\<in>| fmran (rg_cache r) \<or> n \<in> X) \<and>
       (n |\<in>| fmran (rg_cache r) \<longrightarrow> \<not> re_retired e \<and> n |\<in>| rg_all r) \<and>
       (re_retired e \<and> \<not> re_finished e \<longrightarrow> n |\<in>| rg_all r) \<and> (re_finished e \<longrightarrow> n |\<notin>| rg_all r))"

definition entries_ok :: "nat set \<Rightarrow> registry \<Rightarrow> bool" where
  "entries_ok X r \<longleftrightarrow> (\<forall>n. entry_ok X r n)"

definition call_ok :: "registry \<Rightarrow> call \<Rightarrow> bool" where
  "call_ok r c \<longleftrightarrow>
     (case c of
        Waiting t n \<Rightarrow> map_option prov_tenant (rg_prov r n) = Some t
      | Holding t n i \<Rightarrow> map_option prov_tenant (rg_prov r n) = Some t \<and> re_ready (rg_heap r n) \<and>
          re_err (rg_heap r n) = None \<and> i = re_enf (rg_heap r n)
      | Released \<Rightarrow> True)"

definition cache_ok :: "registry \<Rightarrow> bool" where
  "cache_ok r \<longleftrightarrow>
     (\<forall>t n. fmlookup (rg_cache r) t = Some n \<longrightarrow> map_option prov_tenant (rg_prov r n) = Some t) \<and>
     (0 < cf_capacity (rg_config r) \<longrightarrow> int (fcard (fmdom (rg_cache r))) \<le> cf_capacity (rg_config r))"

definition closed_ok :: "registry \<Rightarrow> bool" where
  "closed_ok r \<longleftrightarrow>
     (rg_closed r \<longrightarrow> rg_cache r = fmempty) \<and> (rg_cancelled r \<longleftrightarrow> rg_closed r) \<and>
     (rg_stopped r \<longrightarrow> rg_closed r \<and> rg_all r = {||})"

definition signalled :: "registry \<Rightarrow> bool" where
  "signalled r \<longleftrightarrow> (rg_closed r \<and> rg_all r = {||} \<longrightarrow> rg_stopped r)"

text \<open>The Enforcer an entry is responsible for.\<close>

definition owned :: "registry \<Rightarrow> nat \<Rightarrow> nat option" where
  "owned r n =
     (case rg_prov r n of
        Some (Checked t i er) \<Rightarrow> map_option inst_ref i
      | Some (Provisioned t) \<Rightarrow> map_option inst_ref (re_enf (rg_heap r n))
      | _ \<Rightarrow> None)"

definition shut_by :: "closer option \<Rightarrow> bool" where
  "shut_by c \<longleftrightarrow> c = Some ShutDown \<or> c = Some Gone"

definition insts_ok :: "registry \<Rightarrow> bool" where
  "insts_ok r \<longleftrightarrow>
     (\<forall>n i. owned r n = Some i \<longrightarrow> i \<in> set (rg_made r) \<and> (i \<in> set (rg_shut r) \<longleftrightarrow> shut_by (rg_closer r n)) \<and>
        (\<forall>m. owned r m = Some i \<longrightarrow> m = n)) \<and>
     set (rg_shut r) \<subseteq> set (rg_made r)"

definition registry_ok :: "nat set \<Rightarrow> registry \<Rightarrow> bool" where
  "registry_ok X r \<longleftrightarrow> entries_ok X r \<and> (\<forall>c \<in> set (rg_calls r). call_ok r c) \<and> cache_ok r \<and> closed_ok r \<and>
     insts_ok r \<and> \<not> rg_panic r"

subsection \<open>What retiring leaves alone\<close>

lemma modify_sel [simp]:
  "rg_heap (modify n f r) m = (if m = n then f (rg_heap r n) else rg_heap r m)"
  "rg_config (modify n f r) = rg_config r" "rg_cache (modify n f r) = rg_cache r"
  "rg_all (modify n f r) = rg_all r" "rg_next (modify n f r) = rg_next r"
  "rg_cancelled (modify n f r) = rg_cancelled r" "rg_closed (modify n f r) = rg_closed r"
  "rg_stopped (modify n f r) = rg_stopped r" "rg_prov (modify n f r) = rg_prov r"
  "rg_closer (modify n f r) = rg_closer r" "rg_calls (modify n f r) = rg_calls r"
  "rg_shut (modify n f r) = rg_shut r" "rg_made (modify n f r) = rg_made r"
  "rg_panic (modify n f r) = rg_panic r"
  by (simp_all add: modify_def)

lemma cancel_sel [simp]:
  "re_ready (cancel e) = re_ready e" "re_finished (cancel e) = re_finished e"
  "re_enf (cancel e) = re_enf e" "re_err (cancel e) = re_err e" "re_lastUsed (cancel e) = re_lastUsed e"
  "re_refs (cancel e) = re_refs e" "re_retired (cancel e) = re_retired e"
  "re_closing (cancel e) = re_closing e" "\<exists>er. re_ctx (cancel e) = Some er"
  "re_ctx e = Some er \<Longrightarrow> re_ctx (cancel e) = Some er"
  by (auto simp: cancel_def split: option.splits)

lemma finishLocked_sel [simp]:
  "re_ready (rg_heap (finishLocked n r) m) = re_ready (rg_heap r m)"
  "re_finished (rg_heap (finishLocked n r) m) = re_finished (rg_heap r m)"
  "re_ctx (rg_heap (finishLocked n r) m) = re_ctx (rg_heap r m)"
  "re_enf (rg_heap (finishLocked n r) m) = re_enf (rg_heap r m)"
  "re_err (rg_heap (finishLocked n r) m) = re_err (rg_heap r m)"
  "re_lastUsed (rg_heap (finishLocked n r) m) = re_lastUsed (rg_heap r m)"
  "re_refs (rg_heap (finishLocked n r) m) = re_refs (rg_heap r m)"
  "re_retired (rg_heap (finishLocked n r) m) = re_retired (rg_heap r m)"
  "rg_config (finishLocked n r) = rg_config r" "rg_cache (finishLocked n r) = rg_cache r"
  "rg_all (finishLocked n r) = rg_all r" "rg_next (finishLocked n r) = rg_next r"
  "rg_cancelled (finishLocked n r) = rg_cancelled r" "rg_closed (finishLocked n r) = rg_closed r"
  "rg_stopped (finishLocked n r) = rg_stopped r" "rg_prov (finishLocked n r) = rg_prov r"
  "rg_calls (finishLocked n r) = rg_calls r" "rg_shut (finishLocked n r) = rg_shut r"
  "rg_made (finishLocked n r) = rg_made r" "rg_panic (finishLocked n r) = rg_panic r"
  by (simp_all add: finishLocked_def Let_def)

lemma finishLocked_closing:
  "re_closing (rg_heap (finishLocked n r) m) \<longleftrightarrow> re_closing (rg_heap r m) \<or> m = n \<and> drained (rg_heap r n)"
  by (auto simp: finishLocked_def Let_def drained_def entryReady_def)

lemma finishLocked_closer:
  "rg_closer (finishLocked n r) =
     (if drained (rg_heap r n) \<and> \<not> re_closing (rg_heap r n) then (rg_closer r)(n \<mapsto> Closing) else rg_closer r)"
  by (auto simp: finishLocked_def Let_def drained_def entryReady_def)

lemma retireLocked_sel [simp]:
  "re_ready (rg_heap (retireLocked n r) m) = re_ready (rg_heap r m)"
  "re_finished (rg_heap (retireLocked n r) m) = re_finished (rg_heap r m)"
  "re_enf (rg_heap (retireLocked n r) m) = re_enf (rg_heap r m)"
  "re_err (rg_heap (retireLocked n r) m) = re_err (rg_heap r m)"
  "re_lastUsed (rg_heap (retireLocked n r) m) = re_lastUsed (rg_heap r m)"
  "re_refs (rg_heap (retireLocked n r) m) = re_refs (rg_heap r m)"
  "re_retired (rg_heap (retireLocked n r) m) \<longleftrightarrow> m = n \<or> re_retired (rg_heap r m)"
  "rg_config (retireLocked n r) = rg_config r" "rg_cache (retireLocked n r) = rg_cache r"
  "rg_all (retireLocked n r) = rg_all r" "rg_next (retireLocked n r) = rg_next r"
  "rg_cancelled (retireLocked n r) = rg_cancelled r" "rg_closed (retireLocked n r) = rg_closed r"
  "rg_stopped (retireLocked n r) = rg_stopped r" "rg_prov (retireLocked n r) = rg_prov r"
  "rg_calls (retireLocked n r) = rg_calls r" "rg_shut (retireLocked n r) = rg_shut r"
  "rg_made (retireLocked n r) = rg_made r" "rg_panic (retireLocked n r) = rg_panic r"
  by (simp_all add: retireLocked_def)

lemmas entry_defs = entry_ok_def entries_ok_def leases_def prov_ok_def closer_ok_def drained_def

text \<open>\<open>finishLocked\<close> starts the closing of a drained entry, and so ends its exception.\<close>

lemma finishLocked_ok:
  assumes "registry_ok (insert n X) r" and "n \<notin> X \<Longrightarrow> n |\<in>| rg_all r \<Longrightarrow> re_retired (rg_heap r n) \<or> n |\<in>| fmran (rg_cache r)"
  shows "registry_ok X (finishLocked n r)"
proof -
  note ok = assms(1) [unfolded registry_ok_def]
  have "entry_ok X (finishLocked n r) m" for m
  proof -
    have "entry_ok (insert n X) r m" using ok by (simp add: entries_ok_def)
    then show ?thesis
      using assms(2) by (cases "m = n") (auto simp: entry_ok_def Let_def finishLocked_closing finishLocked_closer leases_def prov_ok_def
          closer_ok_def drained_def split: option.splits provisioning.splits)
  qed
  moreover have "insts_ok (finishLocked n r)"
  proof -
    have "shut_by (rg_closer (finishLocked n r) m) = shut_by (rg_closer r m)" for m
    proof -
      have "entry_ok (insert n X) r n" using ok by (simp add: entries_ok_def)
      then show ?thesis by (auto simp: finishLocked_closer shut_by_def entry_ok_def Let_def closer_ok_def)
    qed
    moreover have "owned (finishLocked n r) = owned r"
      by (rule ext) (simp add: owned_def split: option.split provisioning.split)
    ultimately show ?thesis using ok by (simp add: insts_ok_def)
  qed
  ultimately show ?thesis
    using ok by (auto simp: registry_ok_def entries_ok_def call_ok_def cache_ok_def closed_ok_def split: call.splits)
qed

lemma registry_okD:
  assumes "registry_ok X r"
  shows "entry_ok X r n" "c \<in> set (rg_calls r) \<Longrightarrow> call_ok r c" "cache_ok r" "closed_ok r" "insts_ok r" "\<not> rg_panic r"
  using assms by (simp_all add: registry_ok_def entries_ok_def)

lemma registry_ok_mono: "registry_ok X r \<Longrightarrow> X \<subseteq> Y \<Longrightarrow> registry_ok Y r"
  by (auto simp: registry_ok_def entries_ok_def entry_ok_def Let_def)

lemma owned_cong: "rg_prov r' = rg_prov r \<Longrightarrow> (\<And>m. re_enf (rg_heap r' m) = re_enf (rg_heap r m)) \<Longrightarrow> owned r' = owned r"
  by (rule ext) (simp add: owned_def split: option.split provisioning.split)

lemma leases_cong: "rg_calls r' = rg_calls r \<Longrightarrow> leases r' n = leases r n"
  by (simp add: leases_def)

lemma leases_modify [simp]: "leases (modify n f r) m = leases r m"
  by (rule leases_cong) simp

lemma call_ok_cong:
  "rg_prov r' = rg_prov r \<Longrightarrow> (\<And>m. re_enf (rg_heap r' m) = re_enf (rg_heap r m)) \<Longrightarrow>
   (\<And>m. re_err (rg_heap r' m) = re_err (rg_heap r m)) \<Longrightarrow> (\<And>m. re_ready (rg_heap r' m) = re_ready (rg_heap r m)) \<Longrightarrow>
   call_ok r' = call_ok r"
  by (rule ext) (simp add: call_ok_def split: call.split)

lemma prov_ok_upd [simp]:
  "prov_ok p (e\<lparr>re_refs := k\<rparr>) = prov_ok p e" "prov_ok p (e\<lparr>re_lastUsed := i\<rparr>) = prov_ok p e"
  "prov_ok p (e\<lparr>re_finished := b\<rparr>) = prov_ok p e" "prov_ok p (e\<lparr>re_ctx := c\<rparr>) = prov_ok p e"
  "prov_ok p (e\<lparr>re_retired := b\<rparr>) = prov_ok p e" "prov_ok p (cancel e) = prov_ok p e"
  by (simp_all add: prov_ok_def split: option.split provisioning.split)

lemma registry_okI:
  assumes "\<And>n. entry_ok X r n" and "\<And>c. c \<in> set (rg_calls r) \<Longrightarrow> call_ok r c" and "cache_ok r" and "closed_ok r"
    and "insts_ok r" and "\<not> rg_panic r"
  shows "registry_ok X r"
  using assms by (simp add: registry_ok_def entries_ok_def)

lemma owned_modify:
  "(\<And>e. re_enf (f e) = re_enf e) \<Longrightarrow> owned (modify n f r) m = owned r m"
  by (simp add: owned_def split: option.split provisioning.split)

lemma retireLocked_ok:
  assumes "registry_ok (insert n X) r" and "n |\<in>| rg_all r" and "n |\<notin>| fmran (rg_cache r)"
  shows "registry_ok X (retireLocked n r)"
proof -
  let ?r = "modify n (\<lambda>e. cancel (e\<lparr>re_retired := True\<rparr>)) r"
  note ok = assms(1) [unfolded registry_ok_def]
  have "entry_ok (insert n X) ?r m" for m
  proof -
    have e: "entry_ok (insert n X) r m" using ok by (simp add: entries_ok_def)
    show ?thesis
    proof (cases "m = n")
      case False
      with e show ?thesis by (simp add: entry_ok_def Let_def)
    next
      case True
      with e assms(2,3) show ?thesis
        by (auto simp: entry_ok_def Let_def prov_ok_def closer_ok_def split: option.splits provisioning.splits)
    qed
  qed
  moreover have "insts_ok ?r"
    using ok by (simp add: insts_ok_def owned_modify)
  ultimately have "registry_ok (insert n X) ?r"
    using ok by (auto simp: registry_ok_def entries_ok_def call_ok_def cache_ok_def closed_ok_def split: call.splits)
  then show ?thesis
    unfolding retireLocked_def by (rule finishLocked_ok) simp
qed

lemma retire_fold_sel [simp]:
  "rg_config (fold retireLocked ns r) = rg_config r" "rg_cache (fold retireLocked ns r) = rg_cache r"
  "rg_all (fold retireLocked ns r) = rg_all r" "rg_closed (fold retireLocked ns r) = rg_closed r"
  "rg_stopped (fold retireLocked ns r) = rg_stopped r" "rg_prov (fold retireLocked ns r) = rg_prov r"
  "rg_calls (fold retireLocked ns r) = rg_calls r" "rg_cancelled (fold retireLocked ns r) = rg_cancelled r"
  by (induction ns arbitrary: r) simp_all

lemma retire_fold_retired [simp]:
  "re_retired (rg_heap (fold retireLocked ns r) m) \<longleftrightarrow> m \<in> set ns \<or> re_retired (rg_heap r m)"
  by (induction ns arbitrary: r) auto

lemma retire_fold_ok:
  assumes "registry_ok (set ns) r" and "\<And>n. n \<in> set ns \<Longrightarrow> n |\<in>| rg_all r"
    and "\<And>n. n \<in> set ns \<Longrightarrow> n |\<notin>| fmran (rg_cache r)"
  shows "registry_ok {} (fold retireLocked ns r)"
  using assms
proof (induction ns arbitrary: r)
  case (Cons n ns)
  then have "registry_ok (set ns) (retireLocked n r)"
    by (intro retireLocked_ok) simp_all
  with Cons show ?case by simp
qed simp

lemma retire_one_ok:
  assumes "registry_ok {n} r" and "n |\<in>| rg_all r" and "n |\<notin>| fmran (rg_cache r)"
  shows "registry_ok {} (retireLocked n r)"
  using retire_fold_ok [of "[n]" r] assms by simp

subsection \<open>Taking entries out of the cache\<close>

text \<open>Every tenant has an entry of its own, so dropping one name removes exactly its entry.\<close>

lemma cache_inject:
  assumes "cache_ok r" and "fmlookup (rg_cache r) s = Some n" and "fmlookup (rg_cache r) t = Some n"
  shows "s = t"
proof -
  have "map_option prov_tenant (rg_prov r n) = Some s" and "map_option prov_tenant (rg_prov r n) = Some t"
    using assms unfolding cache_ok_def by blast+
  then show ?thesis by simp
qed

lemma cached_drop:
  assumes "cache_ok r" and "fmlookup (rg_cache r) t = Some n"
  shows "fmran (fmdrop t (rg_cache r)) = fmran (rg_cache r) |-| {|n|}"
proof (rule fset_eqI)
  fix m
  have "(\<exists>s. s \<noteq> t \<and> fmlookup (rg_cache r) s = Some m) \<longleftrightarrow> (\<exists>s. fmlookup (rg_cache r) s = Some m) \<and> m \<noteq> n"
    using cache_inject [OF assms(1) _ assms(2)] assms(2) by (metis option.inject)
  then show "m |\<in>| fmran (fmdrop t (rg_cache r)) \<longleftrightarrow> m |\<in>| fmran (rg_cache r) |-| {|n|}"
    by (simp add: fmlookup_ran_iff del: fmran_drop) metis
qed

lemma fcard_drop: "int (fcard (fmdom (fmdrop t m))) \<le> int (fcard (fmdom m))"
  using fcard_mono [of "fmdom m |-| {|t|}" "fmdom m"] by auto

lemma drop_ok:
  assumes "registry_ok {} r" and t: "fmlookup (rg_cache r) t = Some n"
  shows "registry_ok {n} (r\<lparr>rg_cache := fmdrop t (rg_cache r)\<rparr>)"
    and "n |\<in>| rg_all r" and "n |\<notin>| fmran (fmdrop t (rg_cache r))"
proof -
  note ok = registry_okD [OF assms(1)]
  have ran: "n |\<in>| fmran (rg_cache r)" using t by (rule fmranI)
  with ok(1) [of n] show "n |\<in>| rg_all r" by (simp add: entry_ok_def Let_def)
  show "n |\<notin>| fmran (fmdrop t (rg_cache r))" by (simp add: cached_drop [OF ok(3) t] del: fmran_drop)
  have "entry_ok {n} (r\<lparr>rg_cache := fmdrop t (rg_cache r)\<rparr>) m" for m
    using ok(1) [of m] by (auto simp: entry_ok_def Let_def leases_def cached_drop [OF ok(3) t] simp del: fmran_drop)
  moreover have "cache_ok (r\<lparr>rg_cache := fmdrop t (rg_cache r)\<rparr>)"
    using ok(3) fcard_drop [of t "rg_cache r"] by (auto simp: cache_ok_def simp del: fmdom_drop split: if_splits)
  moreover have "insts_ok (r\<lparr>rg_cache := fmdrop t (rg_cache r)\<rparr>)"
    using ok(5) owned_cong [of "r\<lparr>rg_cache := fmdrop t (rg_cache r)\<rparr>" r] by (simp add: insts_ok_def)
  ultimately show "registry_ok {n} (r\<lparr>rg_cache := fmdrop t (rg_cache r)\<rparr>)"
    using ok(2,4,6) call_ok_cong [of "r\<lparr>rg_cache := fmdrop t (rg_cache r)\<rparr>" r]
    by (intro registry_okI) (auto simp: closed_ok_def)
qed

lemma evict_one_ok:
  assumes "registry_ok {} r" and "fmlookup (rg_cache r) t = Some n"
  shows "registry_ok {} (retireLocked n (r\<lparr>rg_cache := fmdrop t (rg_cache r)\<rparr>))"
  by (rule retire_one_ok) (simp_all add: drop_ok [OF assms] del: fmdom_drop fmran_drop)

subsection \<open>Acquiring and giving back\<close>

lemma ranges_lookup: "ranges order m \<Longrightarrow> (k, v) \<in> set order \<longleftrightarrow> fmlookup m k = Some v"
  by (auto simp: ranges_def fmlookup_of_list)

definition evictable :: "registry_entry \<Rightarrow> bool" where
  "evictable e \<longleftrightarrow> re_refs e = 0 \<and> re_ready e"

lemma oldestEntry_Cons:
  "oldestEntry h ((name, n) # order) oldest =
     (if \<not> evictable (h n) then oldestEntry h order oldest
      else oldestEntry h order
        (if oldest = None \<or> re_lastUsed (h n) < re_lastUsed (h (snd (the oldest))) then Some (name, n) else oldest))"
  by (auto simp: evictable_def entryReady_def split: option.split)

lemma oldestEntry_Some:
  "oldestEntry h order oldest = Some (name, n) \<Longrightarrow>
     (oldest = Some (name, n) \<or> (name, n) \<in> set order \<and> evictable (h n)) \<and>
     (\<forall>(k, m) \<in> set order. evictable (h m) \<longrightarrow> re_lastUsed (h n) \<le> re_lastUsed (h m)) \<and>
     (oldest \<noteq> None \<longrightarrow> re_lastUsed (h n) \<le> re_lastUsed (h (snd (the oldest))))"
proof (induction order arbitrary: oldest)
  case (Cons a order)
  obtain k m where a: "a = (k, m)" by force
  let ?new = "if oldest = None \<or> re_lastUsed (h m) < re_lastUsed (h (snd (the oldest))) then Some (k, m) else oldest"
  show ?case
  proof (cases "evictable (h m)")
    case False
    with Cons.prems Cons.IH [of oldest] show ?thesis by (auto simp: a oldestEntry_Cons simp del: oldestEntry.simps)
  next
    case True
    with Cons.prems have run: "oldestEntry h order ?new = Some (name, n)"
      by (simp add: a oldestEntry_Cons del: oldestEntry.simps)
    show ?thesis using Cons.IH [OF run] True by (auto simp: a split: if_splits)
  qed
qed simp

lemma oldestEntry_None:
  "oldestEntry h order oldest = None \<longleftrightarrow> oldest = None \<and> (\<forall>(k, m) \<in> set order. \<not> evictable (h m))"
  by (induction order arbitrary: oldest) (auto simp: oldestEntry_Cons simp del: oldestEntry.simps(2) split: if_splits)

definition room :: "registry \<Rightarrow> bool" where
  "room r \<longleftrightarrow> (0 < cf_capacity (rg_config r) \<longrightarrow> int (fcard (fmdom (rg_cache r))) < cf_capacity (rg_config r))"

lemma fcard_drop_less:
  "fmlookup m t = Some n \<Longrightarrow> int (fcard (fmdom (fmdrop t m))) < int (fcard (fmdom m))"
proof -
  assume "fmlookup m t = Some n"
  then have "t |\<in>| fmdom m" by (rule fmdomI)
  then show ?thesis using pfsubset_fcard_mono [of "fmdom m |-| {|t|}" "fmdom m"] by auto
qed

lemma makeRoom_ok:
  assumes "registry_ok {} r" and "ranges order (rg_cache r)" and "makeRoom order r = Inr r'"
  shows "registry_ok {} r' \<and> room r' \<and> (rg_closed r' = rg_closed r) \<and>
    (fmlookup (rg_cache r) tenant = None \<longrightarrow> fmlookup (rg_cache r') tenant = None)"
proof (cases "cf_capacity (rg_config r) > 0 \<and> int (fcard (fmdom (rg_cache r))) \<ge> cf_capacity (rg_config r)")
  case False
  with assms show ?thesis by (auto simp: makeRoom_def room_def)
next
  case True
  with assms(3) obtain name n where found: "oldestEntry (rg_heap r) order None = Some (name, n)"
    and r': "r' = retireLocked n (r\<lparr>rg_cache := fmdrop name (rg_cache r)\<rparr>)"
    by (auto simp: makeRoom_def split: option.splits)
  then have look: "fmlookup (rg_cache r) name = Some n"
    using oldestEntry_Some [OF found] ranges_lookup [OF assms(2)] by auto
  moreover have "int (fcard (fmdom (rg_cache r))) \<le> cf_capacity (rg_config r)"
    using True registry_okD(3) [OF assms(1)] by (simp add: cache_ok_def)
  ultimately show ?thesis
    using fcard_drop_less [OF look] evict_one_ok [OF assms(1) look] by (simp add: r' room_def del: fmdom_drop)
qed

lemma call_ok_entry: "call_ok r c \<Longrightarrow> call_entry c = Some n \<Longrightarrow> rg_prov r n \<noteq> None"
  by (cases c) (auto simp: call_ok_def)

lemma leases_fresh:
  assumes "\<And>c. c \<in> set (rg_calls r) \<Longrightarrow> call_ok r c" and "rg_prov r n = None"
  shows "leases r n = 0"
proof -
  have "filter (\<lambda>c. call_entry c = Some n) (rg_calls r) = []"
    using call_ok_entry assms by (fastforce simp: filter_empty_conv)
  then show ?thesis by (simp add: leases_def)
qed

lemma fmran_new: "fmlookup m t = None \<Longrightarrow> x |\<in>| fmran (fmupd t n m) \<longleftrightarrow> x = n \<or> x |\<in>| fmran m"
  unfolding fmlookup_ran_iff by (metis fmupd_lookup option.inject option.distinct(1))

lemma fcard_new: "fmlookup m t = None \<Longrightarrow> fcard (fmdom (fmupd t n m)) = fcard (fmdom m) + 1"
  using fmdom_notI [of m t] by (simp add: fcard_finsert_disjoint)

lemma newEntry_ok:
  assumes "registry_ok {} r" and room: "room r" and open': "\<not> rg_closed r"
    and none: "fmlookup (rg_cache r) tenant = None"
  shows "registry_ok {} (snd (newEntry tenant r)) \<and> fmlookup (rg_cache (snd (newEntry tenant r))) tenant = Some (fst (newEntry tenant r))"
    (is "registry_ok {} ?r \<and> _")
proof
  note ok = registry_okD [OF assms(1)]
  let ?n = "rg_next r"
  show "fmlookup (rg_cache ?r) tenant = Some (fst (newEntry tenant r))" by (simp add: newEntry_def Let_def)
  have fresh: "rg_prov r ?n = None" "rg_closer r ?n = None" "?n |\<notin>| rg_all r"
    using ok(1) [of ?n] by (auto simp: entry_ok_def Let_def closer_ok_def)
  have heap: "rg_heap ?r m = (if m = ?n then new_entry else rg_heap r m)"
    "rg_prov ?r m = (if m = ?n then Some (Calling tenant) else rg_prov r m)" for m
    using ok(4) open' by (auto simp: newEntry_def Let_def closed_ok_def new_entry_def)
  have same: "rg_calls ?r = rg_calls r" "rg_closer ?r = rg_closer r" "rg_shut ?r = rg_shut r" "rg_made ?r = rg_made r"
    "rg_panic ?r = rg_panic r" "rg_config ?r = rg_config r" "rg_closed ?r = rg_closed r" "rg_stopped ?r = rg_stopped r"
    "rg_cancelled ?r = rg_cancelled r" "rg_cache ?r = fmupd tenant ?n (rg_cache r)" "rg_next ?r = ?n + 1"
    "rg_all ?r = finsert ?n (rg_all r)"
    by (simp_all add: newEntry_def Let_def)
  show "registry_ok {} ?r"
  proof (rule registry_okI)
    show "entry_ok {} ?r m" for m
      using ok(1) [of m] fresh leases_fresh [OF ok(2), of ?n]
      by (auto simp: entry_ok_def Let_def heap same leases_cong [OF same(1)] fmran_new [OF none] prov_ok_def closer_ok_def
          drained_def new_entry_def)
    show "call_ok ?r c" if "c \<in> set (rg_calls ?r)" for c
      using ok(2) [of c] that fresh(1) by (auto simp: call_ok_def same heap split: call.splits)
    have "fmlookup (rg_cache r) t \<noteq> Some ?n" for t
      using ok(3) fresh(1) by (fastforce simp: cache_ok_def)
    then show "cache_ok ?r"
      using ok(3) room none by (auto simp: cache_ok_def room_def same heap fcard_new simp del: fmdom_fmupd)
    show "closed_ok ?r" using ok(4) open' by (auto simp: closed_ok_def same)
    have "owned ?r m = owned r m" for m
      using fresh(1) by (auto simp: owned_def heap split: option.split provisioning.split)
    then show "insts_ok ?r" using ok(5) by (simp add: insts_ok_def same)
    show "\<not> rg_panic ?r" using ok(6) by (simp add: same)
  qed
qed

lemma lease_ok:
  assumes "registry_ok {} r" and look: "fmlookup (rg_cache r) tenant = Some n"
  shows "registry_ok {} (lease now tenant n r)" (is "registry_ok {} ?r")
proof (rule registry_okI)
  note ok = registry_okD [OF assms(1)]
  have "\<not> re_retired (rg_heap r n)"
    using ok(1) [of n] fmranI [OF look] by (simp add: entry_ok_def Let_def)
  moreover have "leases ?r m = leases r m + (if m = n then 1 else 0)" for m by (simp add: leases_def lease_def)
  moreover have "leases r n \<ge> 0" by (simp add: leases_def)
  ultimately show "entry_ok {} ?r m" for m
    using ok(1) [of m] by (cases "m = n") (auto simp: lease_def entry_ok_def Let_def closer_ok_def drained_def)
  show "call_ok ?r c" if "c \<in> set (rg_calls ?r)" for c
    using ok(2) [of c] ok(3) look that by (auto simp: call_ok_def lease_def cache_ok_def split: call.splits)
  show "cache_ok ?r" "closed_ok ?r" "\<not> rg_panic ?r"
    using ok(3,4,6) by (simp_all add: cache_ok_def closed_ok_def lease_def)
  have "owned ?r = owned r" by (rule owned_cong) (simp_all add: lease_def)
  then show "insts_ok ?r" using ok(5) by (simp add: insts_ok_def lease_def)
qed

theorem acquireLocked_ok:
  assumes "registry_ok {} r" and "ranges order (rg_cache r)"
  shows "registry_ok {} (fst (acquireLocked order now ctxErr tenant r))"
proof (cases "ctxErr = None \<and> \<not> rg_closed r")
  case False
  with assms(1) show ?thesis by (auto simp: acquireLocked_def split: option.split)
next
  case live: True
  show ?thesis
  proof (cases "fmlookup (rg_cache r) tenant")
    case (Some n)
    with live lease_ok [OF assms(1) Some] show ?thesis by (simp add: acquireLocked_def)
  next
    case None
    show ?thesis
    proof (cases "makeRoom order r")
      case (Inl er)
      with live None assms(1) show ?thesis by (simp add: acquireLocked_def)
    next
      case (Inr r1)
      note room = makeRoom_ok [OF assms Inr, of tenant]
      then have "registry_ok {} (snd (newEntry tenant r1)) \<and>
          fmlookup (rg_cache (snd (newEntry tenant r1))) tenant = Some (fst (newEntry tenant r1))"
        using live None by (intro newEntry_ok) auto
      with live None Inr show ?thesis
        by (auto simp: acquireLocked_def split_beta intro: lease_ok)
    qed
  qed
qed

lemma length_filter_update:
  "t < length xs \<Longrightarrow> int (length (filter P (xs[t := y]))) =
     int (length (filter P xs)) - (if P (xs ! t) then 1 else 0) + (if P y then 1 else 0)"
proof (induction xs arbitrary: t)
  case (Cons x xs)
  show ?case
  proof (cases t)
    case (Suc k)
    with Cons.IH [of k] Cons.prems show ?thesis by auto
  qed (use Cons.prems in auto)
qed simp

lemma leases_update:
  assumes "t < length (rg_calls r)" and "rg_calls r' = (rg_calls r)[t := c]"
  shows "leases r' m = leases r m - (if call_entry (rg_calls r ! t) = Some m then 1 else 0) + (if call_entry c = Some m then 1 else 0)"
  using length_filter_update [OF assms(1), of "\<lambda>c. call_entry c = Some m" c] by (simp add: leases_def assms(2))

lemma leases_pos:
  assumes "t < length (rg_calls r)" and "call_entry (rg_calls r ! t) = Some n"
  shows "leases r n \<ge> 1"
  using leases_update [OF assms(1), of "r\<lparr>rg_calls := (rg_calls r)[t := Released]\<rparr>" Released n] assms(2)
  by (simp add: leases_def)

lemma calls_update_ok:
  assumes "\<And>c. c \<in> set (rg_calls r) \<Longrightarrow> call_ok r c" and "call_ok r c'" and "c \<in> set ((rg_calls r)[t := c'])"
  shows "call_ok r c"
  using assms set_update_subset_insert by fastforce

lemma giveBack_ok:
  assumes "registry_ok {} r" and t: "t < length (rg_calls r)" and c: "call_entry (rg_calls r ! t) = Some n"
  shows "registry_ok {} (giveBack t now n r)"
proof -
  note ok = registry_okD [OF assms(1)]
  let ?r0 = "r\<lparr>rg_calls := (rg_calls r)[t := Released]\<rparr>"
  let ?r = "modify n (\<lambda>e. e\<lparr>re_refs := re_refs e - 1, re_lastUsed := now\<rparr>) ?r0"
  have leases: "leases ?r m = leases r m - (if m = n then 1 else 0)" for m
    using leases_update [OF t, of ?r Released m] c by auto
  have "registry_ok {n} ?r"
  proof (rule registry_okI)
    show "entry_ok {n} ?r m" for m
      using ok(1) [of m] leases [of m] leases_pos [OF t c]
      by (cases "m = n") (auto simp: entry_ok_def Let_def closer_ok_def drained_def)
    have same: "call_ok ?r = call_ok r" by (rule call_ok_cong) simp_all
    show "call_ok ?r c" if "c \<in> set (rg_calls ?r)" for c
      unfolding same by (rule calls_update_ok [OF ok(2), of Released c t]) (use that in \<open>simp_all add: call_ok_def\<close>)
    show "cache_ok ?r" "closed_ok ?r" "\<not> rg_panic ?r"
      using ok(3,4,6) by (simp_all add: cache_ok_def closed_ok_def)
    have "owned ?r = owned r" by (rule owned_cong) simp_all
    then show "insts_ok ?r" using ok(5) by (simp add: insts_ok_def)
  qed
  then show ?thesis
    unfolding giveBack_def by (rule finishLocked_ok) (use ok(1) [of n] in \<open>auto simp: entry_ok_def Let_def\<close>)
qed

theorem release_ok:
  assumes "registry_ok {} r" and "t < length (rg_calls r)"
  shows "registry_ok {} (release t now r)"
  using giveBack_ok [OF assms] assms(1) by (auto simp: release_def split: call.split)

theorem acquireReturn_ok:
  assumes ok': "registry_ok {} r" and t: "t < length (rg_calls r)" and c: "rg_calls r ! t = Waiting tenant n"
    and s: "selectable s (rg_heap r n)"
  shows "registry_ok {} (acquireReturn t s now ctxErr r)"
proof (cases "acquireResult s (rg_heap r n) ctxErr")
  case (Inl er)
  with release_ok [OF ok' t] c show ?thesis by (simp add: acquireReturn_def)
next
  case (Inr i)
  note ok = registry_okD [OF ok']
  let ?r = "r\<lparr>rg_calls := (rg_calls r)[t := Holding tenant n i]\<rparr>"
  from Inr s have "re_ready (rg_heap r n) \<and> re_err (rg_heap r n) = None \<and> i = re_enf (rg_heap r n)"
    by (auto simp: acquireResult_def readyResult_def selectable_def entryReady_def split: select.splits if_splits option.splits)
  moreover have "call_ok r (Waiting tenant n)" using ok(2) c t by (metis nth_mem)
  ultimately have new: "call_ok r (Holding tenant n i)" by (simp add: call_ok_def)
  have "registry_ok {} ?r"
  proof (rule registry_okI)
    have "leases ?r m = leases r m" for m using leases_update [OF t, of ?r "Holding tenant n i" m] c by simp
    then show "entry_ok {} ?r m" for m using ok(1) [of m] by (simp add: entry_ok_def Let_def)
    have same: "call_ok ?r = call_ok r" by (rule call_ok_cong) simp_all
    show "call_ok ?r c" if "c \<in> set (rg_calls ?r)" for c
      unfolding same by (rule calls_update_ok [OF ok(2) new, of c t]) (use that in simp_all)
    show "cache_ok ?r" "closed_ok ?r" "\<not> rg_panic ?r"
      using ok(3,4,6) by (simp_all add: cache_ok_def closed_ok_def)
    have "owned ?r = owned r" by (rule owned_cong) simp_all
    then show "insts_ok ?r" using ok(5) by (simp add: insts_ok_def)
  qed
  with c Inr show ?thesis by (simp add: acquireReturn_def)
qed

subsection \<open>The goroutines\<close>

lemma provisionDone_ok:
  assumes ok': "registry_ok {} r" and p: "rg_prov r n = Some (Checked tenant enf err)"
  shows "registry_ok {} (provisionDone n r)"
proof -
  note ok = registry_okD [OF ok']
  let ?r0 = "r\<lparr>rg_prov := (rg_prov r)(n \<mapsto> Provisioned tenant), rg_panic := rg_panic r \<or> re_ready (rg_heap r n)\<rparr>"
  let ?r = "modify n (\<lambda>e. cancel (e\<lparr>re_enf := enf, re_err := err, re_ready := True\<rparr>)) ?r0"
  have n: "\<not> re_ready (rg_heap r n)" "provided tenant enf err" "\<not> re_closing (rg_heap r n)" "rg_closer r n = None" "\<not> rg_next r \<le> n"
    "\<not> re_finished (rg_heap r n)"
    using ok(1) [of n] p by (auto simp: entry_ok_def Let_def prov_ok_def closer_ok_def)
  have "registry_ok {n} ?r"
  proof (rule registry_okI)
    have leases: "leases ?r m = leases r m" for m by (rule leases_cong) simp
    show "entry_ok {n} ?r m" for m
    proof (cases "m = n")
      case True
      have "prov_ok (Some (Provisioned tenant)) (cancel (rg_heap r n\<lparr>re_enf := enf, re_err := err, re_ready := True\<rparr>))"
        using n(2) by (simp add: prov_ok_def)
      then show ?thesis
        using True ok(1) [of n] n leases [of n] by (auto simp: entry_ok_def Let_def closer_ok_def)
    next
      case False
      with ok(1) [of m] leases [of m] show ?thesis by (simp add: entry_ok_def Let_def)
    qed
    show "call_ok ?r c" if "c \<in> set (rg_calls ?r)" for c
      using ok(2) [of c] that n(1) p by (auto simp: call_ok_def split: call.splits)
    show "cache_ok ?r" using ok(3) p by (fastforce simp: cache_ok_def)
    show "closed_ok ?r" "\<not> rg_panic ?r"
      using ok(4,6) n(1) by (simp_all add: closed_ok_def)
    have "owned ?r m = owned r m" for m using p by (auto simp: owned_def split: option.split provisioning.split)
    then show "insts_ok ?r" using ok(5) by (simp add: insts_ok_def)
  qed
  then show ?thesis
    using p ok(1) [of n] unfolding provisionDone_def
    by (simp add: Let_def) (rule finishLocked_ok, auto simp: entry_ok_def Let_def)
qed

lemma provisionCheck_cases:
  assumes "rg_prov r n = Some (Calling tenant)" and "own_result res r" and "set (rg_shut r) \<subseteq> set (rg_made r)"
  obtains enf err made shut where
    "provisionCheck n res (factory_makes res down r) =
       r\<lparr>rg_made := rg_made r @ made, rg_shut := rg_shut r @ shut, rg_prov := (rg_prov r)(n \<mapsto> Checked tenant enf err)\<rparr>"
    and "provided tenant enf err" and "set shut \<subseteq> set made" and "set made \<inter> set (rg_made r) = {}"
    and "\<And>i. enf = Some i \<Longrightarrow> inst_ref i \<in> set made \<and> shut = []"
proof (cases res)
  case Panicked
  with assms show ?thesis
    by (intro that [of None "Some ErrTenantFactory" "[]" "[]"])
      (auto simp: provisionCheck_def factory_makes_def provided_def)
next
  case (Returned i0 er0)
  show ?thesis
  proof (cases i0)
    case None
    define er where "er = (case er0 of Some er \<Rightarrow> er
      | None \<Rightarrow> (case re_ctx (rg_heap r n) of Some er \<Rightarrow> er | None \<Rightarrow> ErrTenantFactory))"
    have "provisionCheck n res (factory_makes res down r) =
        r\<lparr>rg_prov := (rg_prov r)(n \<mapsto> Checked tenant None (Some er))\<rparr>"
      using assms(1) Returned None
      by (simp add: provisionCheck_def factory_makes_def er_def split: option.split)
    then show ?thesis by (intro that [of None "Some er" "[]" "[]"]) (auto simp: provided_def)
  next
    case (Some i)
    let ?sh = "if down then [inst_ref i] else []"
    have fresh: "inst_ref i \<notin> set (rg_made r)" "inst_ref i \<notin> set (rg_shut r)"
      using assms(2,3) Returned Some by (auto simp: own_result_def)
    show ?thesis
    proof (cases "er0 = None \<and> re_ctx (rg_heap r n) = None \<and> inst_tenant i = tenant \<and> \<not> down")
      case True
      with assms(1) Returned Some fresh show ?thesis
        by (intro that [of "Some i" None "[]" "[inst_ref i]"])
          (auto simp: provisionCheck_def factory_makes_def provided_def)
    next
      case False
      define er where "er = (case er0 of Some er \<Rightarrow> er
        | None \<Rightarrow> (case re_ctx (rg_heap r n) of Some er \<Rightarrow> er | None \<Rightarrow> ErrTenantFactory))"
      have "provisionCheck n res (factory_makes res down r) =
          r\<lparr>rg_made := rg_made r @ [inst_ref i], rg_shut := rg_shut r @ (?sh @ [inst_ref i]),
            rg_prov := (rg_prov r)(n \<mapsto> Checked tenant None (Some er))\<rparr>"
        using assms(1) Returned Some False fresh
        by (cases er0; cases "re_ctx (rg_heap r n)"; cases down)
          (simp_all add: provisionCheck_def factory_makes_def er_def)
      with fresh show ?thesis
        by (intro that [of None "Some er" "?sh @ [inst_ref i]" "[inst_ref i]"]) (auto simp: provided_def)
    qed
  qed
qed

lemma factory_ok:
  assumes ok': "registry_ok {} r" and p: "rg_prov r n = Some (Calling tenant)" and own: "own_result res r"
  shows "registry_ok {} (provisionCheck n res (factory_makes res down r))"
proof -
  note ok = registry_okD [OF ok']
  from ok(5) have shut: "set (rg_shut r) \<subseteq> set (rg_made r)" by (simp add: insts_ok_def)
  from provisionCheck_cases [OF p own shut, of down] obtain enf err made sh where
    r': "provisionCheck n res (factory_makes res down r) =
       r\<lparr>rg_made := rg_made r @ made, rg_shut := rg_shut r @ sh, rg_prov := (rg_prov r)(n \<mapsto> Checked tenant enf err)\<rparr>"
    and prov: "provided tenant enf err" and sub: "set sh \<subseteq> set made" and fresh: "set made \<inter> set (rg_made r) = {}"
    and enf: "\<And>i. enf = Some i \<Longrightarrow> inst_ref i \<in> set made \<and> sh = []"
    by metis
  let ?r = "r\<lparr>rg_made := rg_made r @ made, rg_shut := rg_shut r @ sh, rg_prov := (rg_prov r)(n \<mapsto> Checked tenant enf err)\<rparr>"
  have n: "\<not> re_ready (rg_heap r n)" "rg_closer r n = None" "\<not> rg_next r \<le> n"
    using ok(1) [of n] p by (auto simp: entry_ok_def Let_def prov_ok_def closer_ok_def)
  have "registry_ok {} ?r"
  proof (rule registry_okI)
    have leases: "leases ?r m = leases r m" for m by (rule leases_cong) simp
    show "entry_ok {} ?r m" for m
    proof (cases "m = n")
      case True
      with ok(1) [of n] n prov leases [of n] show ?thesis by (auto simp: entry_ok_def Let_def prov_ok_def)
    next
      case False
      with ok(1) [of m] leases [of m] show ?thesis by (simp add: entry_ok_def Let_def)
    qed
    show "call_ok ?r c" if "c \<in> set (rg_calls ?r)" for c
      using ok(2) [of c] that n(1) p by (auto simp: call_ok_def split: call.splits)
    show "cache_ok ?r" using ok(3) p by (fastforce simp: cache_ok_def)
    show "closed_ok ?r" "\<not> rg_panic ?r" using ok(4,6) by (simp_all add: closed_ok_def)
    have owned: "owned ?r m = (if m = n then map_option inst_ref enf else owned r m)" for m
      by (simp add: owned_def split: option.split provisioning.split)
    have old: "owned r m = Some i \<Longrightarrow> i \<in> set (rg_made r)" for m i using ok(5) by (auto simp: insts_ok_def)
    have "i \<in> set (rg_made ?r) \<and> (i \<in> set (rg_shut ?r) \<longleftrightarrow> shut_by (rg_closer ?r m)) \<and> (\<forall>m'. owned ?r m' = Some i \<longrightarrow> m' = m)"
      if "owned ?r m = Some i" for m i
    proof (cases "m = n")
      case True
      with that enf have i: "i \<in> set made" "sh = []" by (auto simp: owned)
      with fresh shut have i': "i \<notin> set (rg_made r)" "i \<notin> set (rg_shut r)" by auto
      have "owned ?r m' = Some i \<Longrightarrow> m' = m" for m'
        using owned [of m'] old i' True by (metis (full_types))
      with i i' True n(2) show ?thesis by (auto simp: shut_by_def)
    next
      case False
      with that have m: "owned r m = Some i" by (simp add: owned)
      then have made: "i \<in> set (rg_made r)" "i \<notin> set made" "i \<notin> set sh" using old fresh sub by auto
      then have "map_option inst_ref enf \<noteq> Some i" using enf by auto
      with made m False ok(5) show ?thesis by (auto simp: insts_ok_def owned split: if_splits)
    qed
    moreover have "set (rg_shut ?r) \<subseteq> set (rg_made ?r)" using shut sub by auto
    ultimately show "insts_ok ?r" unfolding insts_ok_def by blast
  qed
  with r' show ?thesis by simp
qed

lemma closeEnforcer_sel [simp]:
  "rg_heap (closeEnforcer n r) = rg_heap r" "rg_cache (closeEnforcer n r) = rg_cache r" "rg_config (closeEnforcer n r) = rg_config r"
  "rg_all (closeEnforcer n r) = rg_all r" "rg_next (closeEnforcer n r) = rg_next r" "rg_prov (closeEnforcer n r) = rg_prov r"
  "rg_calls (closeEnforcer n r) = rg_calls r" "rg_made (closeEnforcer n r) = rg_made r" "rg_panic (closeEnforcer n r) = rg_panic r"
  "rg_closed (closeEnforcer n r) = rg_closed r" "rg_stopped (closeEnforcer n r) = rg_stopped r"
  "rg_cancelled (closeEnforcer n r) = rg_cancelled r"
  "rg_closer (closeEnforcer n r) = (rg_closer r)(n \<mapsto> ShutDown)"
  "set (rg_shut (closeEnforcer n r)) = set (rg_shut r) \<union> set_option (map_option inst_ref (re_enf (rg_heap r n)))"
  by (auto simp: closeEnforcer_def Let_def split: option.splits)

lemma closeEnforcer_ok:
  assumes ok': "registry_ok {} r" and c: "rg_closer r n = Some Closing"
  shows "registry_ok {} (closeEnforcer n r)" (is "registry_ok {} ?r")
proof (rule registry_okI)
  note ok = registry_okD [OF ok']
  have leases: "leases ?r m = leases r m" for m by (rule leases_cong) simp
  have n: "re_ready (rg_heap r n)" using ok(1) [of n] c by (simp add: entry_ok_def Let_def closer_ok_def)
  show "entry_ok {} ?r m" for m
    using ok(1) [of m] c leases [of m] by (cases "m = n") (auto simp: entry_ok_def Let_def closer_ok_def)
  have "call_ok ?r = call_ok r" by (rule call_ok_cong) simp_all
  then show "call_ok ?r c" if "c \<in> set (rg_calls ?r)" for c using ok(2) that by simp
  show "cache_ok ?r" "closed_ok ?r" "\<not> rg_panic ?r"
    using ok(3,4,6) by (simp_all add: cache_ok_def closed_ok_def)
  have same: "owned ?r = owned r" by (rule owned_cong) simp_all
  obtain t where "rg_prov r n = Some (Provisioned t)"
    using ok(1) [of n] n by (auto simp: entry_ok_def Let_def prov_ok_def split: option.splits provisioning.splits)
  then have mine: "owned r n = map_option inst_ref (re_enf (rg_heap r n))" by (simp add: owned_def)
  have "i \<in> set (rg_shut ?r) \<longleftrightarrow> shut_by (rg_closer ?r m)" if "owned r m = Some i" for m i
  proof (cases "m = n")
    case True
    with that mine show ?thesis by (simp add: shut_by_def)
  next
    case False
    with that ok(5) have "owned r n \<noteq> Some i" by (auto simp: insts_ok_def)
    with False that ok(5) show ?thesis by (auto simp: insts_ok_def mine)
  qed
  moreover have "set (rg_shut ?r) \<subseteq> set (rg_made ?r)"
    using ok(5) mine by (auto simp: insts_ok_def)
  ultimately show "insts_ok ?r" using ok(5) by (simp add: insts_ok_def same del: closeEnforcer_sel(14))
qed

lemma signal_sel [simp]:
  "rg_heap (signalStoppedLocked r) = rg_heap r" "rg_cache (signalStoppedLocked r) = rg_cache r"
  "rg_config (signalStoppedLocked r) = rg_config r" "rg_all (signalStoppedLocked r) = rg_all r"
  "rg_next (signalStoppedLocked r) = rg_next r" "rg_prov (signalStoppedLocked r) = rg_prov r"
  "rg_calls (signalStoppedLocked r) = rg_calls r" "rg_made (signalStoppedLocked r) = rg_made r"
  "rg_shut (signalStoppedLocked r) = rg_shut r" "rg_panic (signalStoppedLocked r) = rg_panic r"
  "rg_closed (signalStoppedLocked r) = rg_closed r" "rg_cancelled (signalStoppedLocked r) = rg_cancelled r"
  "rg_closer (signalStoppedLocked r) = rg_closer r"
  by (simp_all add: signalStoppedLocked_def)

lemma signal_ok:
  assumes ok': "registry_ok X r"
  shows "registry_ok X (signalStoppedLocked r)" (is "registry_ok X ?r")
proof (rule registry_okI)
  note ok = registry_okD [OF ok']
  have leases: "leases ?r m = leases r m" for m by (rule leases_cong) simp
  show "entry_ok X ?r m" for m using ok(1) [of m] by (simp add: entry_ok_def leases)
  have "call_ok ?r = call_ok r" by (rule call_ok_cong) simp_all
  then show "call_ok ?r c" if "c \<in> set (rg_calls ?r)" for c using ok(2) that by simp
  show "cache_ok ?r" "\<not> rg_panic ?r" using ok(3,6) by (simp_all add: cache_ok_def)
  show "closed_ok ?r" using ok(4) by (auto simp: closed_ok_def) (auto simp: signalStoppedLocked_def split: if_splits)
  have "owned ?r = owned r" by (rule owned_cong) simp_all
  then show "insts_ok ?r" using ok(5) by (simp add: insts_ok_def)
qed

lemma entryFinished_ok:
  assumes ok': "registry_ok {} r" and c: "rg_closer r n = Some ShutDown"
  shows "registry_ok {} (entryFinished n r)"
proof -
  note ok = registry_okD [OF ok']
  let ?r0 = "r\<lparr>rg_all := rg_all r |-| {|n|}, rg_closer := (rg_closer r)(n \<mapsto> Gone), rg_panic := rg_panic r \<or> re_finished (rg_heap r n)\<rparr>"
  let ?r = "modify n (\<lambda>e. e\<lparr>re_finished := True\<rparr>) ?r0"
  have n: "re_closing (rg_heap r n)" "\<not> re_finished (rg_heap r n)" "n |\<notin>| fmran (rg_cache r)"
    using ok(1) [of n] c by (auto simp: entry_ok_def Let_def closer_ok_def)
  have "registry_ok {} ?r"
  proof (rule registry_okI)
    have leases: "leases ?r m = leases r m" for m by (rule leases_cong) simp
    show "entry_ok {} ?r m" for m
      using ok(1) [of m] n c leases [of m] by (cases "m = n") (auto simp: entry_ok_def Let_def closer_ok_def drained_def)
    have "call_ok ?r = call_ok r" by (rule call_ok_cong) simp_all
    then show "call_ok ?r c" if "c \<in> set (rg_calls ?r)" for c using ok(2) that by simp
    show "cache_ok ?r" "closed_ok ?r" "\<not> rg_panic ?r"
      using ok(3,4,6) n by (auto simp: cache_ok_def closed_ok_def)
    have "owned ?r = owned r" by (rule owned_cong) simp_all
    moreover have "shut_by (rg_closer ?r m) = shut_by (rg_closer r m)" for m using c by (simp add: shut_by_def)
    ultimately show "insts_ok ?r" using ok(5) by (simp add: insts_ok_def)
  qed
  then show ?thesis by (simp add: entryFinished_def Let_def signal_ok)
qed

theorem background_ok: "background_step r r' \<Longrightarrow> registry_ok {} r \<Longrightarrow> registry_ok {} r'"
  by (induction rule: background_step.induct)
    (simp_all add: factory_ok provisionDone_ok closeEnforcer_ok entryFinished_ok acquireReturn_ok release_ok)

subsection \<open>Clearing, evicting, shutting down\<close>

lemma Clear_ok:
  assumes ok': "registry_ok {} r"
  shows "registry_ok {} (Clear r)" (is "registry_ok {} ?r")
proof (rule registry_okI)
  note ok = registry_okD [OF ok']
  have leases: "leases ?r m = leases r m" for m by (rule leases_cong) (simp add: Clear_def)
  show "entry_ok {} ?r m" for m
    using ok(1) [of m] leases [of m] by (auto simp: entry_ok_def Let_def Clear_def)
  have "call_ok ?r = call_ok r" by (rule call_ok_cong) (simp_all add: Clear_def)
  then show "call_ok ?r c" if "c \<in> set (rg_calls ?r)" for c using ok(2) that by (simp add: Clear_def)
  show "cache_ok ?r" "closed_ok ?r" "\<not> rg_panic ?r"
    using ok(3,4,6) by (auto simp: cache_ok_def closed_ok_def Clear_def fcard_fempty)
  have "owned ?r = owned r" by (rule owned_cong) (simp_all add: Clear_def)
  then show "insts_ok ?r" using ok(5) by (simp add: insts_ok_def Clear_def)
qed

lemma empty_cache_ok:
  assumes ok': "registry_ok {} r"
  shows "registry_ok (fset (fmran (rg_cache r))) (r\<lparr>rg_cache := fmempty\<rparr>)" (is "registry_ok ?X ?r")
proof (rule registry_okI)
  note ok = registry_okD [OF ok']
  have leases: "leases ?r m = leases r m" for m by (rule leases_cong) simp
  show "entry_ok ?X ?r m" for m
    using ok(1) [of m] leases [of m] by (auto simp: entry_ok_def Let_def)
  have "call_ok ?r = call_ok r" by (rule call_ok_cong) simp_all
  then show "call_ok ?r c" if "c \<in> set (rg_calls ?r)" for c using ok(2) that by simp
  show "cache_ok ?r" "closed_ok ?r" "\<not> rg_panic ?r"
    using ok(3,4,6) by (auto simp: cache_ok_def closed_ok_def fcard_fempty)
  have "owned ?r = owned r" by (rule owned_cong) simp_all
  then show "insts_ok ?r" using ok(5) by (simp add: insts_ok_def)
qed

lemma ranges_ran: "ranges order m \<Longrightarrow> set (map snd order) = fset (fmran m)"
  using ranges_lookup [of order m] by (force simp: fmlookup_ran_iff)

lemma clearLocked_ok:
  assumes ok': "registry_ok {} r" and order: "ranges order (rg_cache r)"
  shows "registry_ok {} (clearLocked order r)"
  unfolding clearLocked_def
proof (rule retire_fold_ok)
  note ran = ranges_ran [OF order]
  show "registry_ok (set (map snd order)) (r\<lparr>rg_cache := fmempty\<rparr>)"
    using empty_cache_ok [OF ok'] by (simp only: ran)
  show "n |\<in>| rg_all (r\<lparr>rg_cache := fmempty\<rparr>)" if "n \<in> set (map snd order)" for n
    using that registry_okD(1) [OF ok', of n] unfolding ran by (auto simp: entry_ok_def Let_def)
qed simp

lemma evictLocked_ok: "registry_ok {} r \<Longrightarrow> registry_ok {} (fst (evictLocked tenant r))"
  by (auto simp: evictLocked_def intro: evict_one_ok split: option.split)

lemma shutdownLocked_ok:
  assumes ok': "registry_ok {} r" and order: "fset_of_list order = rg_all r"
  shows "registry_ok {} (shutdownLocked order r)"
proof -
  note ok = registry_okD [OF ok']
  have set: "set order = fset (rg_all r)" using order by (metis fset_of_list.rep_eq)
  let ?r = "r\<lparr>rg_closed := True, rg_cancelled := True, rg_heap := cancel \<circ> rg_heap r, rg_cache := fmempty\<rparr>"
  have "registry_ok (set order) ?r"
  proof (rule registry_okI)
    have leases: "leases ?r m = leases r m" for m by (rule leases_cong) simp
    show "entry_ok (set order) ?r m" for m
      using ok(1) [of m] leases [of m] by (auto simp: entry_ok_def Let_def set closer_ok_def drained_def)
    have "call_ok ?r = call_ok r" by (rule call_ok_cong) simp_all
    then show "call_ok ?r c" if "c \<in> set (rg_calls ?r)" for c using ok(2) that by simp
    show "cache_ok ?r" "closed_ok ?r" "\<not> rg_panic ?r"
      using ok(3,4,6) by (auto simp: cache_ok_def closed_ok_def fcard_fempty)
    have "owned ?r = owned r" by (rule owned_cong) simp_all
    then show "insts_ok ?r" using ok(5) by (simp add: insts_ok_def)
  qed
  then have "registry_ok {} (fold retireLocked order ?r)"
    by (rule retire_fold_ok) (simp_all add: set)
  then show ?thesis by (simp add: shutdownLocked_def signal_ok)
qed

lemma idle_retire: "rg_config r' = rg_config r \<Longrightarrow> (\<And>m. re_refs (h' m) = re_refs (h m)) \<Longrightarrow> (\<And>m. re_ready (h' m) = re_ready (h m)) \<Longrightarrow>
   (\<And>m. re_lastUsed (h' m) = re_lastUsed (h m)) \<Longrightarrow> idle now (rg_config r') (h' m) = idle now (rg_config r) (h m)"
  by (simp add: idle_def entryReady_def)

lemma pruneLoop_spec:
  assumes "registry_ok {} r" and "distinct (map fst order)" and "\<And>k n. (k, n) \<in> set order \<Longrightarrow> fmlookup (rg_cache r) k = Some n"
  shows "registry_ok {} (fst (pruneLoop now order (r, removed))) \<and>
    rg_closed (fst (pruneLoop now order (r, removed))) = rg_closed r \<and>
    rg_all (fst (pruneLoop now order (r, removed))) = rg_all r \<and>
    rg_stopped (fst (pruneLoop now order (r, removed))) = rg_stopped r \<and>
    snd (pruneLoop now order (r, removed)) = removed + length (filter (\<lambda>(k, n). idle now (rg_config r) (rg_heap r n)) order) \<and>
    (\<forall>k. fmlookup (rg_cache (fst (pruneLoop now order (r, removed)))) k =
       (if \<exists>n. (k, n) \<in> set order \<and> idle now (rg_config r) (rg_heap r n) then None else fmlookup (rg_cache r) k))"
  using assms
proof (induction order arbitrary: r removed)
  case (Cons a order)
  obtain name n where a: "a = (name, n)" by force
  show ?case
  proof (cases "idle now (rg_config r) (rg_heap r n)")
    case False
    with Cons show ?thesis by (auto simp: a)
  next
    case True
    let ?r = "retireLocked n (r\<lparr>rg_cache := fmdrop name (rg_cache r)\<rparr>)"
    have same: "idle now (rg_config ?r) (rg_heap ?r m) = idle now (rg_config r) (rg_heap r m)" for m
      by (rule idle_retire) simp_all
    have names: "name \<notin> fst ` set order" using Cons.prems(2) by (simp add: a)
    have "registry_ok {} ?r" using Cons.prems a by (intro evict_one_ok) auto
    moreover have "distinct (map fst order)" using Cons.prems(2) by simp
    moreover have "fmlookup (rg_cache ?r) k = Some m" if "(k, m) \<in> set order" for k m
      using that Cons.prems(3) names by force
    ultimately have "registry_ok {} (fst (pruneLoop now order (?r, removed + 1))) \<and>
      rg_closed (fst (pruneLoop now order (?r, removed + 1))) = rg_closed ?r \<and>
      rg_all (fst (pruneLoop now order (?r, removed + 1))) = rg_all ?r \<and>
      rg_stopped (fst (pruneLoop now order (?r, removed + 1))) = rg_stopped ?r \<and>
      snd (pruneLoop now order (?r, removed + 1)) = removed + 1 + length (filter (\<lambda>(k, n). idle now (rg_config r) (rg_heap r n)) order) \<and>
      (\<forall>k. fmlookup (rg_cache (fst (pruneLoop now order (?r, removed + 1)))) k =
         (if \<exists>n. (k, n) \<in> set order \<and> idle now (rg_config r) (rg_heap r n) then None else fmlookup (rg_cache ?r) k))"
      using Cons.IH [of ?r "removed + 1"] unfolding same by blast
    with True names show ?thesis by (auto simp: a)
  qed
qed simp

lemma PruneIdle_ok:
  "registry_ok {} r \<Longrightarrow> ranges order (rg_cache r) \<Longrightarrow> registry_ok {} (fst (PruneIdle order now r))"
  using pruneLoop_spec [of r order now 0] ranges_lookup [of order "rg_cache r"] by (simp add: PruneIdle_def ranges_def)

lemma expire_ok:
  assumes ok': "registry_ok {} r"
  shows "registry_ok {} (modify n (\<lambda>e. e\<lparr>re_ctx := Some er\<rparr>) r)" (is "registry_ok {} ?r")
proof (rule registry_okI)
  note ok = registry_okD [OF ok']
  show "entry_ok {} ?r m" for m using ok(1) [of m] by (auto simp: entry_ok_def Let_def closer_ok_def drained_def)
  have "call_ok ?r = call_ok r" by (rule call_ok_cong) simp_all
  then show "call_ok ?r c" if "c \<in> set (rg_calls ?r)" for c using ok(2) that by simp
  show "cache_ok ?r" "closed_ok ?r" "\<not> rg_panic ?r" using ok(3,4,6) by (simp_all add: cache_ok_def closed_ok_def)
  have "owned ?r = owned r" by (rule owned_cong) simp_all
  then show "insts_ok ?r" using ok(5) by (simp add: insts_ok_def)
qed

theorem registry_step_ok: "registry_step r r' \<Longrightarrow> registry_ok {} r \<Longrightarrow> registry_ok {} r'"
  by (induction rule: registry_step.induct)
    (simp_all add: background_ok release_ok acquireLocked_ok Clear_ok evictLocked_ok clearLocked_ok shutdownLocked_ok
      PruneIdle_ok expire_ok)

subsection \<open>Reachable registries\<close>

lemma start_ok:
  assumes "NewTenantRegistryContext opts = Some r"
  shows "registry_ok {} r"
proof (rule registry_okI)
  from assms obtain c where "r = \<lparr>rg_config = c, rg_cache = fmempty, rg_all = {||}, rg_heap = (\<lambda>_. new_entry),
          rg_next = 0, rg_cancelled = False, rg_closed = False, rg_stopped = False,
          rg_prov = (\<lambda>_. None), rg_closer = (\<lambda>_. None), rg_calls = [], rg_shut = [], rg_made = [],
          rg_panic = False\<rparr>"
    by (auto simp: NewTenantRegistryContext_def split: sum.splits)
  note r = this
  show "entry_ok {} r n" for n
    by (simp add: entry_ok_def Let_def leases_def prov_ok_def closer_ok_def drained_def new_entry_def r)
  show "cache_ok r" "closed_ok r" "insts_ok r" "\<not> rg_panic r"
    by (simp_all add: cache_ok_def closed_ok_def insts_ok_def owned_def r fcard_fempty)
  show "c \<in> set (rg_calls r) \<Longrightarrow> call_ok r c" for c by (simp add: r)
qed

theorem registry_run_ok: "registry_run r \<Longrightarrow> registry_ok {} r"
  by (induction rule: registry_run.induct) (auto intro: start_ok registry_step_ok)

subsection \<open>The stop signal\<close>

lemma provisionCheck_sel [simp]:
  "rg_all (provisionCheck n res r) = rg_all r" "rg_closed (provisionCheck n res r) = rg_closed r"
  "rg_stopped (provisionCheck n res r) = rg_stopped r" "rg_next (provisionCheck n res r) = rg_next r"
  "rg_closer (provisionCheck n res r) = rg_closer r" "rg_calls (provisionCheck n res r) = rg_calls r"
  by (auto simp: provisionCheck_def Let_def split: option.splits provisioning.splits factory_result.splits)

lemma factory_makes_sel [simp]:
  "rg_all (factory_makes res down r) = rg_all r" "rg_closed (factory_makes res down r) = rg_closed r"
  "rg_stopped (factory_makes res down r) = rg_stopped r" "rg_next (factory_makes res down r) = rg_next r"
  "rg_closer (factory_makes res down r) = rg_closer r" "rg_calls (factory_makes res down r) = rg_calls r"
  "rg_prov (factory_makes res down r) = rg_prov r"
  by (auto simp: factory_makes_def split: option.splits factory_result.splits)

lemma provisionDone_sel [simp]:
  "rg_all (provisionDone n r) = rg_all r" "rg_closed (provisionDone n r) = rg_closed r"
  "rg_stopped (provisionDone n r) = rg_stopped r" "rg_next (provisionDone n r) = rg_next r"
  "rg_calls (provisionDone n r) = rg_calls r"
  by (auto simp: provisionDone_def Let_def split: option.splits provisioning.splits)

lemma release_sel [simp]:
  "rg_all (release t now r) = rg_all r" "rg_closed (release t now r) = rg_closed r"
  "rg_stopped (release t now r) = rg_stopped r" "rg_next (release t now r) = rg_next r"
  "rg_prov (release t now r) = rg_prov r"
  by (auto simp: release_def giveBack_def split: call.splits)

lemma acquireReturn_sel [simp]:
  "rg_all (acquireReturn t s now ctxErr r) = rg_all r" "rg_closed (acquireReturn t s now ctxErr r) = rg_closed r"
  "rg_stopped (acquireReturn t s now ctxErr r) = rg_stopped r" "rg_next (acquireReturn t s now ctxErr r) = rg_next r"
  "rg_prov (acquireReturn t s now ctxErr r) = rg_prov r"
  by (auto simp: acquireReturn_def split: call.splits sum.splits)

lemma signal_signalled: "signalled (signalStoppedLocked r)"
  by (auto simp: signalled_def signalStoppedLocked_def)

lemma signalled_cong:
  "rg_all r' = rg_all r \<Longrightarrow> rg_closed r' = rg_closed r \<Longrightarrow> rg_stopped r' = rg_stopped r \<Longrightarrow> signalled r' = signalled r"
  by (simp add: signalled_def)

lemma acquireLocked_closed: "rg_closed r \<Longrightarrow> fst (acquireLocked order now ctxErr tenant r) = r"
  by (simp add: acquireLocked_def split: option.split)

lemma acquireLocked_open: "rg_closed (fst (acquireLocked order now ctxErr tenant r)) = rg_closed r"
  by (auto simp: acquireLocked_def lease_def newEntry_def makeRoom_def Let_def split: option.splits sum.splits if_splits)

lemma background_closed: "background_step r r' \<Longrightarrow> rg_closed r' = rg_closed r"
  by (induction rule: background_step.induct) (simp_all add: entryFinished_def Let_def)

lemma background_signalled: "background_step r r' \<Longrightarrow> signalled r \<Longrightarrow> signalled r'"
  by (induction rule: background_step.induct)
    (simp_all add: entryFinished_def Let_def signal_signalled, simp_all add: signalled_def)

lemma registry_step_signalled:
  assumes "registry_step r r'" and "registry_ok {} r" and "signalled r"
  shows "signalled r'"
  using assms
proof (induction rule: registry_step.induct)
  case (acquire order r now ctxErr tenant)
  then show ?case by (cases "rg_closed r") (simp_all add: acquireLocked_closed signalled_def acquireLocked_open)
next
  case (clear r)
  have "rg_closed r \<Longrightarrow> rg_cache r = fmempty" using registry_okD(4) [OF clear(1)] by (simp add: closed_ok_def)
  with clear(2) show ?case by (cases "rg_closed r") (simp_all add: signalled_def Clear_def)
next
  case (prune order r now)
  then show ?case
    using pruneLoop_spec [of r order now 0] ranges_lookup [of order "rg_cache r"]
    by (auto simp: PruneIdle_def ranges_def signalled_def)
qed (simp_all add: background_signalled shutdownLocked_def signal_signalled,
    simp_all add: signalled_def evictLocked_def clearLocked_def split: option.split)

theorem registry_run_signalled: "registry_run r \<Longrightarrow> signalled r"
proof (induction rule: registry_run.induct)
  case (start opts r)
  then show ?case by (auto simp: NewTenantRegistryContext_def signalled_def split: sum.splits)
qed (auto intro: registry_step_signalled registry_run_ok)

subsection \<open>Draining\<close>

text \<open>The work left: how far every provisioning, closing and lease is from its end.\<close>

fun prov_work :: "provisioning option \<Rightarrow> nat" where
  "prov_work (Some (Calling _)) = 2"
| "prov_work (Some (Checked _ _ _)) = 1"
| "prov_work _ = 0"

fun closer_work :: "closer option \<Rightarrow> nat" where
  "closer_work None = 3"
| "closer_work (Some Closing) = 2"
| "closer_work (Some ShutDown) = 1"
| "closer_work (Some Gone) = 0"

fun call_work :: "call \<Rightarrow> nat" where
  "call_work (Waiting _ _) = 2"
| "call_work (Holding _ _ _) = 1"
| "call_work Released = 0"

definition entry_work :: "registry \<Rightarrow> nat \<Rightarrow> nat" where
  "entry_work r n = prov_work (rg_prov r n) + closer_work (rg_closer r n)"

definition calls_work :: "registry \<Rightarrow> nat" where
  "calls_work r = sum_list (map call_work (rg_calls r))"

definition work :: "registry \<Rightarrow> nat" where
  "work r = (\<Sum>n<rg_next r. entry_work r n) + calls_work r"

lemma work_entry_less:
  assumes "rg_next r' = rg_next r" and "\<And>m. entry_work r' m \<le> entry_work r m" and "n < rg_next r"
    and "entry_work r' n < entry_work r n" and "calls_work r' \<le> calls_work r"
  shows "work r' < work r"
proof -
  have "(\<Sum>n<rg_next r. entry_work r' n) < (\<Sum>n<rg_next r. entry_work r n)"
    by (rule sum_strict_mono_ex1) (use assms in auto)
  with assms show ?thesis by (simp add: work_def)
qed

lemma work_call_less:
  assumes "rg_next r' = rg_next r" and "\<And>m. entry_work r' m \<le> entry_work r m" and "calls_work r' < calls_work r"
  shows "work r' < work r"
  using assms(1,3) sum_mono [of "{..<rg_next r}" "entry_work r'" "entry_work r"] assms(2) by (fastforce simp: work_def)

lemma calls_work_less:
  assumes "t < length (rg_calls r)" and "rg_calls r' = (rg_calls r)[t := c]" and "call_work c < call_work (rg_calls r ! t)"
  shows "calls_work r' < calls_work r"
proof -
  have "sum_list (map call_work (xs[t := c])) < sum_list (map call_work xs)"
    if "t < length xs" "call_work c < call_work (xs ! t)" for xs
    using that
  proof (induction xs arbitrary: t)
    case (Cons x xs)
    show ?case
    proof (cases t)
      case (Suc k)
      with Cons.IH [of k] Cons.prems show ?thesis by simp
    qed (use Cons.prems in simp)
  qed simp
  with assms show ?thesis by (simp add: calls_work_def)
qed

lemma finishLocked_work:
  assumes "re_closing (rg_heap r n) \<longleftrightarrow> rg_closer r n \<noteq> None"
  shows "entry_work (finishLocked n r) m \<le> entry_work r m"
  using assms by (auto simp: entry_work_def finishLocked_closer)

lemma giveBack_work:
  assumes "registry_ok {} r" and "t < length (rg_calls r)" and "call_entry (rg_calls r ! t) = Some n"
  shows "work (giveBack t now n r) < work r"
proof (rule work_call_less)
  have n: "re_closing (rg_heap r n) \<longleftrightarrow> rg_closer r n \<noteq> None"
    using registry_okD(1) [OF assms(1), of n] by (simp add: entry_ok_def Let_def closer_ok_def)
  have "entry_work (giveBack t now n r) m \<le> entry_work (modify n (\<lambda>e. e\<lparr>re_refs := re_refs e - 1, re_lastUsed := now\<rparr>)
        (r\<lparr>rg_calls := (rg_calls r)[t := Released]\<rparr>)) m" for m
    unfolding giveBack_def using n by (intro finishLocked_work) simp
  then show "entry_work (giveBack t now n r) m \<le> entry_work r m" for m by (simp add: entry_work_def)
  show "calls_work (giveBack t now n r) < calls_work r"
  proof (rule calls_work_less [OF assms(2)])
    show "call_work Released < call_work (rg_calls r ! t)" using assms(3) by (cases "rg_calls r ! t") auto
  qed (simp add: giveBack_def)
qed (simp add: giveBack_def)

lemma background_work:
  assumes "background_step r r'" and "registry_ok {} r"
  shows "work r' < work r"
  using assms
proof (induction rule: background_step.induct)
  case (factory r n tenant res down)
  let ?r = "provisionCheck n res (factory_makes res down r)"
  have n: "n < rg_next r" using registry_okD(1) [OF factory(3), of n] factory(1) by (auto simp: entry_ok_def Let_def)
  have "insts_ok r" using factory(3) by (rule registry_okD)
  then have shut: "set (rg_shut r) \<subseteq> set (rg_made r)" by (simp add: insts_ok_def)
  obtain enf err where "rg_prov ?r = (rg_prov r)(n \<mapsto> Checked tenant enf err)"
    using provisionCheck_cases [OF factory(1,2) shut, of down] by (metis (no_types, lifting) registry.select_convs(9) registry.surjective registry.update_convs(9))
  then show ?case using factory(1) n by (intro work_entry_less [of _ r n]) (auto simp: entry_work_def calls_work_def)
next
  case (provisioned r n tenant enf err)
  have n: "n < rg_next r" "re_closing (rg_heap r n) \<longleftrightarrow> rg_closer r n \<noteq> None"
    using registry_okD(1) [OF provisioned(2), of n] provisioned(1) by (auto simp: entry_ok_def Let_def closer_ok_def)
  let ?r = "modify n (\<lambda>e. cancel (e\<lparr>re_enf := enf, re_err := err, re_ready := True\<rparr>))
    (r\<lparr>rg_prov := (rg_prov r)(n \<mapsto> Provisioned tenant), rg_panic := rg_panic r \<or> re_ready (rg_heap r n)\<rparr>)"
  have done': "provisionDone n r = finishLocked n ?r" using provisioned(1) by (simp add: provisionDone_def Let_def)
  have le: "entry_work (finishLocked n ?r) m \<le> entry_work ?r m" for m using n by (intro finishLocked_work) simp
  have "entry_work ?r m \<le> entry_work r m" "entry_work ?r n < entry_work r n" for m
    using provisioned(1) by (auto simp: entry_work_def)
  with le show ?case unfolding done' using n(1)
    by (intro work_entry_less [of _ r n]) (auto simp: calls_work_def intro: order_trans le_less_trans)
next
  case (closing r n)
  have "n < rg_next r" using registry_okD(1) [OF closing(2), of n] closing(1) by (auto simp: entry_ok_def Let_def closer_ok_def)
  then show ?case using closing(1) by (intro work_entry_less [of _ r n]) (auto simp: entry_work_def calls_work_def)
next
  case (closed r n)
  have "n < rg_next r" using registry_okD(1) [OF closed(2), of n] closed(1) by (auto simp: entry_ok_def Let_def closer_ok_def)
  then show ?case using closed(1)
    by (intro work_entry_less [of _ r n]) (auto simp: entry_work_def calls_work_def entryFinished_def Let_def)
next
  case (returned t r tenant n s now ctxErr)
  show ?case
  proof (cases "acquireResult s (rg_heap r n) ctxErr")
    case (Inl er)
    with returned giveBack_work [OF returned(4,1), of n] show ?thesis by (simp add: acquireReturn_def release_def)
  next
    case (Inr i)
    with returned show ?thesis
      by (intro work_call_less calls_work_less [of t _ _ "Holding tenant n i"]) (auto simp: acquireReturn_def entry_work_def)
  qed
next
  case (released t r tenant n i now)
  then show ?case using giveBack_work [OF released(3,1), of n] by (simp add: release_def)
qed

text \<open>
  In a closed registry that has not stopped, something can always move: a pending factory call can
  return, a checked result be published, a waiting call see its entry ready, a lease be given back,
  an Enforcer be shut down or its closing be reported.
\<close>

lemma closed_progress:
  assumes ok': "registry_ok {} r" and "signalled r" and "rg_closed r" and "\<not> rg_stopped r"
  shows "\<exists>r'. background_step r r'"
proof -
  note ok = registry_okD [OF ok']
  obtain n where n: "n |\<in>| rg_all r" using assms(2-4) by (auto simp: signalled_def)
  have e: "re_retired (rg_heap r n)" "\<not> re_finished (rg_heap r n)" "rg_prov r n \<noteq> None"
    using ok(1) [of n] ok(4) n assms(3) by (auto simp: entry_ok_def Let_def closed_ok_def)
  from e(3) obtain p where p: "rg_prov r n = Some p" by auto
  show ?thesis
  proof (cases p)
    case (Calling tenant)
    with p background_step.factory [of r n tenant Panicked] show ?thesis by (auto simp: own_result_def)
  next
    case (Checked tenant enf err)
    with p show ?thesis by (blast intro: background_step.provisioned)
  next
    case (Provisioned tenant)
    with ok(1) [of n] p have ready: "re_ready (rg_heap r n)" by (simp add: entry_ok_def Let_def prov_ok_def)
    show ?thesis
    proof (cases "re_refs (rg_heap r n) = 0")
      case True
      with ok(1) [of n] e ready have "re_closing (rg_heap r n)" by (simp add: entry_ok_def Let_def drained_def)
      with ok(1) [of n] e(2) obtain c where "rg_closer r n = Some c" "c \<noteq> Gone"
        by (auto simp: entry_ok_def Let_def closer_ok_def)
      then show ?thesis by (cases c) (auto intro: background_step.closing background_step.closed)
    next
      case False
      with ok(1) [of n] have "leases r n \<noteq> 0" by (simp add: entry_ok_def Let_def)
      then have "\<exists>c \<in> set (rg_calls r). call_entry c = Some n" by (auto simp: leases_def filter_empty_conv)
      then obtain t where t: "t < length (rg_calls r)" "call_entry (rg_calls r ! t) = Some n"
        by (metis in_set_conv_nth)
      then show ?thesis
        using background_step.returned [of t r _ n EntryReady] background_step.released [of t r _ n] ready
        by (cases "rg_calls r ! t") (auto simp: selectable_def entryReady_def)
    qed
  qed
qed

lemma background_run_ok:
  "background_step\<^sup>*\<^sup>* r r' \<Longrightarrow> registry_run r \<Longrightarrow> registry_run r' \<and> rg_closed r' = rg_closed r \<and> work r' \<le> work r"
proof (induction rule: rtranclp_induct)
  case (step r1 r2)
  then have run: "registry_run r1" by simp
  with step show ?case
    using background_work [OF step(2) registry_run_ok [OF run]] background_closed [OF step(2)]
    by (auto intro: registry_run.step registry_step.background)
qed simp

lemma background_chain:
  "(background_step ^^ k) r r' \<Longrightarrow> registry_run r \<Longrightarrow> k + work r' \<le> work r"
proof (induction k arbitrary: r')
  case (Suc k)
  then obtain r1 where chain: "(background_step ^^ k) r r1" and last': "background_step r1 r'" by auto
  have "registry_run r1" using background_run_ok [OF relpowp_imp_rtranclp [OF chain] Suc.prems(2)] by simp
  then have "work r' < work r1" by (intro background_work [OF last'] registry_run_ok)
  with Suc.IH [OF chain Suc.prems(2)] show ?case by simp
qed simp

lemma closed_drains:
  assumes "registry_run r" and "rg_closed r"
  shows "\<exists>r'. background_step\<^sup>*\<^sup>* r r' \<and> rg_stopped r'"
  using assms
proof (induction "work r" arbitrary: r rule: less_induct)
  case less
  show ?case
  proof (cases "rg_stopped r")
    case False
    then obtain r1 where step: "background_step r r1"
      using closed_progress registry_run_ok registry_run_signalled less.prems by blast
    have "work r1 < work r" by (rule background_work [OF step registry_run_ok [OF less.prems(1)]])
    moreover have "registry_run r1" using less.prems(1) step by (auto intro: registry_run.step registry_step.background)
    moreover have "rg_closed r1" using background_closed [OF step] less.prems(2) by simp
    ultimately show ?thesis using less.hyps step by (meson converse_rtranclp_into_rtranclp)
  qed blast
qed

subsection \<open>What the invariant says\<close>

lemma lease_facts:
  assumes "registry_run r" and "Holding tenant n i \<in> set (rg_calls r)"
  shows "\<exists>k. i = Some k \<and> inst_tenant k = tenant \<and> inst_ref k \<notin> set (rg_shut r)" and "\<not> re_closing (rg_heap r n)"
proof -
  note ok = registry_okD [OF registry_run_ok [OF assms(1)]]
  from ok(2) [OF assms(2)] have c: "map_option prov_tenant (rg_prov r n) = Some tenant" "re_ready (rg_heap r n)"
    "re_err (rg_heap r n) = None" "i = re_enf (rg_heap r n)" by (auto simp: call_ok_def)
  with ok(1) [of n] have p: "rg_prov r n = Some (Provisioned tenant)"
    by (auto simp: entry_ok_def Let_def prov_ok_def split: option.splits provisioning.splits)
  with ok(1) [of n] c obtain k where k: "i = Some k" "inst_tenant k = tenant"
    by (auto simp: entry_ok_def Let_def prov_ok_def provided_def)
  obtain t where "t < length (rg_calls r)" "rg_calls r ! t = Holding tenant n i"
    using assms(2) by (meson in_set_conv_nth)
  then have "leases r n \<ge> 1" using leases_pos [of t r n] by simp
  with ok(1) [of n] show closing: "\<not> re_closing (rg_heap r n)" by (auto simp: entry_ok_def Let_def closer_ok_def)
  then have "\<not> shut_by (rg_closer r n)" using ok(1) [of n] by (auto simp: entry_ok_def Let_def closer_ok_def shut_by_def)
  moreover have "owned r n = Some (inst_ref k)" using p c(4) k(1) by (simp add: owned_def flip: c(4))
  ultimately have "inst_ref k \<notin> set (rg_shut r)" using ok(5) by (auto simp: insts_ok_def)
  with k show "\<exists>k. i = Some k \<and> inst_tenant k = tenant \<and> inst_ref k \<notin> set (rg_shut r)" by blast
qed

lemma finished_facts:
  assumes "registry_run r" and "re_finished (rg_heap r n)"
  shows "leases r n = 0" and "re_enf (rg_heap r n) = Some k \<Longrightarrow> inst_ref k \<in> set (rg_shut r)"
proof -
  note ok = registry_okD [OF registry_run_ok [OF assms(1)]]
  show "leases r n = 0" using ok(1) [of n] assms(2) by (auto simp: entry_ok_def Let_def closer_ok_def)
  assume k: "re_enf (rg_heap r n) = Some k"
  have "re_ready (rg_heap r n)" "rg_closer r n = Some Gone"
    using ok(1) [of n] assms(2) by (auto simp: entry_ok_def Let_def closer_ok_def)
  with ok(1) [of n] obtain t where "rg_prov r n = Some (Provisioned t)"
    by (auto simp: entry_ok_def Let_def prov_ok_def split: option.splits provisioning.splits)
  with k have "owned r n = Some (inst_ref k)" by (simp add: owned_def)
  with ok(5) \<open>rg_closer r n = Some Gone\<close> show "inst_ref k \<in> set (rg_shut r)" by (auto simp: insts_ok_def shut_by_def)
qed

end
