(* ===== verification/RegistryProps.thy ===== *)
theory RegistryProps
  imports RegistryLeases
begin

text \<open>The properties of the tenant registry, and a run of it on which they are evaluated.\<close>

subsection \<open>A run\<close>

text \<open>
  A registry of capacity one: a caller acquires the lease of tenant \<^verbatim>\<open>acme\<close>, the factory delivers,
  the caller returns with the Enforcer (\<open>reg_held\<close>) and gives it back (\<open>reg_idle\<close>); a caller of
  tenant \<^verbatim>\<open>globex\<close> takes its place (\<open>reg_evicted\<close>), and the goroutine closes it (\<open>reg_finished\<close>).
\<close>

definition reg_empty :: registry where
  "reg_empty = the (NewTenantRegistryContext [WithRegistryCapacity 1, WithRegistryIdleTTL 5])"

definition acme_enforcer :: inst where "acme_enforcer = \<lparr>inst_ref = 7, inst_tenant = ''acme''\<rparr>"

definition reg_waiting :: registry where
  "reg_waiting = fst (acquireLocked [] 10 None ''acme'' reg_empty)"

definition reg_checked :: registry where
  "reg_checked = provisionCheck 0 (Returned (Some acme_enforcer) None) (factory_makes (Returned (Some acme_enforcer) None) False reg_waiting)"

definition reg_ready :: registry where "reg_ready = provisionDone 0 reg_checked"
definition reg_held :: registry where "reg_held = acquireReturn 0 EntryReady 11 None reg_ready"
definition reg_idle :: registry where "reg_idle = release 0 12 reg_held"
definition reg_evicted :: registry where "reg_evicted = fst (acquireLocked [(''acme'', 0)] 13 None ''globex'' reg_idle)"
definition reg_closed :: registry where "reg_closed = closeEnforcer 0 reg_evicted"
definition reg_finished :: registry where "reg_finished = entryFinished 0 reg_closed"

lemma reg_empty_run: "registry_run reg_empty"
  by (rule registry_run.start [of "[WithRegistryCapacity 1, WithRegistryIdleTTL 5]"])
    (simp add: reg_empty_def NewTenantRegistryContext_def WithRegistryCapacity_def WithRegistryIdleTTL_def)

lemma reg_waiting_run: "registry_run reg_waiting"
  unfolding reg_waiting_def
  by (rule registry_run.step [OF reg_empty_run registry_step.acquire])
    (simp add: ranges_def reg_empty_def NewTenantRegistryContext_def WithRegistryCapacity_def WithRegistryIdleTTL_def)

lemma reg_checked_run: "registry_run reg_checked"
proof -
  have "rg_prov reg_waiting 0 = Some (Calling ''acme'')" by code_simp
  moreover have "own_result (Returned (Some acme_enforcer) None) reg_waiting" by code_simp
  ultimately show ?thesis
    unfolding reg_checked_def
    by (intro registry_run.step [OF reg_waiting_run] registry_step.background background_step.factory)
qed

lemma reg_ready_run: "registry_run reg_ready"
proof -
  have "rg_prov reg_checked 0 = Some (Checked ''acme'' (Some acme_enforcer) None)" by code_simp
  then show ?thesis
    unfolding reg_ready_def
    by (intro registry_run.step [OF reg_checked_run] registry_step.background background_step.provisioned)
qed

lemma reg_held_run: "registry_run reg_held"
proof -
  have "0 < length (rg_calls reg_ready)" "rg_calls reg_ready ! 0 = Waiting ''acme'' 0" "selectable EntryReady (rg_heap reg_ready 0)"
    by code_simp+
  then show ?thesis
    unfolding reg_held_def
    by (intro registry_run.step [OF reg_ready_run] registry_step.background background_step.returned)
qed

lemma reg_held_calls: "rg_calls reg_held = [Holding ''acme'' 0 (Some acme_enforcer)]"
  by code_simp

lemma reg_idle_run: "registry_run reg_idle"
proof -
  have "0 < length (rg_calls reg_held)" "rg_calls reg_held ! 0 = Holding ''acme'' 0 (Some acme_enforcer)"
    by (simp_all add: reg_held_calls)
  then show ?thesis
    unfolding reg_idle_def
    by (intro registry_run.step [OF reg_held_run] registry_step.background background_step.released)
qed

lemma reg_idle_ranges: "ranges [(''acme'', 0)] (rg_cache reg_idle)"
proof -
  have "rg_cache reg_idle = fmupd ''acme'' 0 fmempty" by code_simp
  then show ?thesis by (simp add: ranges_def)
qed

lemma reg_evicted_run: "registry_run reg_evicted"
  unfolding reg_evicted_def
  by (rule registry_run.step [OF reg_idle_run registry_step.acquire [OF reg_idle_ranges]])

lemma reg_closed_run: "registry_run reg_closed"
proof -
  have "rg_closer reg_evicted 0 = Some Closing" by code_simp
  then show ?thesis
    unfolding reg_closed_def
    by (intro registry_run.step [OF reg_evicted_run] registry_step.background background_step.closing)
qed

lemma reg_finished_run: "registry_run reg_finished"
proof -
  have "rg_closer reg_closed 0 = Some ShutDown" by code_simp
  then show ?thesis
    unfolding reg_finished_def
    by (intro registry_run.step [OF reg_closed_run] registry_step.background background_step.closed)
qed

text \<open>The same goroutine closes the entry when, instead, the registry is shut down (\<open>reg_drained\<close>).\<close>

definition reg_shutting :: registry where "reg_shutting = shutdownLocked [0] reg_idle"
definition reg_drained :: registry where "reg_drained = entryFinished 0 (closeEnforcer 0 reg_shutting)"

lemma closed_by_goroutine:
  assumes "rg_closer r n = Some Closing" and "rg_closer (closeEnforcer n r) n = Some ShutDown"
  shows "registry_step\<^sup>*\<^sup>* r (entryFinished n (closeEnforcer n r))"
  using registry_step.background [OF background_step.closing [OF assms(1)]]
    registry_step.background [OF background_step.closed [OF assms(2)]] by (rule converse_rtranclp_into_rtranclp [OF _ r_into_rtranclp])

lemma reg_shutdown_steps: "registry_step\<^sup>*\<^sup>* (shutdownLocked [0] reg_idle) reg_drained"
proof -
  have c: "rg_closer reg_shutting 0 = Some Closing" "rg_closer (closeEnforcer 0 reg_shutting) 0 = Some ShutDown"
    by code_simp+
  from closed_by_goroutine [OF c] show ?thesis unfolding reg_drained_def reg_shutting_def [symmetric] .
qed

text \<open>Evicting \<^verbatim>\<open>acme\<close> itself takes the same two steps.\<close>

definition reg_gone :: registry where
  "reg_gone = entryFinished 0 (closeEnforcer 0 (fst (evictLocked ''acme'' reg_idle)))"

lemma reg_evict_steps: "registry_step\<^sup>*\<^sup>* (fst (evictLocked ''acme'' reg_idle)) reg_gone"
proof -
  let ?r = "fst (evictLocked ''acme'' reg_idle)"
  have c: "rg_closer ?r 0 = Some Closing" "rg_closer (closeEnforcer 0 ?r) 0 = Some ShutDown"
    by code_simp+
  from closed_by_goroutine [OF c] show ?thesis unfolding reg_gone_def .
qed

subsection \<open>What the waits rest on\<close>

definition closed_down :: "registry \<Rightarrow> nat \<Rightarrow> bool" where
  "closed_down r n \<longleftrightarrow> leases r n = 0 \<and> (\<forall>k. re_enf (rg_heap r n) = Some k \<longrightarrow> inst_ref k \<in> set (rg_shut r))"

lemma finished_closed_down: "registry_run r \<Longrightarrow> re_finished (rg_heap r n) \<Longrightarrow> closed_down r n"
  using finished_facts by (auto simp: closed_down_def)

lemma registry_steps_run: "registry_step\<^sup>*\<^sup>* r r' \<Longrightarrow> registry_run r \<Longrightarrow> registry_run r'"
  by (induction rule: rtranclp_induct) (auto intro: registry_run.step)

lemma retire_retired [simp]: "re_retired (rg_heap (retireLocked m r) n) \<longleftrightarrow> n = m \<or> re_retired (rg_heap r n)"
  using retire_fold_retired [of "[m]" r n] by simp

lemma prune_retired: "re_retired (rg_heap r n) \<Longrightarrow> re_retired (rg_heap (fst (pruneLoop now order (r, k))) n)"
  by (induction now order "(r, k)" arbitrary: r k rule: pruneLoop.induct) simp_all

lemma background_retired: "background_step r r' \<Longrightarrow> re_retired (rg_heap r n) \<Longrightarrow> re_retired (rg_heap r' n)"
  by (erule background_step.cases)
    (auto simp: provisionCheck_def factory_makes_def provisionDone_def closeEnforcer_def entryFinished_def
      signalStoppedLocked_def acquireReturn_def release_def giveBack_def Let_def
      split: option.split provisioning.split factory_result.split call.split sum.split prod.split)

lemma acquire_retired:
  assumes "registry_ok {} r" and "re_retired (rg_heap r n)"
  shows "re_retired (rg_heap (fst (acquireLocked order now ctxErr tenant r)) n)"
proof -
  have "n \<noteq> rg_next r" using registry_okD(1) [OF assms(1), of n] assms(2) by (auto simp: entry_ok_def Let_def)
  with assms(2) show ?thesis
    by (auto simp: acquireLocked_def makeRoom_def newEntry_def lease_def Let_def split: option.split)
qed

text \<open>No step makes a retired entry live again.\<close>

lemma registry_step_retired:
  "registry_step r r' \<Longrightarrow> registry_ok {} r \<Longrightarrow> re_retired (rg_heap r n) \<Longrightarrow> re_retired (rg_heap r' n)"
  by (erule registry_step.cases)
    (auto simp: release_def Clear_def evictLocked_def clearLocked_def shutdownLocked_def signalStoppedLocked_def
      PruneIdle_def background_retired acquire_retired prune_retired split: option.split)

lemma retired_stays:
  assumes "registry_step\<^sup>*\<^sup>* r r'" and "registry_run r" and "re_retired (rg_heap r n)"
  shows "re_retired (rg_heap r' n)"
  using assms(1,3)
  by (induction rule: rtranclp_induct) (auto dest: registry_step_retired registry_run_ok registry_steps_run [OF _ assms(2)])

text \<open>\<^verbatim>\<open>Shutdown\<close> retires every entry the registry tracks, and it tracks every cached one.\<close>

lemma shutdownLocked_retires: "fset_of_list every = rg_all r \<Longrightarrow> n |\<in>| rg_all r \<Longrightarrow> re_retired (rg_heap (shutdownLocked every r) n)"
  by (auto simp: shutdownLocked_def signalStoppedLocked_def fset_of_list_elem dest: sym)

lemma tracked:
  assumes "registry_run r" and "(\<exists>t. fmlookup (rg_cache r) t = Some n) \<or> n |\<in>| rg_all r"
  shows "n |\<in>| rg_all r"
  using assms(2) registry_okD(1) [OF registry_run_ok [OF assms(1)], of n]
  by (auto simp: entry_ok_def Let_def dest: fmranI)

lemma stopped_facts:
  assumes "registry_run r" and "Shutdown_returns r ctxErr None"
  shows "rg_cache r = fmempty" "re_retired (rg_heap r n) \<Longrightarrow> re_finished (rg_heap r n)"
  using registry_okD(4) [OF registry_run_ok [OF assms(1)]] registry_okD(1) [OF registry_run_ok [OF assms(1)], of n] assms(2)
  by (auto simp: Shutdown_returns_def closed_ok_def entry_ok_def Let_def)

subsection \<open>Properties\<close>

text \<open>
  C23. A lease protects its Enforcer: in every reachable state, whatever callers, factories,
  evictions, timeouts and shutdowns interleave, a call of \<^verbatim>\<open>Acquire\<close> that returned without error and
  has not been released holds a non-nil Enforcer of exactly the tenant it asked for, and the registry
  has not shut that Enforcer down.
\<close>

theorem registry_lease_safe:
  assumes "registry_run r" and "Holding tenant n i \<in> set (rg_calls r)"
  shows "\<exists>k. i = Some k \<and> inst_tenant k = tenant \<and> inst_ref k \<notin> set (rg_shut r)"
  by (rule lease_facts(1) [OF assms])

theorem registry_lease_safe_witness:
  "inst_ref acme_enforcer \<notin> set (rg_shut reg_held) \<and> Holding ''acme'' 0 (Some acme_enforcer) \<in> set (rg_calls reg_held)"
proof -
  have held: "Holding ''acme'' 0 (Some acme_enforcer) \<in> set (rg_calls reg_held)" by (simp add: reg_held_calls)
  show ?thesis using registry_lease_safe [OF reg_held_run held] held by auto
qed

text \<open>
  C24. The capacity is a hard bound: a registry built with a positive capacity never caches more
  tenants, however many callers acquire leases at the same time.
\<close>

theorem registry_capacity_bound:
  assumes "registry_run r" and "0 < cf_capacity (rg_config r)"
  shows "int (Len r) \<le> cf_capacity (rg_config r)"
  using registry_okD(3) [OF registry_run_ok [OF assms(1)]] assms(2) by (simp add: cache_ok_def Len_def)

theorem registry_capacity_bound_witness: "Len reg_evicted \<le> 1"
proof -
  have "cf_capacity (rg_config reg_evicted) = 1" by code_simp
  then show ?thesis using registry_capacity_bound [OF reg_evicted_run] by simp
qed

text \<open>
  The counters are exact and no channel is closed twice: the reference count of every entry is
  the number of calls that wait for it or hold its lease, an entry that is being closed is retired,
  provisioned and without leases, and no step ever closes a closed channel (which would panic).
\<close>

theorem registry_counts:
  assumes "registry_run r"
  shows "\<not> rg_panic r \<and> re_refs (rg_heap r n) = leases r n \<and>
    (re_closing (rg_heap r n) \<longrightarrow> re_retired (rg_heap r n) \<and> re_ready (rg_heap r n) \<and> leases r n = 0)"
  using registry_okD(1) [OF registry_run_ok [OF assms], of n] registry_okD(6) [OF registry_run_ok [OF assms]] by (auto simp: entry_ok_def Let_def closer_ok_def)

text \<open>
  C25. A shutdown drains: after \<^verbatim>\<open>Shutdown\<close> has run its lock section, a run of background steps
  (factories returning or panicking, waiting callers returning, leases given back, Enforcers shut
  down) that closes the stopped channel exists; until it is closed some such step is always possible,
  and no run of them is longer than the work left, so every run that goes on as long as it can ends
  with the channel closed.
\<close>

theorem registry_shutdown_drains:
  assumes "registry_run r" and "distinct order" and "fset_of_list order = rg_all r"
  shows "(\<exists>q. background_step\<^sup>*\<^sup>* (shutdownLocked order r) q \<and> rg_stopped q) \<and>
    (\<forall>q. background_step\<^sup>*\<^sup>* (shutdownLocked order r) q \<longrightarrow> rg_stopped q \<or> (\<exists>q'. background_step q q')) \<and>
    (\<forall>k q. (background_step ^^ k) (shutdownLocked order r) q \<longrightarrow> k \<le> work (shutdownLocked order r))"
proof -
  let ?r = "shutdownLocked order r"
  have run: "registry_run ?r" using assms by (auto intro: registry_run.step registry_step.shutdown)
  have closed: "rg_closed ?r" by (simp add: shutdownLocked_def)
  have "rg_stopped q \<or> (\<exists>q'. background_step q q')" if "background_step\<^sup>*\<^sup>* ?r q" for q
    using background_run_ok [OF that run] closed closed_progress registry_run_ok registry_run_signalled by blast
  moreover have "k \<le> work ?r" if "(background_step ^^ k) ?r q" for k q
    using background_chain [OF that run] by simp
  ultimately show ?thesis using closed_drains [OF run closed] by blast
qed

theorem registry_shutdown_drains_witness:
  "\<exists>q. background_step\<^sup>*\<^sup>* (shutdownLocked [0] reg_held) q \<and> rg_stopped q"
proof -
  have "fset_of_list [0] = rg_all reg_held" by code_simp
  then show ?thesis using registry_shutdown_drains [OF reg_held_run, of "[0]"] by simp
qed

text \<open>
  C26. A wait that reports success means what it says, whatever steps ran between the lock section
  and the return. When \<^verbatim>\<open>EvictContext\<close> returns without error, the entry the tenant had has no lease left
  and its Enforcer is shut down; when \<^verbatim>\<open>ClearAndCloseContext\<close> returns without error, that holds for
  every entry cached when it took the lock; when \<^verbatim>\<open>Shutdown\<close> returns without error, the cache is empty
  and that holds for every entry cached or still draining when it took the lock, and for every entry
  retired since.
\<close>

theorem registry_waits_sound:
  assumes "registry_run r0"
  shows "(registry_step\<^sup>*\<^sup>* (fst (evictLocked tenant r0)) r \<and>
        EvictContext_returns r (snd (evictLocked tenant r0)) ctxErr True None \<longrightarrow>
      (\<exists>n. fmlookup (rg_cache r0) tenant = Some n \<and> closed_down r n)) \<and>
    (ranges order (rg_cache r0) \<and> registry_step\<^sup>*\<^sup>* (clearLocked order r0) r \<and>
        ClearAndClose_returns r (map snd order) ctxErr None \<longrightarrow>
      (\<forall>t n. fmlookup (rg_cache r0) t = Some n \<longrightarrow> closed_down r n)) \<and>
    (distinct every \<and> fset_of_list every = rg_all r0 \<and> registry_step\<^sup>*\<^sup>* (shutdownLocked every r0) r \<and>
        Shutdown_returns r ctxErr None \<longrightarrow>
      rg_cache r = fmempty \<and> (\<forall>n. (\<exists>t. fmlookup (rg_cache r0) t = Some n) \<or> n |\<in>| rg_all r0 \<or>
        re_retired (rg_heap r n) \<longrightarrow> closed_down r n))"
proof (intro conjI impI; elim conjE)
  assume steps: "registry_step\<^sup>*\<^sup>* (fst (evictLocked tenant r0)) r"
    and ret: "EvictContext_returns r (snd (evictLocked tenant r0)) ctxErr True None"
  have run: "registry_run r"
    by (rule registry_steps_run [OF steps registry_run.step [OF assms registry_step.evict]])
  from ret show "\<exists>n. fmlookup (rg_cache r0) tenant = Some n \<and> closed_down r n"
    by (auto simp: EvictContext_returns_def evictLocked_def finished_closed_down [OF run] split: option.splits)
next
  assume order: "ranges order (rg_cache r0)" and steps: "registry_step\<^sup>*\<^sup>* (clearLocked order r0) r"
    and ret: "ClearAndClose_returns r (map snd order) ctxErr None"
  have run: "registry_run r"
    by (rule registry_steps_run [OF steps registry_run.step [OF assms registry_step.clear_and_close [OF order]]])
  have "\<forall>m \<in> set entries. re_finished (rg_heap r m)" if "ClearAndClose_returns r entries ctxErr None" for entries
    using that by (induction entries) auto
  from this [OF ret] show "\<forall>t n. fmlookup (rg_cache r0) t = Some n \<longrightarrow> closed_down r n"
    using finished_closed_down [OF run] ranges_lookup [OF order] by force
next
  assume every: "distinct every" "fset_of_list every = rg_all r0"
    and steps: "registry_step\<^sup>*\<^sup>* (shutdownLocked every r0) r" and ret: "Shutdown_returns r ctxErr None"
  have run1: "registry_run (shutdownLocked every r0)"
    by (rule registry_run.step [OF assms registry_step.shutdown [OF every]])
  have run: "registry_run r" by (rule registry_steps_run [OF steps run1])
  have retired: "re_retired (rg_heap r n)" if "(\<exists>t. fmlookup (rg_cache r0) t = Some n) \<or> n |\<in>| rg_all r0" for n
    by (rule retired_stays [OF steps run1 shutdownLocked_retires [OF every(2) tracked [OF assms that]]])
  show "rg_cache r = fmempty" by (rule stopped_facts(1) [OF run ret])
  show "\<forall>n. (\<exists>t. fmlookup (rg_cache r0) t = Some n) \<or> n |\<in>| rg_all r0 \<or> re_retired (rg_heap r n) \<longrightarrow> closed_down r n"
    using stopped_facts(2) [OF run ret] finished_closed_down [OF run] retired by blast
qed

theorem registry_waits_sound_witness:
  "closed_down reg_gone 0 \<and> closed_down reg_drained 0 \<and> rg_cache reg_drained = fmempty"
proof -
  have evict: "EvictContext_returns reg_gone (snd (evictLocked ''acme'' reg_idle)) None True None" by code_simp
  have stop: "Shutdown_returns reg_drained None None" by code_simp
  have every: "fset_of_list [0] = rg_all reg_idle" by code_simp
  have cached: "fmlookup (rg_cache reg_idle) ''acme'' = Some 0" by code_simp
  note waits = registry_waits_sound [OF reg_idle_run, where ctxErr = None]
  have "closed_down reg_gone 0"
    using waits [of "''acme''" reg_gone] evict cached reg_evict_steps by auto
  moreover have "rg_cache reg_drained = fmempty \<and> closed_down reg_drained 0"
    using waits [of "''acme''" reg_drained _ "[0]"] stop every cached reg_shutdown_steps by auto
  ultimately show ?thesis by blast
qed

text \<open>\<^verbatim>\<open>GetContext\<close> keeps no lease, whatever it returns.\<close>

lemma GetContext_keeps_no_lease:
  assumes "t < length (rg_calls r)" and "rg_calls r ! t = Waiting tenant n"
  shows "rg_calls (fst (GetContext_returns t n s now ctxErr r)) ! t = Released"
  using assms by (auto simp: GetContext_returns_def acquireReturn_def release_def giveBack_def Let_def split: sum.split)

text \<open>
  C27. Acquiring has the documented outcome on every branch. An error changes nothing and is the
  caller's own, else \<^verbatim>\<open>ErrRegistryClosed\<close> of a closed registry, else \<^verbatim>\<open>ErrTenantCapacity\<close>, which only a
  tenant that is not cached gets, of a full registry in which every entry is leased or still being
  provisioned. In every other case the call gets the entry of the tenant, with one more lease: a cached
  one is reused, however full the registry is, and a new one takes the place of no other, or, in a full
  registry, of an idle one that nobody used for longest.
\<close>

theorem acquire_outcome:
  assumes "registry_run r" and "ranges order (rg_cache r)"
  shows "case acquireLocked order now ctxErr tenant r of
      (r', Inl er) \<Rightarrow> r' = r \<and> (ctxErr = Some er \<or>
         ctxErr = None \<and> rg_closed r \<and> er = ErrRegistryClosed \<or>
         ctxErr = None \<and> \<not> rg_closed r \<and> er = ErrTenantCapacity \<and> fmlookup (rg_cache r) tenant = None \<and>
           0 < cf_capacity (rg_config r) \<and> int (Len r) = cf_capacity (rg_config r) \<and>
           (\<forall>t n. fmlookup (rg_cache r) t = Some n \<longrightarrow> \<not> evictable (rg_heap r n)))
    | (r', Inr n) \<Rightarrow> ctxErr = None \<and> \<not> rg_closed r \<and> leases r' n = leases r n + 1 \<and>
        (if fmlookup (rg_cache r) tenant \<noteq> None then fmlookup (rg_cache r) tenant = Some n \<and> rg_cache r' = rg_cache r
         else n = rg_next r \<and>
           (if 0 < cf_capacity (rg_config r) \<and> int (Len r) = cf_capacity (rg_config r)
            then \<exists>name m. fmlookup (rg_cache r) name = Some m \<and> evictable (rg_heap r m) \<and>
              rg_cache r' = fmupd tenant n (fmdrop name (rg_cache r)) \<and>
              (\<forall>t k. fmlookup (rg_cache r) t = Some k \<longrightarrow> evictable (rg_heap r k) \<longrightarrow>
                re_lastUsed (rg_heap r m) \<le> re_lastUsed (rg_heap r k))
            else rg_cache r' = fmupd tenant n (rg_cache r)))"
proof -
  have ok: "cache_ok r" by (rule registry_okD(3) [OF registry_run_ok [OF assms(1)]])
  have lease: "leases (lease now t n r') n = leases r' n + 1" for t n r' by (simp add: leases_def lease_def)
  have new: "leases (snd (newEntry tenant r')) n = leases r' n" for r' n
    by (rule leases_cong) (simp add: newEntry_def Let_def)
  have retire: "leases (retireLocked m (r\<lparr>rg_cache := c\<rparr>)) n = leases r n" for m c n by (rule leases_cong) simp
  show ?thesis
  proof (cases "ctxErr = None \<and> \<not> rg_closed r \<and> fmlookup (rg_cache r) tenant = None")
    case False
    then show ?thesis
      by (auto simp: acquireLocked_def lease split: option.split) (simp_all add: lease_def)
  next
    case live: True
    show ?thesis
    proof (cases "0 < cf_capacity (rg_config r) \<and> cf_capacity (rg_config r) \<le> int (Len r)")
      case False
      then have "makeRoom order r = Inr r" by (auto simp: makeRoom_def Len_def)
      with live have "acquireLocked order now ctxErr tenant r = (lease now tenant (rg_next r) (snd (newEntry tenant r)), Inr (rg_next r))"
        by (simp add: acquireLocked_def newEntry_def Let_def)
      moreover have "rg_cache (lease now tenant (rg_next r) (snd (newEntry tenant r))) = fmupd tenant (rg_next r) (rg_cache r)"
        by (simp add: lease_def newEntry_def Let_def)
      ultimately show ?thesis using live False by (auto simp: lease new)
    next
      case True
      then have full: "int (Len r) = cf_capacity (rg_config r)" using ok by (simp add: cache_ok_def Len_def)
      show ?thesis
      proof (cases "oldestEntry (rg_heap r) order None")
        case None
        then have none: "\<not> evictable (rg_heap r n)" if "fmlookup (rg_cache r) t = Some n" for t n
          using that ranges_lookup [OF assms(2)] by (auto simp: oldestEntry_None)
        from live True None have "acquireLocked order now ctxErr tenant r = (r, Inl ErrTenantCapacity)"
          by (simp add: acquireLocked_def makeRoom_def Len_def)
        with live True none full show ?thesis by auto
      next
        case (Some e)
        then obtain name m where e: "oldestEntry (rg_heap r) order None = Some (name, m)" by (cases e) auto
        let ?r = "retireLocked m (r\<lparr>rg_cache := fmdrop name (rg_cache r)\<rparr>)"
        from live True e have run: "acquireLocked order now ctxErr tenant r =
            (lease now tenant (rg_next r) (snd (newEntry tenant ?r)), Inr (rg_next r))"
          by (simp add: acquireLocked_def makeRoom_def Len_def newEntry_def Let_def)
        from oldestEntry_Some [OF e] have "fmlookup (rg_cache r) name = Some m \<and> evictable (rg_heap r m)"
          "\<And>t k. fmlookup (rg_cache r) t = Some k \<Longrightarrow> evictable (rg_heap r k) \<Longrightarrow>
             re_lastUsed (rg_heap r m) \<le> re_lastUsed (rg_heap r k)"
          using ranges_lookup [OF assms(2)] by fastforce+
        moreover have "rg_cache (lease now tenant (rg_next r) (snd (newEntry tenant ?r))) =
            fmupd tenant (rg_next r) (fmdrop name (rg_cache r))"
          by (simp add: lease_def newEntry_def Let_def)
        ultimately show ?thesis
          using live full True run lease [of tenant "rg_next r" "snd (newEntry tenant ?r)"] new retire by auto
      qed
    qed
  qed
qed

theorem acquire_outcome_witness:
  "snd (acquireLocked [(''acme'', 0)] 13 None ''globex'' reg_held) = Inl ErrTenantCapacity \<and>
   (\<nexists>t n. fmlookup (rg_cache reg_held) t = Some n \<and> evictable (rg_heap reg_held n))"
proof -
  have "rg_cache reg_held = fmupd ''acme'' 0 fmempty" by code_simp
  then have "ranges [(''acme'', 0)] (rg_cache reg_held)" by (simp add: ranges_def)
  note out = acquire_outcome [OF reg_held_run this, where now = 13 and ctxErr = None and tenant = "''globex''"]
  have full: "snd (acquireLocked [(''acme'', 0)] 13 None ''globex'' reg_held) = Inl ErrTenantCapacity" by code_simp
  with out show ?thesis by (auto split: prod.splits)
qed

text \<open>
  Pruning removes exactly the idle entries: with an idle TTL configured and the registry open,
  the entries that are provisioned, unleased and unused for at least the TTL leave the cache, all
  others stay, and the number returned is how many left.
\<close>

lemma PruneIdle_outcome:
  assumes "registry_run r" and "ranges order (rg_cache r)" and "0 < cf_idleTTL (rg_config r)" and "\<not> rg_closed r"
  shows "rg_cache (fst (PruneIdle order now r)) =
      fmfilter (\<lambda>t. \<not> idle now (rg_config r) (rg_heap r (the (fmlookup (rg_cache r) t)))) (rg_cache r) \<and>
    int (Len (fst (PruneIdle order now r))) + int (snd (PruneIdle order now r)) = int (Len r)"
proof -
  let ?idle = "\<lambda>n. idle now (rg_config r) (rg_heap r n)" and ?r = "fst (pruneLoop now order (r, 0))"
  have look: "(k, n) \<in> set order \<longleftrightarrow> fmlookup (rg_cache r) k = Some n" for k n by (rule ranges_lookup [OF assms(2)])
  have d: "distinct (map fst order)" using assms(2) by (simp add: ranges_def)
  from pruneLoop_spec [OF registry_run_ok [OF assms(1)] d, of now 0] look
  have count: "snd (pruneLoop now order (r, 0)) = length (filter (\<lambda>(k, n). ?idle n) order)"
    and cache: "fmlookup (rg_cache ?r) k = (if \<exists>n. (k, n) \<in> set order \<and> ?idle n then None else fmlookup (rg_cache r) k)" for k
    by auto
  have filt: "rg_cache ?r = fmfilter (\<lambda>t. \<not> ?idle (the (fmlookup (rg_cache r) t))) (rg_cache r)"
    by (rule fmap_ext) (use look in \<open>auto simp: cache split: option.split\<close>, metis option.exhaust_sel)
  have dom: "fmdom (rg_cache r) = fset_of_list (map fst order)"
    using assms(2) by (simp add: ranges_def flip: fmdom_of_list)
  have "fmdom (rg_cache ?r) = fset_of_list (map fst (filter (\<lambda>(k, n). \<not> ?idle n) order))"
  proof (rule fset_eqI)
    fix k
    have "k |\<in>| fmdom (rg_cache ?r) \<longleftrightarrow> (\<exists>n. (k, n) \<in> set order \<and> \<not> ?idle n)"
      by (auto simp: fmlookup_dom_iff cache look split: if_splits)
    then show "k |\<in>| fmdom (rg_cache ?r) \<longleftrightarrow> k |\<in>| fset_of_list (map fst (filter (\<lambda>(k, n). \<not> ?idle n) order))"
      by (force simp: fset_of_list_elem)
  qed
  moreover have card: "fcard (fset_of_list ks) = length ks" if "distinct ks" for ks :: "string list"
    using that by (simp add: fcard.rep_eq fset_of_list.rep_eq distinct_card)
  ultimately have "Len ?r = length (filter (\<lambda>(k, n). \<not> ?idle n) order)"
    using card [of "map fst (filter (\<lambda>(k, n). \<not> ?idle n) order)"] d by (simp add: Len_def distinct_map_filter)
  moreover have "Len r = length order" using card [OF d] by (simp add: Len_def dom)
  moreover have "length (filter (\<lambda>(k, n). ?idle n) order) + length (filter (\<lambda>(k, n). \<not> ?idle n) order) = length order"
    using sum_length_filter_compl [of "\<lambda>(k, n). ?idle n" order] by (simp add: split_def)
  ultimately show ?thesis using assms(3,4) filt count by (simp add: PruneIdle_def)
qed

end
