(* ===== verification/ComponentProps.thy ===== *)
theory ComponentProps
  imports Scenario
begin

text \<open>
  Properties of single components: the traversals of the role hierarchy, policy conditions and their
  stored form, and the LRU cache.
\<close>

subsection \<open>The role hierarchy\<close>

text \<open>
  C32. The traversals of the hierarchy terminate on every graph, cyclic ones included, and decide
  cycles exactly: \<^verbatim>\<open>detectCycle\<close> reports a cycle if and only if one can be reached from the role over
  parents, and on a store that answers \<^verbatim>\<open>collectEffective\<close> fails exactly then and otherwise returns
  exactly the permissions of the role and its ancestors, added to those it was given.
\<close>

theorem hierarchy_exact:
  assumes "never_fails g"
  shows "detectCycle (g_roles g) n {||} =
      (if \<exists>x. ancestor (g_roles g) n x \<and> cycle_at (g_roles g) x then Some ErrCycleDetected else None) \<and>
    (case collectEffective g n perm {||} of
       Inl er \<Rightarrow> er = ErrCycleDetected \<and> (\<exists>x. ancestor (g_roles g) n x \<and> cycle_at (g_roles g) x)
     | Inr perm' \<Rightarrow> (\<forall>x. ancestor (g_roles g) n x \<longrightarrow> \<not> cycle_at (g_roles g) x) \<and>
         (\<forall>res act. ps_get perm' res act \<longleftrightarrow> grants (g_roles g) n res act \<or> ps_get perm res act))"
proof (cases "collectEffective g n perm {||}")
  case (Inl er)
  then have "er = ErrCycleDetected \<and> (\<exists>x. ancestor (g_roles g) n x \<and> cycle_at (g_roles g) x)"
    using collectEffective_total [OF assms, of n perm] by (metis sum.inject(1) sum.distinct(1))
  with Inl show ?thesis by (simp add: detectCycle_iff)
next
  case (Inr perm')
  with collectEffective_no_cycle [of g n perm "{||}"] collectEffective_grants [OF Inr] show ?thesis
    by (auto simp: detectCycle_iff)
qed

definition loop_roles :: "(string, role) fmap" where
  "loop_roles = fmap_of_list [(''a'', a_role ''a'' [(''doc'', ''read'')] [''b'']), (''b'', a_role ''b'' [] [''c'']),
     (''c'', a_role ''c'' [] [''b''])]"

theorem hierarchy_exact_witness:
  "\<exists>x. ancestor loop_roles ''a'' x \<and> cycle_at loop_roles x"
proof -
  let ?g = "\<lparr>g_fail = \<lambda>_. None, g_roles = loop_roles\<rparr>"
  have "detectCycle loop_roles ''a'' {||} = Some ErrCycleDetected" by code_simp
  moreover have "never_fails ?g" by (simp add: never_fails_def)
  ultimately show ?thesis
    using conjunct1 [OF hierarchy_exact [of ?g "''a''" fmempty]] by (auto split: if_splits)
qed

subsection \<open>Conditions and rules\<close>

text \<open>
  A list of conditions is a three-valued conjunction: it is known to fail as soon as one
  condition is known to be false, it holds when all are known to be true, and it is unknown
  otherwise, in whatever order the conditions are written.
\<close>

lemma conditions_three_valued:
  shows "conditionsMatch cs attrs =
     (if \<exists>c \<in> set cs. conditionMatches c attrs = (False, True) then (False, True)
      else if list_all (\<lambda>c. conditionMatches c attrs = (True, True)) cs then (True, True)
      else (False, False)) \<and>
    (set cs = set cs' \<longrightarrow> conditionsMatch cs attrs = conditionsMatch cs' attrs)"
proof -
  have "conditionsMatch cs attrs =
     (if \<exists>c \<in> set cs. conditionMatches c attrs = (False, True) then (False, True)
      else if list_all (\<lambda>c. conditionMatches c attrs = (True, True)) cs then (True, True)
      else (False, False))" for cs
  proof -
    have "(\<forall>c \<in> set cs. snd (conditionMatches c attrs)) \<longleftrightarrow> list_all (\<lambda>c. conditionMatches c attrs = (True, True)) cs"
      if "\<not> (\<exists>c \<in> set cs. conditionMatches c attrs = (False, True))"
      using that by (fastforce simp: list_all_iff prod_eq_iff)
    then show ?thesis by (auto simp: conditionsMatch_spec)
  qed
  then show ?thesis by (simp add: list_all_iff)
qed

text \<open>
  The equality of attribute values is an equivalence on the values that have a JSON encoding,
  and relates nothing else: it is equality of the rational a number literal denotes (so \<^verbatim>\<open>1\<close>,
  \<^verbatim>\<open>1.0\<close> and \<^verbatim>\<open>10e-1\<close> are equal) and of the encoding for every other value.
\<close>

lemma equalAttribute_equivalence:
  "(equalAttribute a a \<longleftrightarrow> Marshal a \<noteq> None) \<and> (equalAttribute a b = equalAttribute b a) \<and>
   (equalAttribute a b \<and> equalAttribute b c \<longrightarrow> equalAttribute a c) \<and>
   (equalAttribute a b \<longleftrightarrow> attribute_key a \<noteq> None \<and> attribute_key a = attribute_key b)"
proof -
  have "attribute_key a \<noteq> None \<longleftrightarrow> Marshal a \<noteq> None"
    using numeric_Some [of a] by (auto simp: attribute_key_def split: option.split)
  then show ?thesis unfolding equalAttribute_key by metis
qed

text \<open>
  Storing rules is a round trip: \<^verbatim>\<open>cloneRules\<close>, which writes the rules as JSON and reads them
  back, accepts exactly the valid rules, its result is valid again, and a stored copy is its own copy:
  reading the rules and storing them again changes nothing.
\<close>

theorem cloneRules_round_trip:
  "(case cloneRules rules of
      Inl er \<Rightarrow> er = ErrInvalidPolicy \<and> validateRules rules = Some ErrInvalidPolicy
    | Inr c \<Rightarrow> validateRules rules = None \<and> length c = length rules \<and> validateRules c = None \<and> cloneRules c = Inr c)"
proof (cases "cloneRules rules")
  case (Inl er)
  then show ?thesis by (auto simp: cloneRules_def validateRules_def split: if_splits)
next
  case (Inr c)
  then have "list_all validRule rules" "length c = length rules" by (auto simp: cloneRules_Inr)
  with Inr cloneRules_stable [OF Inr] show ?thesis by (simp add: validateRules_def)
qed

subsection \<open>The LRU cache\<close>

text \<open>
  C33. The linked list with its index is a bounded list of entries by recency: a lookup finds an
  unexpired entry and moves it to the front, or removes an expired one; storing puts the entry in
  front, with a fresh expiry, and drops what exceeds the capacity at the end; deleting removes the
  key; flushing removes all; and the length never exceeds the capacity.
\<close>

theorem lru_refines_list:
  assumes "lru_ok c"
  shows "(entries (setLocked cx k v c) =
      take (nat (lru_cap c)) (\<lparr>le_key = k, le_value = v, le_expires = cx_now cx + lru_ttl c\<rparr> # without k (entries c))) \<and>
    (entries (fst (lru_Get cx k c)) =
      (case entry_of k (entries c) of None \<Rightarrow> entries c
       | Some e \<Rightarrow> if cx_now cx > le_expires e then without k (entries c) else e # without k (entries c))) \<and>
    (snd (lru_Get cx k c) =
      (case entry_of k (entries c) of None \<Rightarrow> None
       | Some e \<Rightarrow> if cx_now cx > le_expires e then None else Some (le_value e))) \<and>
    entries (lru_Delete cx k c) = without k (entries c) \<and>
    entries (lru_Flush cx c) = [] \<and>
    int (length (entries c)) \<le> lru_cap c \<and>
    lru_ok (setLocked cx k v c) \<and>
    lru_ok (fst (lru_Get cx k c)) \<and>
    lru_ok (lru_Delete cx k c) \<and>
    lru_ok (lru_Flush cx c)"
proof -
  have "int (length (entries c)) \<le> lru_cap c" using assms by (auto simp: lru_ok_def)
  with setLocked_spec [OF assms, of cx k v] lru_Get_spec [OF assms, of cx k] lru_Delete_spec [OF assms, of cx k]
    lru_Flush_spec(1) [OF assms, of cx] lru_Flush_spec(2) [of cx c]
  show ?thesis by blast
qed

theorem lru_refines_list_witness:
  "entries (setLocked background ''b'' (OtherValue (JNum ''2'')) (setLocked background ''a'' (OtherValue (JNum ''1'')) (NewMemoryLRU 1 60))) =
     [\<lparr>le_key = ''b'', le_value = OtherValue (JNum ''2''), le_expires = cx_now background + 60\<rparr>]"
proof -
  let ?c1 = "setLocked background ''a'' (OtherValue (JNum ''1'')) (NewMemoryLRU 1 60)"
  note one = lru_refines_list [OF NewMemoryLRU_ok(1) [of 1 60], of background "''a''" "OtherValue (JNum ''1'')"]
  from conjunct1 [OF one] have e1: "entries ?c1 = [\<lparr>le_key = ''a'', le_value = OtherValue (JNum ''1''), le_expires = cx_now background + 60\<rparr>]"
    by (simp add: NewMemoryLRU_def entries_def without_def)
  from one have "lru_ok ?c1" by blast
  note two = conjunct1 [OF lru_refines_list [OF this, of background "''b''" "OtherValue (JNum ''2'')"]]
  have "lru_cap ?c1 = 1" "lru_ttl ?c1 = 60"
    by (simp_all add: setLocked_def NewMemoryLRU_def lru_find_def Let_def)
  with two e1 show ?thesis by (simp add: without_def)
qed

datatype lru_request = CallGet string | CallSet string cache_value | CallFill string cache_value string | CallDelete string | CallFlush

fun lru_call :: "ctx \<Rightarrow> lru_request \<Rightarrow> lru \<Rightarrow> lru" where
  "lru_call cx (CallGet k) c = fst (lru_Get cx k c)"
| "lru_call cx (CallSet k v) c = lru_Set cx k v c"
| "lru_call cx (CallFill k v t) c = lru_SetIfGeneration cx k v t c"
| "lru_call cx (CallDelete k) c = lru_Delete cx k c"
| "lru_call cx CallFlush c = lru_Flush cx c"

fun invalidates :: "lru_request \<Rightarrow> bool" where
  "invalidates (CallDelete _) = True"
| "invalidates CallFlush = True"
| "invalidates _ = False"

fun lru_calls :: "(ctx \<times> lru_request) list \<Rightarrow> lru \<Rightarrow> lru" where
  "lru_calls [] c = c"
| "lru_calls ((cx, call) # calls) c = lru_calls calls (lru_call cx call c)"

lemma setLocked_generation [simp]: "lru_generation (setLocked cx k v c) = lru_generation c"
  by (auto simp: setLocked_def removeElement_def MoveToFront_def Let_def split: option.splits)

lemma lru_call_generation:
  "lru_generation (lru_call cx call c) = lru_generation c + (if invalidates call then 1 else 0)"
  by (cases call) (auto simp: lru_Get_def lru_Set_def lru_SetIfGeneration_def lru_Delete_def lru_Flush_def removeElement_def
      MoveToFront_def Let_def split: option.splits)

lemma lru_calls_generation:
  "lru_generation (lru_calls calls c) = lru_generation c + of_nat (length (filter (invalidates \<circ> snd) calls))"
  by (induction calls c rule: lru_calls.induct) (simp_all add: lru_call_generation ac_simps)

text \<open>
  C34. A token is good for one generation: a fill with a token taken before a delete or flush is
  refused, whatever else happened in between, as long as fewer than 2 to the 64 invalidations did
  (then the counter is back where it was); without an invalidation in between, it stores.
\<close>

theorem lru_tokens_expire:
  assumes "lru_Generation cx k c = (c', Some token)"
    and "length (filter (invalidates \<circ> snd) calls) < 2 ^ 64"
  shows "lru_SetIfGeneration cx' k v token (lru_calls calls c') =
    (if \<exists>call \<in> set calls. invalidates (snd call) then lru_calls calls c' else lru_Set cx' k v (lru_calls calls c'))"
proof -
  let ?n = "length (filter (invalidates \<circ> snd) calls)"
  from assms(1) have c: "c' = c" "token = FormatUint (lru_generation c)" by (auto simp: lru_Generation_def)
  have "(of_nat ?n :: 64 word) = 0 \<longleftrightarrow> ?n = 0"
    using assms(2) nat_dvd_not_less [of ?n "2 ^ 64"] by (auto simp: word_of_nat_eq_0_iff)
  moreover have "?n = 0 \<longleftrightarrow> \<not> (\<exists>call \<in> set calls. invalidates (snd call))"
    by (simp add: filter_empty_conv)
  ultimately show ?thesis
    by (auto simp: c lru_SetIfGeneration_def lru_calls_generation lru_Set_def)
qed

theorem lru_tokens_expire_witness:
  "lru_SetIfGeneration background ''k'' (OtherValue (JNum ''1'')) ''0'' (lru_calls [(background, CallDelete ''other'')] (NewMemoryLRU 8 60)) =
     lru_calls [(background, CallDelete ''other'')] (NewMemoryLRU 8 60)"
proof -
  have "FormatUint 0 = ''0''" by code_simp
  then have "lru_Generation background ''k'' (NewMemoryLRU 8 60) = (NewMemoryLRU 8 60, Some ''0'')"
    by (simp add: lru_Generation_def NewMemoryLRU_def)
  from lru_tokens_expire [OF this, of "[(background, CallDelete ''other'')]" background "OtherValue (JNum ''1'')"] show ?thesis by simp
qed

text \<open>
  The token text identifies the counter: reading the digits of \<^verbatim>\<open>FormatUint\<close> gives the number
  back, and different counters have different texts.
\<close>

lemma FormatUint_round_trip:
  "nat_of_digits (FormatUint w) = unat w \<and> (FormatUint v = FormatUint w \<longleftrightarrow> v = w)"
  by (simp only: FormatUint_inject) (simp add: FormatUint_def nat_of_decimal)

end
