(* ===== verification/Middleware.thy ===== *)
theory Middleware
  imports Scenario RegistryLeases
begin

text \<open>
  The middleware of the four web frameworks (\<^verbatim>\<open>http/\<close>, \<^verbatim>\<open>gin/\<close>, \<^verbatim>\<open>echo/\<close>, \<^verbatim>\<open>fiber/\<close>): who is asking, whether
  the Enforcer lets them, and which handler runs.

  A call \<open>'c\<close> is what the framework hands to the handlers: the request, the reply written so far and
  the state of the Enforcer. Handlers change it; in \<^verbatim>\<open>echo\<close> and \<^verbatim>\<open>fiber\<close> they also return an error, so the
  result type \<open>'r\<close> of a handler is a parameter. The callbacks of the application that identify the
  tenant and the user and name the resource only read it. What the frameworks themselves do (their
  JSON helpers, the rest of the handler chain) are arguments.
\<close>

subsection \<open>Calls, options and their construction\<close>

record request =
  rq_Path :: string
  rq_Method :: string
  rq_Context :: ctx
  rq_tenant :: "string option"
  rq_enforcer :: "inst option"

record reply =
  rp_ContentType :: string
  rp_Status :: "int option"
  rp_Body :: "json list"

record 's web =
  wb_request :: request
  wb_reply :: reply
  wb_state :: 's

record ('c, 'r) options =
  op_userID :: "('c \<Rightarrow> string \<times> bool) option"
  op_resourceAction :: "'c \<Rightarrow> string \<times> string"
  op_unauthorized :: "'c \<Rightarrow> 'r"
  op_denied :: "'c \<Rightarrow> 'r"

definition WithUserID :: "('c \<Rightarrow> string \<times> bool) \<Rightarrow> ('c, 'r, 'o) options_scheme \<Rightarrow> ('c, 'r, 'o) options_scheme" where
  "WithUserID fn o' = o'\<lparr>op_userID := Some fn\<rparr>"

definition WithResourceAction :: "('c \<Rightarrow> string \<times> string) \<Rightarrow> ('c, 'r, 'o) options_scheme \<Rightarrow> ('c, 'r, 'o) options_scheme" where
  "WithResourceAction fn o' = o'\<lparr>op_resourceAction := fn\<rparr>"

definition WithUnauthorizedHandler :: "('c \<Rightarrow> 'r) \<Rightarrow> ('c, 'r, 'o) options_scheme \<Rightarrow> ('c, 'r, 'o) options_scheme" where
  "WithUnauthorizedHandler h o' = o'\<lparr>op_unauthorized := h\<rparr>"

definition WithDeniedHandler :: "('c \<Rightarrow> 'r) \<Rightarrow> ('c, 'r, 'o) options_scheme \<Rightarrow> ('c, 'r, 'o) options_scheme" where
  "WithDeniedHandler h o' = o'\<lparr>op_denied := h\<rparr>"

definition error_body :: "string \<Rightarrow> json" where "error_body msg = JObj [(''error'', JStr msg)]"

definition path_and_method :: "('s, 'z) web_scheme \<Rightarrow> string \<times> string" where
  "path_and_method c = (rq_Path (wb_request c), rq_Method (wb_request c))"

text \<open>
  \<^verbatim>\<open>writeJSON\<close> on a \<^verbatim>\<open>http.ResponseWriter\<close>: only the first \<^verbatim>\<open>WriteHeader\<close> counts, and a header set after
  it is not sent.
\<close>

definition writeJSON :: "int \<Rightarrow> json \<Rightarrow> ('s, 'z) web_scheme \<Rightarrow> ('s, 'z) web_scheme" where
  "writeJSON status body c =
     (let w = wb_reply c;
          w = (if rp_Status w = None then w\<lparr>rp_ContentType := ''application/json'', rp_Status := Some status\<rparr> else w)
      in c\<lparr>wb_reply := w\<lparr>rp_Body := rp_Body w @ [body]\<rparr>\<rparr>)"

definition http_defaultOptions :: "(('s, 'z) web_scheme, ('s, 'z) web_scheme) options" where
  "http_defaultOptions =
     \<lparr>op_userID = None, op_resourceAction = path_and_method,
      op_unauthorized = writeJSON 401 (error_body ''unauthorized''),
      op_denied = writeJSON 403 (error_body ''forbidden'')\<rparr>"

text \<open>The Gin context carries the mark of \<^verbatim>\<open>Abort\<close>; \<^verbatim>\<open>AbortWithStatusJSON\<close> is Gin's.\<close>

record 's gin = "'s web" +
  gc_aborted :: bool

definition gin_defaultOptions :: "(int \<Rightarrow> json \<Rightarrow> 's gin \<Rightarrow> 's gin) \<Rightarrow> ('s gin, 's gin) options" where
  "gin_defaultOptions AbortWithStatusJSON =
     \<lparr>op_userID = None, op_resourceAction = path_and_method,
      op_unauthorized = AbortWithStatusJSON 401 (error_body ''unauthorized''),
      op_denied = AbortWithStatusJSON 403 (error_body ''forbidden'')\<rparr>"

text \<open>Echo and Fiber: their \<^verbatim>\<open>JSON\<close> returns the error of writing, which the handlers pass on.\<close>

type_synonym 's returning = "'s web \<times> err option"

definition echo_defaultOptions :: "(int \<Rightarrow> json \<Rightarrow> 's web \<Rightarrow> 's returning) \<Rightarrow> ('s web, 's returning) options" where
  "echo_defaultOptions JSON =
     \<lparr>op_userID = None, op_resourceAction = path_and_method,
      op_unauthorized = JSON 401 (error_body ''unauthorized''),
      op_denied = JSON 403 (error_body ''forbidden'')\<rparr>"

definition fiber_defaultOptions ::
  "(int \<Rightarrow> 's web \<Rightarrow> 's web) \<Rightarrow> (json \<Rightarrow> 's web \<Rightarrow> 's returning) \<Rightarrow> ('s web, 's returning) options" where
  "fiber_defaultOptions Status JSON =
     \<lparr>op_userID = None, op_resourceAction = path_and_method,
      op_unauthorized = (\<lambda>c. JSON (error_body ''unauthorized'') (Status 401 c)),
      op_denied = (\<lambda>c. JSON (error_body ''forbidden'') (Status 403 c))\<rparr>"

text \<open>Building panics without an Enforcer or without \<^verbatim>\<open>WithUserID\<close>; options apply in order.\<close>

definition nil_enforcer :: string where "nil_enforcer = ''rbacgo: nil enforcer''"

definition no_user_id :: string where
  "no_user_id = ''rbacgo: WithUserID is required (user identity comes from your auth middleware, not HTTP headers)''"

definition build_options ::
  "'e option \<Rightarrow> ('c, 'r) options \<Rightarrow> (('c, 'r) options \<Rightarrow> ('c, 'r) options) list \<Rightarrow> string + 'e \<times> ('c, 'r) options" where
  "build_options enf defaults opts =
     (case enf of
        None \<Rightarrow> Inl nil_enforcer
      | Some e \<Rightarrow>
          let o' = fold (\<lambda>opt o'. opt o') opts defaults
          in if op_userID o' = None then Inl no_user_id else Inr (e, o'))"

subsection \<open>Single-tenant middleware\<close>

text \<open>\<^verbatim>\<open>enforcer.Enforce(r.Context(), ...)\<close> on the state behind the call.\<close>

definition ask ::
  "('s, 'c, 'x) enforcer \<Rightarrow> string \<Rightarrow> string \<Rightarrow> string \<Rightarrow> (('s, 'c, 'x) state, 'z) web_scheme \<Rightarrow>
     (('s, 'c, 'x) state, 'z) web_scheme \<times> bool" where
  "ask e userID resource action c =
     (let (st, ok) = Enforce e (rq_Context (wb_request c)) userID resource action (wb_state c)
      in (c\<lparr>wb_state := st\<rparr>, ok))"

definition identify :: "('c, 'r, 'o) options_scheme \<Rightarrow> 'c \<Rightarrow> string \<times> bool" where
  "identify o' c = (case op_userID o' of Some fn \<Rightarrow> fn c | None \<Rightarrow> ([], False))"

text \<open>The handler that all middleware installs, \<open>query\<close> being the question to the Enforcer.\<close>

definition admit_request ::
  "(string \<Rightarrow> string \<Rightarrow> string \<Rightarrow> 'c \<Rightarrow> 'c \<times> bool) \<Rightarrow> ('c, 'r, 'o) options_scheme \<Rightarrow> ('c \<Rightarrow> 'r) \<Rightarrow> 'c \<Rightarrow> 'r" where
  "admit_request query o' next c =
     (let (userID, ok) = identify o' c
      in if \<not> ok \<or> userID = [] then op_unauthorized o' c
         else let (resource, action) = op_resourceAction o' c;
                  (c, allowed) = query userID resource action c
              in if \<not> allowed then op_denied o' c else next c)"

definition install ::
  "string + ('s, 'c, 'x) enforcer \<times> ((('s, 'c, 'x) state, 'z) web_scheme, 'r) options \<Rightarrow>
     string + (((('s, 'c, 'x) state, 'z) web_scheme \<Rightarrow> 'r) \<Rightarrow> (('s, 'c, 'x) state, 'z) web_scheme \<Rightarrow> 'r)" where
  "install built = (case built of Inl panic \<Rightarrow> Inl panic | Inr (e, o') \<Rightarrow> Inr (\<lambda>next. admit_request (ask e) o' next))"

text \<open>For Gin and Fiber \<open>next\<close> is the \<^verbatim>\<open>Next\<close> of the context, which runs the pending handlers.\<close>

definition http_New where
  "http_New enf opts = install (build_options enf http_defaultOptions opts)"

definition gin_Middleware where
  "gin_Middleware AbortWithStatusJSON enf opts = install (build_options enf (gin_defaultOptions AbortWithStatusJSON) opts)"

definition echo_Middleware where
  "echo_Middleware JSON enf opts = install (build_options enf (echo_defaultOptions JSON) opts)"

definition fiber_Middleware where
  "fiber_Middleware Status JSON enf opts = install (build_options enf (fiber_defaultOptions Status JSON) opts)"

lemma admit_request_granted:
  assumes "identify o' c = (u, True)" and "u \<noteq> []" and "op_resourceAction o' c = (res, act)"
    and "query u res act c = (c', True)"
  shows "admit_request query o' next c = next c'"
  using assms by (simp add: admit_request_def)

lemma fold_options_keep:
  "(\<And>opt o'. opt \<in> set opts \<Longrightarrow> f (opt o') = f o') \<Longrightarrow> f (fold (\<lambda>opt o'. opt o') opts o') = f o'"
  by (induction opts arbitrary: o') simp_all

lemma build_options_Inr:
  assumes "build_options enf d opts = Inr (e, o')"
  shows "enf = Some e" and "o' = fold (\<lambda>opt o'. opt o') opts d" and "op_userID o' \<noteq> None"
  using assms by (auto simp: build_options_def Let_def split: option.splits if_splits)

subsection \<open>Whom the middleware lets through\<close>

definition admits ::
  "local_enforcer \<Rightarrow> ((local_state, 'z) web_scheme, 'r, 'o) options_scheme \<Rightarrow> (local_state, 'z) web_scheme \<Rightarrow> bool" where
  "admits e o' c \<longleftrightarrow>
     (let cx = rq_Context (wb_request c); A = mem_abs (st_store (wb_state c)); u = fst (identify o' c);
          (res, act) = op_resourceAction o' c
      in snd (identify o' c) \<and> u \<noteq> [] \<and> decision e A u res act (cx_attrs cx) (may e A u res act))"

definition gated ::
  "local_enforcer \<Rightarrow> ((local_state, 'z) web_scheme, 'r, 'o) options_scheme \<Rightarrow> ((local_state, 'z) web_scheme \<Rightarrow> 'r) \<Rightarrow>
     (local_state, 'z) web_scheme \<Rightarrow> 'r \<Rightarrow> bool" where
  "gated e o' next c r \<longleftrightarrow>
     (\<exists>st. st_store st = st_store (wb_state c) \<and>
       r = (if \<not> snd (identify o' c) \<or> fst (identify o' c) = [] then op_unauthorized o' c
            else if admits e o' c then next (c\<lparr>wb_state := st\<rparr>) else op_denied o' (c\<lparr>wb_state := st\<rparr>)))"

text \<open>A call on a state the Enforcer reaches, with a live context.\<close>

definition live_call :: "local_enforcer \<Rightarrow> (local_state, 'z) web_scheme \<Rightarrow> bool" where
  "live_call e c \<longleftrightarrow> local_run e (wb_state c) \<and> \<not> st_shutdown (wb_state c) \<and>
     cx_Err (rq_Context (wb_request c)) = None \<and> fair_range (rq_Context (wb_request c))"

lemma admit_request_gated:
  assumes "live_call e c" and "runs_on e mem_ops lru_ops" and "en_audit e = None"
  shows "gated e o' next c (admit_request (ask e) o' next c)"
proof -
  let ?cx = "rq_Context (wb_request c)" and ?A = "mem_abs (st_store (wb_state c))"
  obtain u ok where id: "identify o' c = (u, ok)" by force
  obtain res act where ra: "op_resourceAction o' c = (res, act)" by force
  have live: "local_run e (wb_state c)" "\<not> st_shutdown (wb_state c)" "cx_Err ?cx = None" "fair_range ?cx"
    using assms(1) by (auto simp: live_call_def)
  obtain st1 where st1: "st_store st1 = st_store (wb_state c)"
    and run: "EnforceCtx e ?cx u res act (wb_state c) = recordDecision e ?cx ''enforce'' u res act
      (st1, decision e ?A u res act (cx_attrs ?cx) (may e ?A u res act), None)"
    by (rule embedded.EnforceCtx_decision [OF assms(2) local_run_good [OF live(1) assms(2)] live(3,4,2), of u res act])
  define st where "st = fst (EnforceCtx e ?cx u res act (wb_state c))"
  have st: "st_store st = st_store (wb_state c)"
    unfolding st_def run
    using recordDecision_same [unfolded same_policy_def, THEN conjunct1] st1 by (rule trans)
  have "snd (EnforceCtx e ?cx u res act (wb_state c)) = (decision e ?A u res act (cx_attrs ?cx) (may e ?A u res act), None)"
    unfolding run by (rule recordDecision_off [OF assms(3)])
  then have enf: "Enforce e ?cx u res act (wb_state c) = (st, decision e ?A u res act (cx_attrs ?cx) (may e ?A u res act))"
    by (simp add: Enforce_def split_beta st_def)
  let ?grant = "decision e ?A u res act (cx_attrs ?cx) (may e ?A u res act)"
  have "admit_request (ask e) o' next c = (if \<not> ok \<or> u = [] then op_unauthorized o' c
      else if ?grant then next (c\<lparr>wb_state := st\<rparr>) else op_denied o' (c\<lparr>wb_state := st\<rparr>))"
    by (simp add: admit_request_def ask_def id ra enf)
  moreover have "admits e o' c \<longleftrightarrow> ok \<and> u \<noteq> [] \<and> ?grant" by (simp add: admits_def id ra Let_def)
  ultimately show ?thesis
    unfolding gated_def id fst_conv snd_conv using st by (intro exI [of _ st]) auto
qed

lemma install_gated:
  assumes "install (build_options (Some e) d opts) = Inr serve"
    and "live_call e c" and "runs_on e mem_ops lru_ops" and "en_audit e = None"
  shows "gated e (fold (\<lambda>opt o'. opt o') opts d) next c (serve next c)"
  using assms(1) admit_request_gated [OF assms(2-4)]
  by (auto simp: install_def build_options_def Let_def split: if_splits)

text \<open>
  C37. The middleware of \<^verbatim>\<open>net/http\<close>, Echo and Fiber lets through exactly whom the specification lets
  through: a request without a known user gets the unauthorized handler and no question is asked;
  otherwise the next handler runs, exactly once and on the policy as it was, if the decision on the
  request's resource and action grants, and the denied handler if not.
\<close>

theorem middleware_exact:
  assumes "live_call e c" and "runs_on e mem_ops lru_ops" and "en_audit e = None"
    and "http_New (Some e) hopts = Inr h" and "echo_Middleware json (Some e) eopts = Inr ec"
    and "fiber_Middleware status json' (Some e) fopts = Inr fi"
  shows "gated e (fold (\<lambda>opt o'. opt o') hopts http_defaultOptions) next c (h next c) \<and>
    gated e (fold (\<lambda>opt o'. opt o') eopts (echo_defaultOptions json)) next' c (ec next' c) \<and>
    gated e (fold (\<lambda>opt o'. opt o') fopts (fiber_defaultOptions status json')) next' c (fi next' c)"
  using install_gated [OF assms(4) [unfolded http_New_def] assms(1-3)]
    install_gated [OF assms(5) [unfolded echo_Middleware_def] assms(1-3)]
    install_gated [OF assms(6) [unfolded fiber_Middleware_def] assms(1-3)] by blast

definition bob_asks :: "local_state web" where
  "bob_asks = \<lparr>wb_request = \<lparr>rq_Path = ''doc'', rq_Method = ''read'', rq_Context = at_hour ''9'', rq_tenant = None,
      rq_enforcer = None\<rparr>,
     wb_reply = \<lparr>rp_ContentType = [], rp_Status = None, rp_Body = []\<rparr>, wb_state = acme_state\<rparr>"

lemma bob_asks_live: "live_call acme bob_asks"
  using acme_run by (simp add: live_call_def bob_asks_def)

theorem middleware_exact_witness:
  "\<exists>h. http_New (Some acme) [WithUserID (\<lambda>_. (''bob'', True))] = Inr h \<and>
    gated acme (WithUserID (\<lambda>_. (''bob'', True)) http_defaultOptions) (writeJSON 200 JNull) bob_asks (h (writeJSON 200 JNull) bob_asks)"
proof -
  let ?json = "\<lambda>_ _ c. (c, None)" and ?json' = "\<lambda>_ c. (c, None)"
  obtain h :: "(local_state web \<Rightarrow> local_state web) \<Rightarrow> local_state web \<Rightarrow> local_state web"
    where h: "http_New (Some acme) [WithUserID (\<lambda>_. (''bob'', True))] = Inr h"
    by (simp add: http_New_def install_def build_options_def WithUserID_def)
  obtain ec where ec: "echo_Middleware ?json (Some acme) [WithUserID (\<lambda>_. (''bob'', True))] = Inr ec"
    by (simp add: echo_Middleware_def install_def build_options_def WithUserID_def)
  obtain fi where fi: "fiber_Middleware (\<lambda>_ c. c) ?json' (Some acme) [WithUserID (\<lambda>_. (''bob'', True))] = Inr fi"
    by (simp add: fiber_Middleware_def install_def build_options_def WithUserID_def)
  from middleware_exact [OF bob_asks_live acme_runs h ec fi, of "writeJSON 200 JNull" "\<lambda>c. (c, None)"] h
  show ?thesis by auto
qed

text \<open>
  Gin runs the pending handlers after a middleware returns unless the context is aborted. With the
  default handlers, which abort, a request goes on exactly if it is admitted: then \<^verbatim>\<open>Next\<close> runs the
  pending handlers, else the context comes back aborted.
\<close>

theorem gin_middleware_exact:
  assumes "live_call e c" and "runs_on e mem_ops lru_ops" and "en_audit e = None"
    and "gin_Middleware abort (Some e) opts = Inr g"
    and "set opts \<subseteq> range WithUserID \<union> range WithResourceAction"
    and "\<And>status body c. gc_aborted (abort status body c)"
  shows "gated e (fold (\<lambda>opt o'. opt o') opts (gin_defaultOptions abort)) next c (g next c) \<and>
    (admits e (fold (\<lambda>opt o'. opt o') opts (gin_defaultOptions abort)) c \<or> gc_aborted (g next c))"
proof -
  let ?o = "fold (\<lambda>opt o'. opt o') opts (gin_defaultOptions abort)"
  have "op_unauthorized ?o = op_unauthorized (gin_defaultOptions abort)" "op_denied ?o = op_denied (gin_defaultOptions abort)"
    by (rule fold_options_keep, use assms(5) in \<open>auto simp: WithUserID_def WithResourceAction_def\<close>)+
  then have "gc_aborted (op_unauthorized ?o c')" "gc_aborted (op_denied ?o c')" for c'
    by (simp_all add: gin_defaultOptions_def assms(6))
  moreover have "gated e ?o next c (g next c)"
    using install_gated [OF _ assms(1-3)] assms(4) unfolding gin_Middleware_def by blast
  ultimately show ?thesis by (auto simp: gated_def split: if_splits)
qed

definition bob_asks_gin :: "local_state gin" where
  "bob_asks_gin = web.extend bob_asks \<lparr>gc_aborted = False\<rparr>"

definition gin_abort :: "int \<Rightarrow> json \<Rightarrow> 's gin \<Rightarrow> 's gin" where
  "gin_abort status body c = (writeJSON status body c)\<lparr>gc_aborted := True\<rparr>"

lemma bob_asks_gin_live: "live_call acme bob_asks_gin"
  using acme_run by (simp add: live_call_def bob_asks_gin_def bob_asks_def web.defs)

definition as_carol :: "local_state gin \<Rightarrow> string \<times> bool" where "as_carol c = (''carol'', True)"

lemma carol_denied: "\<not> snd (Enforce acme (at_hour ''9'') ''carol'' ''doc'' ''read'' acme_state)"
proof -
  have "snd (Enforce acme (at_hour ''9'') ''carol'' ''doc'' ''read'' acme_state) = False" by code_simp
  then show ?thesis by simp
qed

text \<open>With one denied handler or another, carol is refused by \<open>admit_request\<close>.\<close>

lemma carol_refused:
  assumes "op_userID o' = Some as_carol" and "op_resourceAction o' = path_and_method"
  shows "\<exists>st. admit_request (ask acme) o' next bob_asks_gin = op_denied o' (bob_asks_gin\<lparr>wb_state := st\<rparr>)"
  using carol_denied assms
  by (auto simp: admit_request_def identify_def as_carol_def path_and_method_def ask_def bob_asks_gin_def bob_asks_def
      web.defs split_beta Let_def)

text \<open>
  A denied handler of the application that does not abort lets the request go on: the context comes
  back without a mark, so Gin runs the handlers that the middleware guards.
\<close>

theorem gin_custom_handler_continues:
  "\<exists>g. gin_Middleware gin_abort (Some acme) [WithUserID as_carol, WithDeniedHandler (writeJSON 403 JNull)] = Inr g \<and>
    \<not> gc_aborted (g next bob_asks_gin)"
proof -
  let ?o = "WithDeniedHandler (writeJSON 403 JNull) (WithUserID as_carol (gin_defaultOptions gin_abort))"
  have g: "gin_Middleware gin_abort (Some acme) [WithUserID as_carol, WithDeniedHandler (writeJSON 403 JNull)] =
      Inr (\<lambda>next. admit_request (ask acme) ?o next)"
    by (simp add: gin_Middleware_def install_def build_options_def WithUserID_def WithDeniedHandler_def)
  obtain st where "admit_request (ask acme) ?o next bob_asks_gin = op_denied ?o (bob_asks_gin\<lparr>wb_state := st\<rparr>)"
    using carol_refused [of ?o "next"] by (auto simp: WithUserID_def WithDeniedHandler_def gin_defaultOptions_def)
  with g show ?thesis
    by (auto simp: WithDeniedHandler_def writeJSON_def Let_def bob_asks_gin_def bob_asks_def web.defs)
qed

end
