(* ===== verification/TenantMiddleware.thy ===== *)
theory TenantMiddleware
  imports Middleware RegistryProps
begin

text \<open>
  The per-tenant middleware (\<^verbatim>\<open>tenant.go\<close> of \<^verbatim>\<open>http/\<close>, \<^verbatim>\<open>gin/\<close>, \<^verbatim>\<open>echo/\<close> and \<^verbatim>\<open>fiber/\<close>): a request
  resolves its tenant, leases that tenant's Enforcer from the registry, is gated by it and gives the
  lease back when the handler returns or panics.

  Acquiring may wait, and the registry goes on meanwhile, so a request is a state machine: it arrives,
  it waits in \<^verbatim>\<open>Acquire\<close>, it is served, it is done. \<open>site_step\<close> interleaves the requests of a
  middleware with everything else that uses the registry.
\<close>

subsection \<open>Options\<close>

record ('c, 'r) tenant_options = "('c, 'r) options" +
  to_tenantResolver :: "('c \<Rightarrow> string \<times> bool) option"
  to_enforcerError :: "'c \<Rightarrow> err \<Rightarrow> 'r"

definition WithTenantResolver ::
  "('c \<Rightarrow> string \<times> bool) \<Rightarrow> ('c, 'r) tenant_options \<Rightarrow> ('c, 'r) tenant_options" where
  "WithTenantResolver fn o' = o'\<lparr>to_tenantResolver := Some fn\<rparr>"

definition WithTenantUserID ::
  "('c \<Rightarrow> string \<times> bool) \<Rightarrow> ('c, 'r) tenant_options \<Rightarrow> ('c, 'r) tenant_options" where
  "WithTenantUserID fn o' = o'\<lparr>op_userID := Some fn\<rparr>"


definition WithTenantUnauthorizedHandler :: "('c \<Rightarrow> 'r) \<Rightarrow> ('c, 'r) tenant_options \<Rightarrow> ('c, 'r) tenant_options" where
  "WithTenantUnauthorizedHandler h o' = o'\<lparr>op_unauthorized := h\<rparr>"

definition WithTenantDeniedHandler :: "('c \<Rightarrow> 'r) \<Rightarrow> ('c, 'r) tenant_options \<Rightarrow> ('c, 'r) tenant_options" where
  "WithTenantDeniedHandler h o' = o'\<lparr>op_denied := h\<rparr>"

definition WithTenantEnforcerErrorHandler ::
  "('c \<Rightarrow> err \<Rightarrow> 'r) \<Rightarrow> ('c, 'r) tenant_options \<Rightarrow> ('c, 'r) tenant_options" where
  "WithTenantEnforcerErrorHandler h o' = o'\<lparr>to_enforcerError := h\<rparr>"

definition tenant_defaults :: "('c, 'r) options \<Rightarrow> ('c \<Rightarrow> err \<Rightarrow> 'r) \<Rightarrow> ('c, 'r) tenant_options" where
  "tenant_defaults d err = options.extend d \<lparr>to_tenantResolver = None, to_enforcerError = err\<rparr>"

definition http_defaultTenantOptions :: "(('s, 'z) web_scheme, ('s, 'z) web_scheme) tenant_options" where
  "http_defaultTenantOptions =
     tenant_defaults http_defaultOptions (\<lambda>c _. writeJSON 500 (error_body ''internal error'') c)"







subsection \<open>The context of a request\<close>

definition with_tenant :: "string \<Rightarrow> inst option \<Rightarrow> ('s, 'z) web_scheme \<Rightarrow> ('s, 'z) web_scheme" where
  "with_tenant tenant enf c =
     c\<lparr>wb_request := (wb_request c)\<lparr>rq_tenant := Some tenant, rq_enforcer := enf\<rparr>\<rparr>"

definition TenantFromContext :: "request \<Rightarrow> string \<times> bool" where
  "TenantFromContext r = (case rq_tenant r of None \<Rightarrow> ([], False) | Some t \<Rightarrow> (t, t \<noteq> []))"

definition EnforcerFromContext :: "request \<Rightarrow> inst option \<times> bool" where
  "EnforcerFromContext r = (rq_enforcer r, rq_enforcer r \<noteq> None)"

subsection \<open>A request\<close>

text \<open>
  A request waits in the call of \<^verbatim>\<open>Acquire\<close> with this number, is being served under its lease, or is
  done, with the result of the handler or without one if it panicked; a request that got as far as
  \<^verbatim>\<open>Acquire\<close> remembers its number.
\<close>

datatype ('c, 'r) visit =
    Acquiring string nat 'c
  | Serving string nat "inst option" 'c
  | Done "nat option" "'r option"

definition resolve :: "('c, 'r) tenant_options \<Rightarrow> 'c \<Rightarrow> string \<times> bool" where
  "resolve o' c = (case to_tenantResolver o' of Some fn \<Rightarrow> fn c | None \<Rightarrow> ([], False))"

definition tenant_arrive ::
  "(('s, 'z) web_scheme, 'r) tenant_options \<Rightarrow> (string \<times> nat) list \<Rightarrow> int \<Rightarrow> ('s, 'z) web_scheme \<Rightarrow> registry \<Rightarrow>
     registry \<times> (('s, 'z) web_scheme, 'r) visit" where
  "tenant_arrive o' order now c r =
     (let (tenant, ok) = resolve o' c
      in if \<not> ok \<or> tenant = [] then (r, Done None (Some (op_unauthorized o' c)))
         else case acquireLocked order now (cx_Err (rq_Context (wb_request c))) tenant r of
             (r', Inl er) \<Rightarrow> (r', Done None (Some (to_enforcerError o' c er)))
           | (r', Inr n) \<Rightarrow> (r', Acquiring tenant (length (rg_calls r)) c))"

definition tenant_acquired ::
  "(('s, 'z) web_scheme, 'r) tenant_options \<Rightarrow> string \<Rightarrow> nat \<Rightarrow> nat \<Rightarrow> select \<Rightarrow> int \<Rightarrow> err option \<Rightarrow>
     ('s, 'z) web_scheme \<Rightarrow> registry \<Rightarrow> registry \<times> (('s, 'z) web_scheme, 'r) visit" where
  "tenant_acquired o' tenant t n s now ctxErr c r =
     (acquireReturn t s now ctxErr r,
      case acquireResult s (rg_heap r n) ctxErr of
        Inl er \<Rightarrow> Done (Some t) (Some (to_enforcerError o' c er))
      | Inr enf \<Rightarrow> Serving tenant t enf (with_tenant tenant enf c))"

text \<open>Handlers run under the lease, the deferred \<^verbatim>\<open>release\<close> after them, whether they return or panic.\<close>

definition tenant_served ::
  "(inst \<Rightarrow> ('s, 'c, 'x) enforcer) \<Rightarrow> ((('s, 'c, 'x) state, 'z) web_scheme, 'r) tenant_options \<Rightarrow>
     ((('s, 'c, 'x) state, 'z) web_scheme \<Rightarrow> 'r) \<Rightarrow> nat \<Rightarrow> inst option \<Rightarrow> int \<Rightarrow>
     (('s, 'c, 'x) state, 'z) web_scheme \<Rightarrow> registry \<Rightarrow> registry \<times> ((('s, 'c, 'x) state, 'z) web_scheme, 'r) visit" where
  "tenant_served enforcer_of o' next t enf now c r =
     (release t now r,
      Done (Some t) (case enf of None \<Rightarrow> None | Some i \<Rightarrow> Some (admit_request (ask (enforcer_of i)) o' next c)))"

definition tenant_panicked :: "nat \<Rightarrow> int \<Rightarrow> registry \<Rightarrow> registry \<times> ('c, 'r) visit" where
  "tenant_panicked t now r = (release t now r, Done (Some t) None)"

text \<open>
  What the four packages install: the sections of the handler, for the options that were built. In Gin
  and Fiber \<open>next\<close> is the \<^verbatim>\<open>Next\<close> of the context.
\<close>

record ('st, 'z, 'r) tenant_handler =
  th_arrive :: "(string \<times> nat) list \<Rightarrow> int \<Rightarrow> ('st, 'z) web_scheme \<Rightarrow> registry \<Rightarrow>
    registry \<times> (('st, 'z) web_scheme, 'r) visit"
  th_acquired :: "string \<Rightarrow> nat \<Rightarrow> nat \<Rightarrow> select \<Rightarrow> int \<Rightarrow> err option \<Rightarrow> ('st, 'z) web_scheme \<Rightarrow> registry \<Rightarrow>
    registry \<times> (('st, 'z) web_scheme, 'r) visit"
  th_served :: "(('st, 'z) web_scheme \<Rightarrow> 'r) \<Rightarrow> nat \<Rightarrow> inst option \<Rightarrow> int \<Rightarrow> ('st, 'z) web_scheme \<Rightarrow> registry \<Rightarrow>
    registry \<times> (('st, 'z) web_scheme, 'r) visit"
  th_panicked :: "nat \<Rightarrow> int \<Rightarrow> registry \<Rightarrow> registry \<times> (('st, 'z) web_scheme, 'r) visit"

definition tenant_handler_of ::
  "(inst \<Rightarrow> ('s, 'c, 'x) enforcer) \<Rightarrow> ((('s, 'c, 'x) state, 'z) web_scheme, 'r) tenant_options \<Rightarrow>
     (('s, 'c, 'x) state, 'z, 'r) tenant_handler" where
  "tenant_handler_of enforcer_of o' = \<lparr>th_arrive = tenant_arrive o', th_acquired = tenant_acquired o',
     th_served = tenant_served enforcer_of o', th_panicked = tenant_panicked\<rparr>"

lemma tenant_handler_sel [simp]:
  "th_arrive (tenant_handler_of enforcer_of o') = tenant_arrive o'" "th_acquired (tenant_handler_of enforcer_of o') = tenant_acquired o'"
  "th_served (tenant_handler_of enforcer_of o') = tenant_served enforcer_of o'" "th_panicked (tenant_handler_of enforcer_of o') = tenant_panicked"
  by (simp_all add: tenant_handler_of_def)







subsection \<open>Requests and the registry\<close>

record ('s, 'z, 'r) site =
  si_registry :: registry
  si_visits :: "(('s, 'z) web_scheme, 'r) visit list"

fun visit_call :: "('c, 'r) visit \<Rightarrow> nat option" where
  "visit_call (Acquiring _ t _) = Some t"
| "visit_call (Serving _ t _ _) = Some t"
| "visit_call (Done t _) = t"

definition owned :: "('s, 'z, 'r) site \<Rightarrow> nat set" where
  "owned s = {t. \<exists>v \<in> set (si_visits s). visit_call v = Some t}"

text \<open>
  Only the middleware holds the \<^verbatim>\<open>release\<close> function of its calls, so no other step ends or changes them.
  The Enforcer may be in any state when a request asks it: other requests use it as well.
\<close>

inductive site_step ::
  "('st, 'z, 'r) tenant_handler \<Rightarrow> (('st, 'z) web_scheme \<Rightarrow> 'r) \<Rightarrow> ('st, 'z, 'r) site \<Rightarrow> ('st, 'z, 'r) site \<Rightarrow> bool"
  for th h s where
  arrives: "ranges order (rg_cache (si_registry s)) \<Longrightarrow> th_arrive th order now c (si_registry s) = (r, v) \<Longrightarrow>
    site_step th h s (s\<lparr>si_registry := r, si_visits := si_visits s @ [v]\<rparr>)"
| acquires: "i < length (si_visits s) \<Longrightarrow> si_visits s ! i = Acquiring tenant t c \<Longrightarrow>
    rg_calls (si_registry s) ! t = Waiting tenant n \<Longrightarrow> selectable sel (rg_heap (si_registry s) n) \<Longrightarrow>
    th_acquired th tenant t n sel now ctxErr c (si_registry s) = (r, v) \<Longrightarrow>
    site_step th h s (s\<lparr>si_registry := r, si_visits := (si_visits s)[i := v]\<rparr>)"
| serves: "i < length (si_visits s) \<Longrightarrow> si_visits s ! i = Serving tenant t enf c \<Longrightarrow>
    th_served th h t enf now (c\<lparr>wb_state := st\<rparr>) (si_registry s) = (r, v) \<Longrightarrow>
    site_step th h s (s\<lparr>si_registry := r, si_visits := (si_visits s)[i := v]\<rparr>)"
| panics: "i < length (si_visits s) \<Longrightarrow> si_visits s ! i = Serving tenant t enf c \<Longrightarrow>
    th_panicked th t now (si_registry s) = (r, v) \<Longrightarrow>
    site_step th h s (s\<lparr>si_registry := r, si_visits := (si_visits s)[i := v]\<rparr>)"
| elsewhere: "registry_step (si_registry s) r \<Longrightarrow>
    (\<And>t. t \<in> owned s \<Longrightarrow> rg_calls r ! t = rg_calls (si_registry s) ! t) \<Longrightarrow>
    site_step th h s (s\<lparr>si_registry := r\<rparr>)"

inductive site_run ::
  "('st, 'z, 'r) tenant_handler \<Rightarrow> (('st, 'z) web_scheme \<Rightarrow> 'r) \<Rightarrow> ('st, 'z, 'r) site \<Rightarrow> bool" for th h where
  opened: "NewTenantRegistryContext opts = Some r \<Longrightarrow> site_run th h \<lparr>si_registry = r, si_visits = []\<rparr>"
| went: "site_run th h s \<Longrightarrow> site_step th h s s' \<Longrightarrow> site_run th h s'"

text \<open>A request of the tenant that the resolver named, with that tenant's Enforcer in its context.\<close>

definition of_tenant :: "(('s, 'z) web_scheme, 'r) tenant_options \<Rightarrow> string \<Rightarrow> inst option \<Rightarrow> ('s, 'z) web_scheme \<Rightarrow> bool" where
  "of_tenant o' tenant enf c \<longleftrightarrow> tenant \<noteq> [] \<and> (\<exists>c0. resolve o' c0 = (tenant, True) \<and> c = with_tenant tenant enf c0)"

lemma of_tenant_context:
  "of_tenant o' tenant enf c \<Longrightarrow> TenantFromContext (wb_request c) = (tenant, True) \<and> fst (EnforcerFromContext (wb_request c)) = enf"
  by (auto simp: of_tenant_def with_tenant_def TenantFromContext_def EnforcerFromContext_def)

text \<open>What the registry knows of a request.\<close>

definition visit_ok ::
  "(('s, 'z) web_scheme, 'r) tenant_options \<Rightarrow> registry \<Rightarrow> (('s, 'z) web_scheme, 'r) visit \<Rightarrow> bool" where
  "visit_ok o' r v \<longleftrightarrow>
     (case v of
        Acquiring tenant t c \<Rightarrow> resolve o' c = (tenant, True) \<and> tenant \<noteq> [] \<and> t < length (rg_calls r) \<and> (\<exists>n. rg_calls r ! t = Waiting tenant n)
      | Serving tenant t enf c \<Rightarrow> t < length (rg_calls r) \<and> (\<exists>n. rg_calls r ! t = Holding tenant n enf) \<and>
          of_tenant o' tenant enf c
      | Done (Some t) _ \<Rightarrow> t < length (rg_calls r) \<and> rg_calls r ! t = Released
      | Done None _ \<Rightarrow> True)"

definition site_ok :: "(('s, 'z) web_scheme, 'r) tenant_options \<Rightarrow> ('s, 'z, 'r) site \<Rightarrow> bool" where
  "site_ok o' s \<longleftrightarrow> registry_run (si_registry s) \<and> (\<forall>v \<in> set (si_visits s). visit_ok o' (si_registry s) v) \<and>
     (\<forall>i j t. i < length (si_visits s) \<longrightarrow> j < length (si_visits s) \<longrightarrow> visit_call (si_visits s ! i) = Some t \<longrightarrow>
        visit_call (si_visits s ! j) = Some t \<longrightarrow> i = j)"

subsection \<open>What the steps of the registry do to the calls of Acquire\<close>

lemma release_calls:
  "t < length (rg_calls r) \<Longrightarrow> rg_calls (release t now r) = (rg_calls r)[t := Released]"
proof (cases "rg_calls r ! t")
  case Released
  then have "release t now r = r" by (simp add: release_def)
  moreover have "(rg_calls r)[t := Released] = rg_calls r"
    using list_update_id [of "rg_calls r" t] unfolding Released .
  ultimately show ?thesis by simp
qed (simp_all add: release_def giveBack_def)

lemma makeRoom_calls: "makeRoom order r = Inr r' \<Longrightarrow> rg_calls r' = rg_calls r"
  by (auto simp: makeRoom_def split: if_splits option.splits)

lemma acquireLocked_calls:
  "acquireLocked order now ctxErr tenant r = (r', res) \<Longrightarrow>
     rg_calls r' = rg_calls r @ (case res of Inl _ \<Rightarrow> [] | Inr n \<Rightarrow> [Waiting tenant n])"
  by (auto simp: acquireLocked_def lease_def newEntry_def Let_def makeRoom_calls split: option.splits if_splits sum.splits)

lemma acquireReturn_calls:
  "t < length (rg_calls r) \<Longrightarrow> rg_calls r ! t = Waiting tenant n \<Longrightarrow>
     rg_calls (acquireReturn t s now ctxErr r) = (rg_calls r)[t :=
       (case acquireResult s (rg_heap r n) ctxErr of Inl _ \<Rightarrow> Released | Inr i \<Rightarrow> Holding tenant n i)]"
  by (auto simp: acquireReturn_def release_calls split: sum.splits)

lemma pruneLoop_calls: "rg_calls (fst (pruneLoop now order (r, k))) = rg_calls r"
  by (induction now order "(r, k)" arbitrary: r k rule: pruneLoop.induct) (auto simp: Let_def)

lemma registry_step_length:
  assumes "registry_step r r'"
  shows "length (rg_calls r) \<le> length (rg_calls r')"
  using assms
proof cases
  case background
  then show ?thesis
    by cases (auto simp: entryFinished_def Let_def acquireReturn_calls release_calls)
next
  case (acquire order now ctxErr tenant)
  then show ?thesis using acquireLocked_calls [of order now ctxErr tenant r r' "snd (acquireLocked order now ctxErr tenant r)"] by simp
qed (auto simp: release_calls Clear_def evictLocked_def clearLocked_def shutdownLocked_def PruneIdle_def pruneLoop_calls
    modify_def Let_def split: option.splits)

subsection \<open>The invariant of a site\<close>

lemma visit_ok_cong:
  assumes "visit_ok o' r v" and "length (rg_calls r) \<le> length (rg_calls r')"
    and "\<And>t. visit_call v = Some t \<Longrightarrow> rg_calls r' ! t = rg_calls r ! t"
  shows "visit_ok o' r' v"
  using assms by (cases v) (auto simp: visit_ok_def split: option.splits)

lemma site_ok_update:
  assumes s: "site_ok o' s" and i: "i < length (si_visits s)" "visit_call (si_visits s ! i) = Some t"
    and v: "visit_call v = Some t" "visit_ok o' r v" and r: "registry_run r" "rg_calls r = (rg_calls (si_registry s))[t := x]"
  shows "site_ok o' (s\<lparr>si_registry := r, si_visits := (si_visits s)[i := v]\<rparr>)"
proof -
  have unique: "j = i" if "j < length (si_visits s)" "visit_call (si_visits s ! j) = Some t" for j
    using s i that by (simp add: site_ok_def)
  have "visit_ok o' r (((si_visits s)[i := v]) ! j)" if j: "j < length (si_visits s)" for j
  proof (cases "j = i")
    case True
    with v(2) j show ?thesis by simp
  next
    case False
    have "visit_ok o' (si_registry s) (si_visits s ! j)" using s j by (simp add: site_ok_def)
    then have "visit_ok o' r (si_visits s ! j)"
    proof (rule visit_ok_cong)
      show "length (rg_calls (si_registry s)) \<le> length (rg_calls r)" by (simp add: r(2))
      fix k
      assume k: "visit_call (si_visits s ! j) = Some k"
      have "t \<noteq> k" using unique [OF j] False k by blast
      then show "rg_calls r ! k = rg_calls (si_registry s) ! k" by (simp add: r(2))
    qed
    with False show ?thesis by simp
  qed
  then have "\<forall>v \<in> set ((si_visits s)[i := v]). visit_ok o' r v" by (auto simp: in_set_conv_nth)
  moreover have "visit_call (((si_visits s)[i := v]) ! k) = visit_call (si_visits s ! k)" for k
    using i v(1) by (cases "k = i") simp_all
  ultimately show ?thesis using r(1) s unfolding site_ok_def by simp
qed

lemma site_ok_visit:
  assumes "site_ok o' s" and "i < length (si_visits s)"
  shows "visit_ok o' (si_registry s) (si_visits s ! i)" and "registry_run (si_registry s)"
  using assms by (auto simp: site_ok_def)

lemma site_arrives_ok:
  assumes s: "site_ok o' s" and order: "ranges order (rg_cache (si_registry s))"
    and run: "tenant_arrive o' order now c (si_registry s) = (r, v)"
  shows "site_ok o' (s\<lparr>si_registry := r, si_visits := si_visits s @ [v]\<rparr>)"
proof -
  let ?calls = "rg_calls (si_registry s)"
  obtain tenant ok where res: "resolve o' c = (tenant, ok)" by force
  obtain r' out where acq: "acquireLocked order now (cx_Err (rq_Context (wb_request c))) tenant (si_registry s) = (r', out)"
    by force
  have old: "registry_run (si_registry s)" using s by (simp add: site_ok_def)
  have new: "registry_run r'"
    using registry_run.step [OF old registry_step.acquire [OF order, of now "cx_Err (rq_Context (wb_request c))" tenant]] acq by simp
  note calls = acquireLocked_calls [OF acq]
  have v: "registry_run r" "visit_ok o' r v" "\<exists>more. rg_calls r = ?calls @ more"
    "visit_call v = None \<or> visit_call v = Some (length ?calls)"
    using run res acq calls old new
    by (auto simp: tenant_arrive_def visit_ok_def split: if_splits sum.splits)
  from v(3) obtain more where more: "rg_calls r = ?calls @ more" ..
  have below: "t < length ?calls" if "visit_call u = Some t" "u \<in> set (si_visits s)" for u t
    using s that by (cases u) (auto simp: site_ok_def visit_ok_def split: option.splits)
  have "visit_ok o' r u" if "u \<in> set (si_visits s)" for u
    by (rule visit_ok_cong [where r = "si_registry s"])
      (use s that below [OF _ that] more in \<open>auto simp: site_ok_def nth_append\<close>)
  moreover have "i = j" if "i < Suc (length (si_visits s))" "j < Suc (length (si_visits s))"
    "visit_call ((si_visits s @ [v]) ! i) = Some t" "visit_call ((si_visits s @ [v]) ! j) = Some t" for i j t
  proof -
    have "t < length ?calls" if "k < length (si_visits s)" "visit_call (si_visits s ! k) = Some t" for k
      using below that by (metis nth_mem)
    with that v(4) s show ?thesis
      unfolding site_ok_def by (auto simp: nth_append less_Suc_eq split: if_splits)
  qed
  ultimately show ?thesis using v(1,2) by (auto simp: site_ok_def)
qed

lemma site_releases_ok:
  assumes s: "site_ok o' s" and i: "i < length (si_visits s)" "si_visits s ! i = Serving tenant t enf c"
  shows "site_ok o' (s\<lparr>si_registry := release t now (si_registry s), si_visits := (si_visits s)[i := Done (Some t) out]\<rparr>)"
proof -
  from site_ok_visit [OF s i(1)] i(2) obtain n where t: "t < length (rg_calls (si_registry s))"
    and held: "rg_calls (si_registry s) ! t = Holding tenant n enf" and run: "registry_run (si_registry s)"
    by (auto simp: visit_ok_def)
  note calls = release_calls [OF t, of now]
  have "registry_run (release t now (si_registry s))"
    by (intro registry_run.step [OF run] registry_step.background background_step.released [OF t held])
  moreover have "visit_ok o' (release t now (si_registry s)) (Done (Some t) out)"
    using t by (simp add: visit_ok_def calls)
  ultimately show ?thesis by (intro site_ok_update [OF s i(1) _ _ _ _ calls]) (simp_all add: i(2))
qed

lemma site_acquires_ok:
  assumes s: "site_ok o' s" and i: "i < length (si_visits s)" "si_visits s ! i = Acquiring tenant t c"
    and wait: "rg_calls (si_registry s) ! t = Waiting tenant n" "selectable sel (rg_heap (si_registry s) n)"
    and run: "tenant_acquired o' tenant t n sel now ctxErr c (si_registry s) = (r, v)"
  shows "site_ok o' (s\<lparr>si_registry := r, si_visits := (si_visits s)[i := v]\<rparr>)"
proof -
  from site_ok_visit [OF s i(1)] i(2) have t: "t < length (rg_calls (si_registry s))"
      "tenant \<noteq> []" "resolve o' c = (tenant, True)" and reg: "registry_run (si_registry s)" by (auto simp: visit_ok_def)
  from run have r: "r = acquireReturn t sel now ctxErr (si_registry s)" by (simp add: tenant_acquired_def)
  note calls = acquireReturn_calls [OF t(1) wait(1), of sel now ctxErr]
  have "registry_run r" unfolding r
    by (intro registry_run.step [OF reg] registry_step.background background_step.returned [OF t(1) wait])
  moreover have "visit_ok o' r v \<and> visit_call v = Some t"
    using run t calls
    by (auto simp: tenant_acquired_def visit_ok_def of_tenant_def r split: sum.splits)
  ultimately show ?thesis
    by (intro site_ok_update [OF s i(1) _ _ _ _ calls [folded r]]) (simp_all add: i(2))
qed

lemma site_elsewhere_ok:
  assumes s: "site_ok o' s" and step: "registry_step (si_registry s) r"
    and same: "\<And>t. t \<in> owned s \<Longrightarrow> rg_calls r ! t = rg_calls (si_registry s) ! t"
  shows "site_ok o' (s\<lparr>si_registry := r\<rparr>)"
proof -
  have "visit_ok o' r v" if v: "v \<in> set (si_visits s)" for v
  proof -
    have "visit_ok o' (si_registry s) v" using s v by (simp add: site_ok_def)
    then show ?thesis
      by (rule visit_ok_cong [OF _ registry_step_length [OF step]]) (rule same, use v in \<open>auto simp: owned_def\<close>)
  qed
  moreover have "registry_run r" using s step registry_run.step by (auto simp: site_ok_def)
  ultimately show ?thesis using s by (simp add: site_ok_def)
qed

lemma site_run_ok: "site_run (tenant_handler_of enforcer_of o') h s \<Longrightarrow> site_ok o' s"
proof (induction rule: site_run.induct)
  case (opened opts r)
  then show ?case by (simp add: site_ok_def registry_run.start)
next
  case (went s s')
  from went(2) show ?case
  proof cases
    case arrives
    then show ?thesis using site_arrives_ok [OF went.IH] by auto
  next
    case acquires
    then show ?thesis using site_acquires_ok [OF went.IH] by auto
  next
    case serves
    then show ?thesis using site_releases_ok [OF went.IH] by (auto simp: tenant_served_def)
  next
    case panics
    then show ?thesis using site_releases_ok [OF went.IH] by (auto simp: tenant_panicked_def)
  next
    case elsewhere
    then show ?thesis using site_elsewhere_ok [OF went.IH] by blast
  qed
qed

text \<open>
  C39. Requests of a per-tenant middleware are safe for whatever else happens to the registry, eviction
  and shutdown included: while a request is served, it holds the Enforcer of exactly the tenant that the
  resolver named for it, that Enforcer is not shut down by the registry, and the request's context names
  that tenant and Enforcer; and once it is done, by an answer, an error or a panic, its lease is back.
\<close>

theorem tenant_requests_safe:
  assumes "site_run (tenant_handler_of enforcer_of o') h s" and "v \<in> set (si_visits s)"
  shows "case v of
      Serving tenant t enf c \<Rightarrow> \<exists>k c0. enf = Some k \<and> inst_tenant k = tenant \<and> inst_ref k \<notin> set (rg_shut (si_registry s)) \<and>
        resolve o' c0 = (tenant, True) \<and> c = with_tenant tenant (Some k) c0 \<and>
        TenantFromContext (wb_request c) = (tenant, True) \<and> EnforcerFromContext (wb_request c) = (Some k, True)
    | Done (Some t) _ \<Rightarrow> rg_calls (si_registry s) ! t = Released
    | _ \<Rightarrow> True"
proof (cases v)
  case (Serving tenant t enf c)
  have ok: "visit_ok o' (si_registry s) v" "registry_run (si_registry s)"
    using site_run_ok [OF assms(1)] assms(2) by (auto simp: site_ok_def)
  with Serving obtain n where "Holding tenant n enf \<in> set (rg_calls (si_registry s))" and of: "of_tenant o' tenant enf c"
    by (auto simp: visit_ok_def) (metis nth_mem)
  from lease_facts(1) [OF ok(2) this(1)] of of_tenant_context [OF of] Serving show ?thesis
    by (auto simp: of_tenant_def EnforcerFromContext_def)
next
  case (Done t out)
  have "visit_ok o' (si_registry s) v" using site_run_ok [OF assms(1)] assms(2) by (auto simp: site_ok_def)
  with Done show ?thesis by (auto simp: visit_ok_def split: option.splits)
qed simp

text \<open>The Enforcer of every tenant: that of \<^verbatim>\<open>acme\<close>, for the tenant.\<close>

definition acme_of :: "inst \<Rightarrow> local_enforcer" where
  "acme_of i = acme\<lparr>en_tenant := inst_tenant i\<rparr>"

definition at_acme :: "'c \<Rightarrow> string \<times> bool" where "at_acme c = (''acme'', True)"

definition acme_options :: "(local_state web, local_state web) tenant_options" where
  "acme_options = WithTenantUserID (\<lambda>_. (''bob'', True)) (WithTenantResolver at_acme http_defaultTenantOptions)"

text \<open>A request of tenant \<^verbatim>\<open>acme\<close> that waits for its lease, and that is served.\<close>

lemma waits_run:
  assumes "resolve o' c = (''acme'', True)" and "cx_Err (rq_Context (wb_request c)) = None"
  shows "site_run (tenant_handler_of enforcer_of o') h \<lparr>si_registry = reg_ready, si_visits = [Acquiring ''acme'' 0 c]\<rparr>"
proof -
  let ?run = "site_run (tenant_handler_of enforcer_of o') h"
  let ?at = "\<lambda>r. \<lparr>si_registry = r, si_visits = [Acquiring ''acme'' 0 c]\<rparr>"
  have one: "?run \<lparr>si_registry = reg_empty, si_visits = []\<rparr>"
    by (rule site_run.opened [of "[WithRegistryCapacity 1, WithRegistryIdleTTL 5]"])
      (simp add: reg_empty_def NewTenantRegistryContext_def WithRegistryCapacity_def WithRegistryIdleTTL_def)
  have "rg_calls reg_empty = []" "rg_cache reg_empty = fmempty" by code_simp+
  moreover have "snd (acquireLocked [] 10 None ''acme'' reg_empty) = Inr 0" by code_simp
  then have "acquireLocked [] 10 None ''acme'' reg_empty = (reg_waiting, Inr 0)"
    by (simp add: prod_eq_iff reg_waiting_def)
  ultimately have arrive: "tenant_arrive o' [] 10 c reg_empty = (reg_waiting, Acquiring ''acme'' 0 c)"
    "ranges [] (rg_cache reg_empty)"
    using assms by (simp_all add: tenant_arrive_def ranges_def)
  have two: "?run (?at reg_waiting)"
    using site_run.went [OF one site_step.arrives [of "[]" _ _ 10 c]] arrive by simp
  have calls: "rg_calls reg_waiting = [Waiting ''acme'' 0]" "rg_calls reg_checked = [Waiting ''acme'' 0]"
    "rg_calls reg_ready = [Waiting ''acme'' 0]" by code_simp+
  have "rg_prov reg_waiting 0 = Some (Calling ''acme'')" "own_result (Returned (Some acme_enforcer) None) reg_waiting"
    by code_simp+
  then have "registry_step reg_waiting reg_checked"
    unfolding reg_checked_def by (intro registry_step.background background_step.factory)
  then have three: "?run (?at reg_checked)"
    using site_run.went [OF two site_step.elsewhere [of "?at reg_waiting" reg_checked]] by (simp add: owned_def calls)
  have "rg_prov reg_checked 0 = Some (Checked ''acme'' (Some acme_enforcer) None)" by code_simp
  then have "registry_step reg_checked reg_ready"
    unfolding reg_ready_def by (intro registry_step.background background_step.provisioned)
  then show ?thesis
    using site_run.went [OF three site_step.elsewhere [of "?at reg_checked" reg_ready]]
    by (simp add: owned_def calls)
qed

lemma served_run:
  assumes "resolve o' c = (''acme'', True)" and "cx_Err (rq_Context (wb_request c)) = None"
  shows "site_run (tenant_handler_of enforcer_of o') h
    \<lparr>si_registry = reg_held, si_visits = [Serving ''acme'' 0 (Some acme_enforcer) (with_tenant ''acme'' (Some acme_enforcer) c)]\<rparr>"
proof -
  have calls: "rg_calls reg_ready = [Waiting ''acme'' 0]" by code_simp
  have "selectable EntryReady (rg_heap reg_ready 0)" by code_simp
  moreover have "tenant_acquired o' ''acme'' 0 0 EntryReady 11 None c reg_ready =
      (reg_held, Serving ''acme'' 0 (Some acme_enforcer) (with_tenant ''acme'' (Some acme_enforcer) c))"
  proof -
    have "acquireResult EntryReady (rg_heap reg_ready 0) None = Inr (Some acme_enforcer)" by code_simp
    then show ?thesis by (simp add: tenant_acquired_def reg_held_def)
  qed
  ultimately show ?thesis
    using site_run.went [OF waits_run [OF assms] site_step.acquires [of 0 _ "''acme''" 0 c 0 EntryReady]]
    by (simp add: calls)
qed


definition bob_served :: "(local_state, unit, local_state web) site" where
  "bob_served = \<lparr>si_registry = reg_held,
     si_visits = [Serving ''acme'' 0 (Some acme_enforcer) (with_tenant ''acme'' (Some acme_enforcer) bob_asks)]\<rparr>"

lemma bob_served_run: "site_run (tenant_handler_of acme_of acme_options) h bob_served"
  unfolding bob_served_def
  by (rule served_run)
    (simp_all add: resolve_def acme_options_def WithTenantResolver_def WithTenantUserID_def at_acme_def bob_asks_def)

theorem tenant_requests_safe_witness:
  "inst_tenant acme_enforcer = ''acme'' \<and> inst_ref acme_enforcer \<notin> set (rg_shut (si_registry bob_served)) \<and>
    si_visits bob_served = [Serving ''acme'' 0 (Some acme_enforcer) (with_tenant ''acme'' (Some acme_enforcer) bob_asks)]"
  using tenant_requests_safe [OF bob_served_run [where h = "\<lambda>c. c"], of "hd (si_visits bob_served)"]
  by (simp add: bob_served_def)

subsection \<open>Whom the per-tenant middleware lets through\<close>





















end
