(* ===== verification/SharedCache.thy ===== *)
theory SharedCache
  imports Coherence RedisProps
begin

text \<open>
  Many processes that share one store and one cache, as in a deployment over an SQL database and Redis.
  Each process has an Enforcer of the same configuration with its own counters and its own generation, so
  only the tokens of the cache tell a reader of one process that a mutation of another has overtaken it. A call is split at
  every command: a lookup, a token, the reads of the store, a conditional fill, the deletion of a key,
  and a flush that deletes the keys page by page while the other processes go on. Keys also vanish
  by expiry and eviction at any time.
\<close>

subsection \<open>A cache with tokens that never come back\<close>

text \<open>
  \<open>present\<close> bounds the keys there are, \<open>page\<close> deletes some of them, and \<open>issued\<close> are the tokens that
  were ever in use: a token that is not valid any more stays so.
\<close>

locale shared_cache = cache_backend +
  fixes gens :: "'a generations"
    and issued :: "'a \<Rightarrow> string set"
    and present :: "'a \<Rightarrow> string fset"
    and page :: "string list \<Rightarrow> 'a \<Rightarrow> 'a"
  assumes generations: "ca_Generations ops = Some gens"
    and valid_issued: "fit c \<Longrightarrow> valid c k t \<Longrightarrow> t \<in> issued c"
    and held_present: "fit c \<Longrightarrow> holds c k v \<Longrightarrow> k |\<in>| present c"
    and valid_present: "fit c \<Longrightarrow> valid c k t \<Longrightarrow> k |\<in>| present c"
    and get_valid: "fit c \<Longrightarrow> valid (fst (ca_Get ops cx k c)) k' t \<Longrightarrow> valid c k' t"
    and token_fresh: "fit c \<Longrightarrow> valid (fst (cg_Generation gens cx k c)) k' t \<Longrightarrow> valid c k' t \<or> t \<notin> issued c"
    and fill_valid: "fit c \<Longrightarrow> valid (cg_SetIfGeneration gens cx k v t c) k' t' \<Longrightarrow> valid c k' t'"
    and delete_valid: "fit c \<Longrightarrow> valid (ca_Delete ops cx k c) k' t \<Longrightarrow> k' \<noteq> k \<and> valid c k' t"
    and page_old: "fit c \<Longrightarrow> holds (page ks c) k v \<Longrightarrow> k \<notin> set ks \<and> holds c k v"
    and page_valid: "fit c \<Longrightarrow> valid (page ks c) k t \<Longrightarrow> k \<notin> set ks \<and> valid c k t"
    and page_fit: "fit c \<Longrightarrow> fit (page ks c)"
    and issued_mono: "issued c \<subseteq> issued (fst (ca_Get ops cx k c))"
      "issued c \<subseteq> issued (fst (cg_Generation gens cx k c))" "issued c \<subseteq> issued (cg_SetIfGeneration gens cx k v t c)"
      "issued c \<subseteq> issued (ca_Delete ops cx k c)" "issued c \<subseteq> issued (page ks c)"

subsection \<open>Processes and their interleaving\<close>

text \<open>
  What a process still has to do for a mutation that is in the store: to flush, to drop a user, or the
  rest of a flush, with the keys that were there when it began and have not been deleted since.
\<close>

datatype duty = ToFlush | ToDrop string | Flushing "string fset"

definition duty_of :: "invalidation \<Rightarrow> duty" where
  "duty_of iv = (case iv of FlushAll \<Rightarrow> ToFlush | DropUser u \<Rightarrow> ToDrop u)"

fun worked :: "string list \<Rightarrow> duty \<Rightarrow> duty" where
  "worked ks (Flushing left) = Flushing (left |-| fset_of_list ks)"
| "worked ks d = d"

text \<open>A call of \<^verbatim>\<open>permissionsFor\<close> in some process, by what it has finished.\<close>

datatype visitor =
    Asked string
  | Reading string "string option" bool
  | Read string "string option" permissionSet
  | Finished string permissionSet
  | GaveUp

fun torn_by :: "invalidation option \<Rightarrow> visitor \<Rightarrow> visitor" where
  "torn_by (Some iv) (Reading u t torn) = Reading u t (torn \<or> covers iv u)"
| "torn_by _ v = v"

record ('s, 'c) cluster =
  cl_store :: 's
  cl_cache :: 'c
  cl_visitors :: "visitor list"
  cl_duties :: "duty list"

text \<open>The state of a process: its own fields with the shared store and cache.\<close>

definition shows_cluster :: "('s, 'c, 'x) state \<Rightarrow> ('s, 'c) cluster \<Rightarrow> bool" where
  "shows_cluster st c \<longleftrightarrow> st_store st = cl_store c \<and> st_cache st = cl_cache c"

inductive cluster_step ::
  "('s, 'c, 'x) enforcer \<Rightarrow> ('c \<Rightarrow> string fset) \<Rightarrow> (string list \<Rightarrow> 'c \<Rightarrow> 'c) \<Rightarrow>
     ('s, 'c) cluster \<Rightarrow> ('s, 'c) cluster \<Rightarrow> bool" for e present page c where
  looks_up: "shows_cluster st c \<Longrightarrow> cacheLookup e cx u st = (st', hit) \<Longrightarrow>
    cluster_step e present page c (c\<lparr>cl_cache := st_cache st',
      cl_visitors := cl_visitors c @ [case hit of Some ps \<Rightarrow> Finished u ps | None \<Rightarrow> Asked u]\<rparr>)"
| takes_token: "i < length (cl_visitors c) \<Longrightarrow> cl_visitors c ! i = Asked u \<Longrightarrow> shows_cluster st c \<Longrightarrow>
    cacheToken e cx u st = (st', t) \<Longrightarrow>
    cluster_step e present page c (c\<lparr>cl_cache := st_cache st', cl_visitors := (cl_visitors c)[i := Reading u t False]\<rparr>)"
| reads: "i < length (cl_visitors c) \<Longrightarrow> cl_visitors c ! i = Reading u t torn \<Longrightarrow>
    torn \<or> loadPermissions e cx u (cl_store c) = Inr ps \<Longrightarrow>
    cluster_step e present page c (c\<lparr>cl_visitors := (cl_visitors c)[i := Read u t ps]\<rparr>)"
| gives_up: "i < length (cl_visitors c) \<Longrightarrow>
    cluster_step e present page c (c\<lparr>cl_visitors := (cl_visitors c)[i := GaveUp]\<rparr>)"
| fills: "i < length (cl_visitors c) \<Longrightarrow> cl_visitors c ! i = Read u t ps \<Longrightarrow> shows_cluster st c \<Longrightarrow>
    cacheFill e cx u ps g t st = st' \<Longrightarrow>
    cluster_step e present page c (c\<lparr>cl_cache := st_cache st', cl_visitors := (cl_visitors c)[i := Finished u ps]\<rparr>)"
| writes: "store_op e f iv \<Longrightarrow> f (cl_store c) = (s, None) \<Longrightarrow>
    cluster_step e present page c (c\<lparr>cl_store := s, cl_visitors := map (torn_by iv) (cl_visitors c),
      cl_duties := cl_duties c @ map duty_of (case iv of None \<Rightarrow> [] | Some p \<Rightarrow> [p])\<rparr>)"
| refused: "store_op e f iv \<Longrightarrow> f (cl_store c) = (s, Some er) \<Longrightarrow> cluster_step e present page c (c\<lparr>cl_store := s\<rparr>)"
| drops: "cl_duties c = ds @ ToDrop u # ds' \<Longrightarrow> shows_cluster st c \<Longrightarrow> dropCache e cx u st = st' \<Longrightarrow>
    cluster_step e present page c (c\<lparr>cl_cache := st_cache st', cl_duties := map (worked [cacheKey e u]) (ds @ ds')\<rparr>)"
| begins_flush: "cl_duties c = ds @ ToFlush # ds' \<Longrightarrow>
    cluster_step e present page c (c\<lparr>cl_duties := ds @ Flushing (present (cl_cache c)) # ds'\<rparr>)"
| deletes: "cluster_step e present page c (c\<lparr>cl_cache := page ks (cl_cache c), cl_duties := map (worked ks) (cl_duties c)\<rparr>)"
| ends_flush: "cl_duties c = ds @ Flushing {||} # ds' \<Longrightarrow> cluster_step e present page c (c\<lparr>cl_duties := ds @ ds'\<rparr>)"

subsection \<open>The invariant\<close>

fun obliges :: "('s, 'c, 'x) enforcer \<Rightarrow> string \<Rightarrow> duty \<Rightarrow> bool" where
  "obliges e u ToFlush = True"
| "obliges e u (ToDrop v) = (u = v)"
| "obliges e u (Flushing left) = (cacheKey e u |\<in>| left)"

definition owed :: "('s, 'c, 'x) enforcer \<Rightarrow> duty list \<Rightarrow> string \<Rightarrow> bool" where
  "owed e ds u \<longleftrightarrow> (\<exists>d \<in> set ds. obliges e u d)"

lemma owed_simps [simp]:
  "owed e (ds @ ds') u \<longleftrightarrow> owed e ds u \<or> owed e ds' u" "owed e (d # ds) u \<longleftrightarrow> obliges e u d \<or> owed e ds u"
  "\<not> owed e [] u"
  by (auto simp: owed_def)

lemma worked_owed: "owed e ds u \<Longrightarrow> cacheKey e u \<notin> set ks \<Longrightarrow> owed e (map (worked ks) ds) u"
proof -
  have "obliges e u d \<Longrightarrow> cacheKey e u \<notin> set ks \<Longrightarrow> obliges e u (worked ks d)" for d
    by (cases d) (simp_all add: fset_of_list.rep_eq)
  then show "owed e ds u \<Longrightarrow> cacheKey e u \<notin> set ks \<Longrightarrow> ?thesis" by (auto simp: owed_def)
qed

definition visitor_ok ::
  "('s, 'c, 'x) enforcer \<Rightarrow> ('c \<Rightarrow> string \<Rightarrow> string \<Rightarrow> bool) \<Rightarrow> ('c \<Rightarrow> string set) \<Rightarrow> rbac \<Rightarrow> 'c \<Rightarrow> duty list \<Rightarrow> visitor \<Rightarrow> bool" where
  "visitor_ok e valid issued A c ds v \<longleftrightarrow>
     (case v of
        Reading u (Some t) torn \<Rightarrow> t \<in> issued c \<and> (torn \<and> valid c (cacheKey e u) t \<longrightarrow> owed e ds u)
      | Read u (Some t) ps \<Rightarrow> t \<in> issued c \<and> (valid c (cacheKey e u) t \<longrightarrow> agrees e A u ps \<or> owed e ds u)
      | _ \<Rightarrow> True)"

definition cluster_ok ::
  "('s, 'c, 'x) enforcer \<Rightarrow> ('s \<Rightarrow> bool) \<Rightarrow> ('s \<Rightarrow> rbac) \<Rightarrow> ('c \<Rightarrow> bool) \<Rightarrow> ('c \<Rightarrow> string \<Rightarrow> cache_value \<Rightarrow> bool) \<Rightarrow>
     ('c \<Rightarrow> string \<Rightarrow> string \<Rightarrow> bool) \<Rightarrow> ('c \<Rightarrow> string set) \<Rightarrow> ('s, 'c) cluster \<Rightarrow> bool" where
  "cluster_ok e okay absf fit holds valid issued c \<longleftrightarrow>
     okay (cl_store c) \<and> fit (cl_cache c) \<and>
     (\<forall>u ps. holds (cl_cache c) (cacheKey e u) (Permissions ps) \<longrightarrow>
        agrees e (absf (cl_store c)) u ps \<or> owed e (cl_duties c) u) \<and>
     (\<forall>v \<in> set (cl_visitors c). visitor_ok e valid issued (absf (cl_store c)) (cl_cache c) (cl_duties c) v)"

locale shared_engine = engine + shared_cache cops fit holds valid gens issued present page
  for gens issued present page
begin

text \<open>A step that adds nothing to the cache and pays only what it has deleted.\<close>

definition narrows :: "('a, 'b, 'x) enforcer \<Rightarrow> 'b \<Rightarrow> duty list \<Rightarrow> 'b \<Rightarrow> duty list \<Rightarrow> bool" where
  "narrows e c ds c' ds' \<longleftrightarrow> fit c' \<and> issued c \<subseteq> issued c' \<and>
     (\<forall>u v. holds c' (cacheKey e u) v \<longrightarrow> holds c (cacheKey e u) v \<and> (owed e ds u \<longrightarrow> owed e ds' u)) \<and>
     (\<forall>u t. t \<in> issued c \<longrightarrow> valid c' (cacheKey e u) t \<longrightarrow> valid c (cacheKey e u) t \<and> (owed e ds u \<longrightarrow> owed e ds' u))"

lemma narrows_visitor:
  assumes "narrows e c ds c' ds'" and "visitor_ok e valid issued A c ds v"
  shows "visitor_ok e valid issued A c' ds' v"
  using assms by (auto simp: visitor_ok_def narrows_def split: visitor.splits option.splits)

lemma narrows_ok:
  assumes c: "cluster_ok e okay absf fit holds valid issued c"
    and "narrows e (cl_cache c) (cl_duties c) cache ds"
    and "\<And>v. v \<in> set vs \<Longrightarrow> v \<in> set (cl_visitors c) \<or> visitor_ok e valid issued (absf (cl_store c)) cache ds v"
  shows "cluster_ok e okay absf fit holds valid issued (c\<lparr>cl_cache := cache, cl_visitors := vs, cl_duties := ds\<rparr>)"
  using assms narrows_visitor [OF assms(2)] by (fastforce simp: cluster_ok_def narrows_def)

lemma lookup_step:
  assumes e: "en_cache e = Some cops" and fit: "fit (st_cache st)" and run: "cacheLookup e cx u st = (st', res)"
  shows "narrows e (st_cache st) ds (st_cache st') ds"
proof -
  obtain c' found where get: "ca_Get cops cx (cacheKey e u) (st_cache st) = (c', found)" by force
  with run e have "st_cache st' = c'"
    by (auto simp: cacheLookup_def Let_def metric_def split: option.splits cache_value.splits if_splits)
  with get keeps_fit(1) [OF fit, of cx "cacheKey e u"] get_old [OF fit, of cx "cacheKey e u"]
    get_valid [OF fit, of cx "cacheKey e u"] issued_mono(1) [of "st_cache st" cx "cacheKey e u"]
  show ?thesis by (auto simp: narrows_def)
qed

lemma token_step:
  assumes e: "en_cache e = Some cops" and fit: "fit (st_cache st)" and run: "cacheToken e cx u st = (st', t)"
  shows "narrows e (st_cache st) ds (st_cache st') ds" and "t = Some tok \<Longrightarrow> tok \<in> issued (st_cache st')"
proof -
  obtain c' where gen: "cg_Generation gens cx (cacheKey e u) (st_cache st) = (c', t)" and c': "st_cache st' = c'"
    using run e generations by (auto simp: cacheToken_def generations_of_def split: prod.splits)
  show "narrows e (st_cache st) ds (st_cache st') ds"
    using gen c' keeps_fit(6) [OF fit generations, of cx "cacheKey e u"] token_old [OF fit generations, of cx "cacheKey e u"]
      token_fresh [OF fit, of cx "cacheKey e u"] issued_mono(2) [of "st_cache st" cx "cacheKey e u"]
    by (auto simp: narrows_def)
  have "fit c'" using keeps_fit(6) [OF fit generations, of cx "cacheKey e u"] gen by simp
  with token_valid [OF fit generations, of cx "cacheKey e u"] gen valid_issued
  show "t = Some tok \<Longrightarrow> tok \<in> issued (st_cache st')" by (auto simp: c')
qed

lemma fill_step:
  assumes e: "en_cache e = Some cops" and fit: "fit (st_cache st)"
  shows "st_cache (cacheFill e cx u ps g t st) = st_cache st \<or>
    (\<exists>tok. t = Some tok \<and>
      st_cache (cacheFill e cx u ps g t st) = cg_SetIfGeneration gens cx (cacheKey e u) (Permissions ps) tok (st_cache st))"
  using e generations by (auto simp: cacheFill_def split: option.splits)

lemma drop_step:
  assumes e: "en_cache e = Some cops" and fit: "fit (st_cache st)" and ds: "ds = ds1 @ ToDrop u # ds2"
  shows "narrows e (st_cache st) ds (st_cache (dropCache e cx u st)) (map (worked [cacheKey e u]) (ds1 @ ds2))"
proof -
  have cache: "st_cache (dropCache e cx u st) = ca_Delete cops cx (cacheKey e u) (st_cache st)"
    using e by (simp add: dropCache_def dropCacheKey_def Let_def)
  have "owed e (map (worked [cacheKey e u]) (ds1 @ ds2)) v" if "owed e ds v" "v \<noteq> u" for v
    using that worked_owed [of e "ds1 @ ds2" v "[cacheKey e u]"] by (simp add: ds)
  with keeps_fit(3) [OF fit, of cx "cacheKey e u"] delete_old [OF fit, of cx "cacheKey e u"]
    delete_valid [OF fit, of cx "cacheKey e u"] issued_mono(4) [of "st_cache st" cx "cacheKey e u"]
  show ?thesis unfolding narrows_def cache by (metis cacheKey_inject)
qed

lemma page_step:
  assumes fit: "fit c"
  shows "narrows e c ds (page ks c) (map (worked ks) ds)"
  using page_fit [OF fit] page_old [OF fit] page_valid [OF fit] issued_mono(5) worked_owed
  unfolding narrows_def by metis

lemma begin_step:
  assumes fit: "fit c" and ds: "ds = ds1 @ ToFlush # ds2"
  shows "narrows e c ds c (ds1 @ Flushing (present c) # ds2)"
  using held_present [OF fit] valid_present [OF fit] fit by (auto simp: narrows_def ds)

lemma end_step: "fit c \<Longrightarrow> narrows e c (ds1 @ Flushing {||} # ds2) c (ds1 @ ds2)"
  by (auto simp: narrows_def)

text \<open>A write of the store: a visitor that is reading is torn, and a duty is owed for it.\<close>

lemma write_ok:
  assumes c: "cluster_ok e okay absf fit holds valid issued c" and e: "en_store e = ops"
    and op: "store_op e f iv" and run: "f (cl_store c) = (s, None)"
  shows "cluster_ok e okay absf fit holds valid issued
    (c\<lparr>cl_store := s, cl_visitors := map (torn_by iv) (cl_visitors c),
      cl_duties := cl_duties c @ map duty_of (case iv of None \<Rightarrow> [] | Some p \<Rightarrow> [p])\<rparr>)"
proof -
  let ?A = "absf (cl_store c)" and ?ds = "cl_duties c @ map duty_of (case iv of None \<Rightarrow> [] | Some p \<Rightarrow> [p])"
  have okay: "okay (cl_store c)" using c by (simp add: cluster_ok_def)
  note eff = store_op_effect [OF op e okay]
  have s: "s = fst (f (cl_store c))" using run by simp
  have covered: "owed e ?ds u" if "\<not> (iv = None \<or> \<not> covers (the iv) u)" for u
    using that by (cases "the iv") (auto simp: duty_of_def)
  have keep: "agrees e (absf s) u ps \<or> owed e ?ds u" if "agrees e ?A u ps \<or> owed e (cl_duties c) u" for u ps
    using that eff(3) [of u] covered [of u] unfolding s agrees_def owed_simps by metis
  have visitor: "visitor_ok e valid issued (absf s) (cl_cache c) ?ds (torn_by iv v)"
    if "visitor_ok e valid issued ?A (cl_cache c) (cl_duties c) v" for v
  proof (cases v)
    case (Reading u t torn)
    with that covered [of u] show ?thesis by (cases iv; cases t) (auto simp: visitor_ok_def)
  next
    case (Read u t ps)
    with that keep [of u ps] show ?thesis by (cases iv; cases t) (auto simp: visitor_ok_def)
  qed (use that in \<open>cases iv; simp add: visitor_ok_def\<close>)+
  show ?thesis
    unfolding cluster_ok_def using c eff(1) [folded s] keep visitor by (auto simp: cluster_ok_def)
qed

lemma cluster_okD:
  assumes "cluster_ok e okay absf fit holds valid issued c"
  shows "okay (cl_store c)" "fit (cl_cache c)"
    "holds (cl_cache c) (cacheKey e u) (Permissions ps) \<Longrightarrow> agrees e (absf (cl_store c)) u ps \<or> owed e (cl_duties c) u"
    "i < length (cl_visitors c) \<Longrightarrow> visitor_ok e valid issued (absf (cl_store c)) (cl_cache c) (cl_duties c) (cl_visitors c ! i)"
  using assms by (auto simp: cluster_ok_def)

text \<open>One visitor moves on.\<close>

lemma visitor_moves:
  assumes c: "cluster_ok e okay absf fit holds valid issued c"
    and n: "narrows e (cl_cache c) (cl_duties c) cache (cl_duties c)"
    and v: "visitor_ok e valid issued (absf (cl_store c)) cache (cl_duties c) v"
  shows "cluster_ok e okay absf fit holds valid issued (c\<lparr>cl_cache := cache, cl_visitors := (cl_visitors c)[i := v]\<rparr>)"
    and "cluster_ok e okay absf fit holds valid issued (c\<lparr>cl_cache := cache, cl_visitors := cl_visitors c @ [v]\<rparr>)"
proof -
  have "w \<in> set (cl_visitors c) \<or> visitor_ok e valid issued (absf (cl_store c)) cache (cl_duties c) w"
    if "w \<in> insert v (set (cl_visitors c))" for w
    using that v by auto
  with narrows_ok [OF c n, of "(cl_visitors c)[i := v]"] narrows_ok [OF c n, of "cl_visitors c @ [v]"]
    set_update_subset_insert [of "cl_visitors c" i v]
  show "cluster_ok e okay absf fit holds valid issued (c\<lparr>cl_cache := cache, cl_visitors := (cl_visitors c)[i := v]\<rparr>)"
    and "cluster_ok e okay absf fit holds valid issued (c\<lparr>cl_cache := cache, cl_visitors := cl_visitors c @ [v]\<rparr>)"
    by auto
qed

lemma cluster_filled_ok:
  assumes c: "cluster_ok e okay absf fit holds valid issued c" and e: "en_cache e = Some cops"
    and i: "i < length (cl_visitors c)" "cl_visitors c ! i = Read u t ps" and st: "st_cache st = cl_cache c"
  shows "cluster_ok e okay absf fit holds valid issued
    (c\<lparr>cl_cache := st_cache (cacheFill e cx u ps g t st), cl_visitors := (cl_visitors c)[i := Finished u ps]\<rparr>)"
proof -
  note ok = cluster_okD [OF c]
  let ?c' = "st_cache (cacheFill e cx u ps g t st)"
  have fit': "fit (st_cache st)" using ok(2) st by simp
  have mine: "visitor_ok e valid issued (absf (cl_store c)) (cl_cache c) (cl_duties c) (Read u t ps)"
    using ok(4) [OF i(1)] i(2) by simp
  have "fit ?c' \<and> issued (cl_cache c) \<subseteq> issued ?c' \<and>
      (\<forall>k t'. valid ?c' k t' \<longrightarrow> valid (cl_cache c) k t') \<and>
      (\<forall>k v. holds ?c' k v \<longrightarrow> holds (cl_cache c) k v \<or>
        k = cacheKey e u \<and> v = Permissions ps \<and> (agrees e (absf (cl_store c)) u ps \<or> owed e (cl_duties c) u))"
    using fill_step [OF e fit', of cx u ps g t]
  proof
    assume "?c' = st_cache st"
    with ok(2) st show ?thesis by simp
  next
    assume "\<exists>tok. t = Some tok \<and> ?c' = cg_SetIfGeneration gens cx (cacheKey e u) (Permissions ps) tok (st_cache st)"
    then obtain tok where t: "t = Some tok"
      and c': "?c' = cg_SetIfGeneration gens cx (cacheKey e u) (Permissions ps) tok (cl_cache c)" using st by auto
    have "valid (cl_cache c) (cacheKey e u) tok \<longrightarrow> agrees e (absf (cl_store c)) u ps \<or> owed e (cl_duties c) u"
      using mine by (simp add: visitor_ok_def t)
    then show ?thesis
      unfolding c' using keeps_fit(7) [OF ok(2) generations] issued_mono(3) fill_valid [OF ok(2)]
        set_if_old [OF ok(2) generations, of cx "cacheKey e u" ps tok] by blast
  qed
  then show ?thesis
    using c set_update_subset_insert [of "cl_visitors c" i "Finished u ps"]
    by (fastforce simp: cluster_ok_def visitor_ok_def split: visitor.splits option.splits)
qed

lemma cluster_step_ok:
  assumes step: "cluster_step e present page c c'" and c: "cluster_ok e okay absf fit holds valid issued c"
    and e: "en_store e = ops" "en_cache e = Some cops"
  shows "cluster_ok e okay absf fit holds valid issued c'"
proof -
  note ok = cluster_okD [OF c]
  have same: "narrows e (cl_cache c) (cl_duties c) (cl_cache c) (cl_duties c)" using ok(2) by (auto simp: narrows_def)
  have plain: "c\<lparr>cl_visitors := vs\<rparr> = c\<lparr>cl_cache := cl_cache c, cl_visitors := vs\<rparr>" for vs by simp
  have duties: "cluster_ok e okay absf fit holds valid issued (c\<lparr>cl_cache := cache, cl_duties := ds\<rparr>)"
    if "narrows e (cl_cache c) (cl_duties c) cache ds" for cache ds
    using narrows_ok [OF c that, of "cl_visitors c"] by simp
  show ?thesis
    using step
  proof cases
    case (looks_up st cx u st' hit)
    then have "fit (st_cache st)" "st_cache st = cl_cache c" using ok(2) by (auto simp: shows_cluster_def)
    with lookup_step [OF e(2) _ looks_up(3), of "cl_duties c"]
    show ?thesis unfolding looks_up(1)
      by (intro visitor_moves(2) [OF c]) (auto simp: visitor_ok_def split: option.split)
  next
    case (takes_token i u st cx st' t)
    then have st: "fit (st_cache st)" "st_cache st = cl_cache c" using ok(2) by (auto simp: shows_cluster_def)
    note tok = token_step [OF e(2) st(1) takes_token(5)]
    show ?thesis unfolding takes_token(1)
      by (rule visitor_moves(1) [OF c]) (use tok st in \<open>auto simp: visitor_ok_def split: option.split\<close>)
  next
    case (reads i u t torn cx ps)
    have "agrees e (absf (cl_store c)) u ps" if "loadPermissions e cx u (cl_store c) = Inr ps"
      using loadPermissions_entitled [OF e(1) ok(1) that] by (simp add: agrees_def)
    with reads(4) ok(4) [OF reads(2)] reads(3)
    have "visitor_ok e valid issued (absf (cl_store c)) (cl_cache c) (cl_duties c) (Read u t ps)"
      by (auto simp: visitor_ok_def split: option.splits)
    then show ?thesis unfolding reads(1) plain by (rule visitor_moves(1) [OF c same])
  next
    case (gives_up i)
    show ?thesis unfolding gives_up(1) plain by (rule visitor_moves(1) [OF c same]) (simp add: visitor_ok_def)
  next
    case (fills i u t ps st cx g st')
    then show ?thesis using cluster_filled_ok [OF c e(2) fills(2,3)] by (auto simp: shows_cluster_def)
  next
    case (writes f iv s)
    then show ?thesis using write_ok [OF c e(1)] by blast
  next
    case (refused f iv s er)
    have "absf s = absf (cl_store c)" "okay s" using store_op_effect(1,2) [OF refused(2) e(1) ok(1)] refused(3) by simp_all
    with c show ?thesis unfolding refused(1) by (simp add: cluster_ok_def)
  next
    case (drops ds u ds' st cx st')
    then have "fit (st_cache st)" "st_cache st = cl_cache c" using ok(2) by (auto simp: shows_cluster_def)
    with drop_step [OF e(2) _ drops(2), of st cx] drops(4) show ?thesis unfolding drops(1) by (intro duties) simp
  next
    case (begins_flush ds ds')
    from duties [OF begin_step [OF ok(2) begins_flush(2)]] show ?thesis unfolding begins_flush(1) by simp
  next
    case (deletes ks)
    from duties [OF page_step [OF ok(2), of e "cl_duties c" ks]] show ?thesis unfolding deletes(1) .
  next
    case (ends_flush ds ds')
    from duties [of "cl_cache c" "ds @ ds'"] end_step [OF ok(2), of e ds ds'] ends_flush(2) show ?thesis
      unfolding ends_flush(1) by simp
  qed
qed

text \<open>What a lookup of any process returns, and its decision when nothing is owed to the user.\<close>

lemma cluster_lookup:
  assumes c: "cluster_ok e okay absf fit holds valid issued c" and e: "en_cache e = Some cops"
    and st: "shows_cluster st c" and run: "snd (cacheLookup e cx u st) = Some ps"
  shows "agrees e (absf (cl_store c)) u ps \<or> owed e (cl_duties c) u"
proof -
  have "fit (st_cache st)" "st_cache st = cl_cache c"
    using cluster_okD(2) [OF c] st by (auto simp: shows_cluster_def)
  with lookup_narrows(5) [OF e _ prod.collapse [symmetric], of st cx u ps] run cluster_okD(3) [OF c, of u ps]
  show ?thesis by simp
qed

lemma cluster_decision:
  assumes c: "cluster_ok e okay absf fit holds valid issued c" and e: "en_store e = ops" "en_cache e = Some cops"
    and st: "shows_cluster st c" and free: "\<not> owed e (cl_duties c) u"
    and live: "cx_Err cx = None" and fair: "fair_range cx" and up: "\<not> st_shutdown st" and quiet: "en_audit e = None"
  shows "snd (Enforce e cx u res act st) \<longleftrightarrow>
    decision e (absf (cl_store c)) u res act (cx_attrs cx) (may e (absf (cl_store c)) u res act)"
proof -
  have "okay (st_store st)" "fit (st_cache st)" "st_store st = cl_store c"
    using c st by (auto simp: cluster_ok_def shows_cluster_def)
  with lookup_decides [OF e, of st cx u res act] cluster_lookup [OF c e(2) st, of cx u] free live fair up quiet
  show ?thesis by auto
qed

end

end
