(* ===== verification/SharedRedis.thy ===== *)
theory SharedRedis
  imports SharedCache
begin

text \<open>
  Redis as a cache that processes share, and the properties of a deployment of many processes over one
  SQL database and one Redis.
\<close>

subsection \<open>Tokens of Redis\<close>

text \<open>
  Every command has a number, and a token is drawn for the command that stores it. Draws of
  \<^verbatim>\<open>rand.Text\<close>, at least 128 random bits each, are taken to differ.
\<close>

definition redis_issued :: "redis \<Rightarrow> string set" where
  "redis_issued rd = rd_text rd ` {..<rd_clock rd}"

definition redis_fit :: "redisLRU \<Rightarrow> redis \<Rightarrow> bool" where
  "redis_fit c rd \<longleftrightarrow> answers c rd \<and> inj (rd_text rd) \<and> (\<forall>k t. redis_valid c rd k t \<longrightarrow> t \<in> redis_issued rd)"

definition redis_present :: "redisLRU \<Rightarrow> redis \<Rightarrow> string fset" where
  "redis_present c rd =
     drop (length (rl_prefix c)) |`| ffilter (\<lambda>k. HasPrefix k (rl_prefix c)) (fmdom (rd_items rd))"

text \<open>One page of a flush, in the names of the cache.\<close>

definition redis_page :: "redisLRU \<Rightarrow> string list \<Rightarrow> redis \<Rightarrow> redis" where
  "redis_page c ks rd = fst (Del (map (redis_key c) ks) rd)"

definition redis_gens :: "redisLRU \<Rightarrow> redis generations" where
  "redis_gens c = \<lparr>cg_Generation = redis_Generation c, cg_SetIfGeneration = redis_SetIfGeneration c\<rparr>"

lemma present_iff: "k |\<in>| redis_present c rd \<longleftrightarrow> redis_key c k |\<in>| fmdom (rd_items rd)"
proof
  assume "k |\<in>| redis_present c rd"
  then obtain x where "x |\<in>| fmdom (rd_items rd)" "HasPrefix x (rl_prefix c)" "k = drop (length (rl_prefix c)) x"
    by (auto simp: redis_present_def)
  then show "redis_key c k |\<in>| fmdom (rd_items rd)"
    by (auto simp: redis_key_def HasPrefix_iff)
next
  assume "redis_key c k |\<in>| fmdom (rd_items rd)"
  then show "k |\<in>| redis_present c rd"
    unfolding redis_present_def
    by (intro fimage_eqI [of _ _ "redis_key c k"]) (auto simp: redis_key_def)
qed

subsection \<open>What a command leaves alone\<close>

lemma command_text [simp]: "rd_text (fst (command f rd)) = rd_text rd" "rd_clock (fst (command f rd)) = Suc (rd_clock rd)"
  by (simp_all add: command_def Let_def split: prod.splits answer.splits)

lemma issued_command [intro]: "redis_issued rd \<subseteq> redis_issued (fst (command f rd))"
  by (auto simp: redis_issued_def)

lemma issued_Get: "redis_issued rd \<subseteq> redis_issued (fst (redis_Get c cx k rd))"
  by (auto simp: redis_Get_def redis_issued_def split_beta split: sum.splits)

lemma text_Get [simp]: "rd_text (fst (redis_Get c cx k rd)) = rd_text rd"
  by (simp add: redis_Get_def split_beta split: sum.split)

lemma text_command: "command f rd = (rd', r) \<Longrightarrow> rd_text rd' = rd_text rd"
  using command_text(1) [of f rd] by simp

lemma text_Del: "Del keys rd = (rd', e) \<Longrightarrow> rd_text rd' = rd_text rd"
  by (auto simp: Del_def split_beta)

lemma fst_Del [simp]: "rd_text (fst (Del keys rd)) = rd_text rd"
  using text_Del [OF prod.collapse [symmetric]] by simp

lemma issued_Del: "redis_issued rd \<subseteq> redis_issued (fst (Del keys rd))"
  by (auto simp: Del_def split_beta redis_issued_def)

lemma text_del_each: "del_each keys rd = (rd', e) \<Longrightarrow> rd_text rd' = rd_text rd"
  by (induction keys arbitrary: rd) (auto dest: text_Del split: prod.splits option.splits)

lemma text_flushNode: "flushNode one pages rd = (rd', e) \<Longrightarrow> rd_text rd' = rd_text rd"
proof (induction pages arbitrary: rd)
  case (Cons page pages)
  obtain rd1 r where scan: "command (\<lambda>items. (items, Inr page)) rd = (rd1, r)" by force
  from Cons.prems text_command [OF scan] Cons.IH show ?case
    by (auto simp: scan dest: text_Del text_del_each split: sum.splits prod.splits option.splits if_splits)
qed simp

lemma text_flush [simp]: "rd_text (fst (redis_FlushContext c rd)) = rd_text rd"
proof -
  have "rd_text (fst (forEachMaster (\<lambda>n rd. flushNode True (pages n rd) rd) ns rd)) = rd_text rd" for pages ns rd
    by (induction ns arbitrary: rd) (simp_all add: split_beta text_flushNode [OF prod.collapse [symmetric]])
  then show ?thesis by (simp add: redis_FlushContext_def text_flushNode [OF prod.collapse [symmetric]])
qed

subsection \<open>Validity of tokens\<close>

lemma redis_fitD: "redis_fit c rd \<Longrightarrow> answers c rd" "redis_fit c rd \<Longrightarrow> inj (rd_text rd)"
  "redis_fit c rd \<Longrightarrow> redis_valid c rd k t \<Longrightarrow> t \<in> redis_issued rd"
  by (auto simp: redis_fit_def)

lemma redis_fitI:
  assumes "redis_fit c rd" and "answers c rd'" and "rd_text rd' = rd_text rd" and "redis_issued rd \<subseteq> redis_issued rd'"
    and "\<And>k t. redis_valid c rd' k t \<Longrightarrow> redis_valid c rd k t \<or> t \<in> redis_issued rd'"
  shows "redis_fit c rd'"
  using assms unfolding redis_fit_def by (metis subsetD)

lemma fresh_token: "redis_fit c rd \<Longrightarrow> rd_text rd (rd_clock rd) \<notin> redis_issued rd"
  by (auto simp: redis_issued_def dest!: redis_fitD(2) dest: injD)

lemma now_issued: "rd_text rd (rd_clock rd) \<in> redis_issued (fst (command f rd))"
  by (auto simp: redis_issued_def)

lemma valid_same_items: "rd_items rd' = rd_items rd \<Longrightarrow> redis_valid c rd' k t \<longleftrightarrow> redis_valid c rd k t"
  by (simp add: redis_valid_def)

lemma valid_generation:
  assumes "answers c rd" and "redis_valid c (fst (redis_Generation c cx k rd)) k' t"
  shows "redis_valid c rd k' t \<or> t = rd_text rd (rd_clock rd)"
  using assms(2) by (auto simp: redis_valid_def redis_Generation_def split_beta command_answered [OF assms(1)]
      generation_script split: option.splits redis_data.splits if_splits)

lemma valid_fill:
  assumes "answers c rd" and "redis_valid c (redis_SetIfGeneration c cx k v t rd) k' t'"
  shows "redis_valid c rd k' t'"
  using assms(2) by (auto simp: redis_valid_def redis_SetIfGeneration_def command_answered [OF assms(1)]
      conditional_script dest!: live_Some split: option.splits redis_data.splits if_splits)

lemma valid_set:
  assumes "answers c rd" and "redis_valid c (redis_Set c cx k v rd) k' t"
  shows "redis_valid c rd k' t \<or> t = rd_text rd (rd_clock rd)"
  using assms(2) by (auto simp: redis_valid_def redis_Set_def command_answered [OF assms(1)] set_script split: if_splits)

lemma valid_Del:
  assumes "answers c rd" and "redis_valid c (fst (Del (map (redis_key c) ks) rd)) k t"
  shows "k \<notin> set ks \<and> redis_valid c rd k t"
  using assms(2) Del_answered [OF assms(1) prod.collapse [symmetric], of "map (redis_key c) ks"]
  by (auto simp: redis_valid_def DEL_def split: if_splits)

lemma holds_Del:
  assumes "answers c rd" and "redis_holds c (fst (Del (map (redis_key c) ks) rd)) k v"
  shows "k \<notin> set ks \<and> redis_holds c rd k v"
  using assms(2) Del_answered [OF assms(1) prod.collapse [symmetric], of "map (redis_key c) ks"]
  by (auto simp: redis_holds_def cached_DEL)

lemma redis_Delete_page: "redis_Delete c k rd = redis_page c [k] rd"
  by (simp add: redis_Delete_def redis_page_def)

lemma issued_ops:
  "redis_issued rd \<subseteq> redis_issued (redis_Set c cx k v rd)"
  "redis_issued rd \<subseteq> redis_issued (fst (redis_Generation c cx k rd))"
  "redis_issued rd \<subseteq> redis_issued (redis_SetIfGeneration c cx k v t rd)"
  "redis_issued rd \<subseteq> redis_issued (redis_page c ks rd)"
  "redis_issued rd \<subseteq> redis_issued (redis_Delete c k rd)"
  by (simp_all add: redis_Set_def redis_Generation_def redis_SetIfGeneration_def redis_page_def redis_Delete_def
      split_beta issued_command issued_Del)

lemma text_ops [simp]:
  "rd_text (redis_Set c cx k v rd) = rd_text rd" "rd_text (fst (redis_Generation c cx k rd)) = rd_text rd"
  "rd_text (redis_SetIfGeneration c cx k v t rd) = rd_text rd" "rd_text (redis_page c ks rd) = rd_text rd"
  by (simp_all add: redis_Set_def redis_Generation_def redis_SetIfGeneration_def redis_page_def split_beta)

lemma answers_ops [simp]:
  "answers c (redis_Set c' cx k v rd) \<longleftrightarrow> answers c rd" "answers c (fst (redis_Generation c' cx k rd)) \<longleftrightarrow> answers c rd"
  "answers c (redis_SetIfGeneration c' cx k v t rd) \<longleftrightarrow> answers c rd" "answers c (redis_page c' ks rd) \<longleftrightarrow> answers c rd"
  by (simp_all add: redis_Set_def redis_Generation_def redis_SetIfGeneration_def redis_page_def split_beta)

lemma now_issued_ops:
  "rd_text rd (rd_clock rd) \<in> redis_issued (redis_Set c cx k v rd)"
  "rd_text rd (rd_clock rd) \<in> redis_issued (fst (redis_Generation c cx k rd))"
  by (simp_all add: redis_Set_def redis_Generation_def split_beta now_issued)

lemma redis_keeps_fit:
  assumes fit: "redis_fit c rd"
  shows "redis_fit c (fst (redis_Get c cx k rd))" "redis_fit c (redis_Set c cx k v rd)" "redis_fit c (redis_page c ks rd)"
    "redis_fit c (fst (redis_FlushContext c rd))" "redis_fit c (fst (redis_Generation c cx k rd))"
    "redis_fit c (redis_SetIfGeneration c cx k v t rd)"
proof -
  note rd = redis_fitD(1) [OF fit]
  show "redis_fit c (fst (redis_Get c cx k rd))"
    by (rule redis_fitI [OF fit]) (simp_all add: rd issued_Get valid_same_items [OF redis_Get_items])
  show "redis_fit c (redis_Set c cx k v rd)"
  proof (rule redis_fitI [OF fit])
    show "redis_valid c (redis_Set c cx k v rd) k' t' \<Longrightarrow> redis_valid c rd k' t' \<or> t' \<in> redis_issued (redis_Set c cx k v rd)" for k' t'
      using valid_set [OF rd, of cx k v k' t'] now_issued_ops(1) [of rd c cx k v] by metis
  qed (simp_all add: rd issued_ops(1))
  show "redis_fit c (redis_page c ks rd)"
  proof (rule redis_fitI [OF fit])
    show "redis_valid c (redis_page c ks rd) k' t' \<Longrightarrow> redis_valid c rd k' t' \<or> t' \<in> redis_issued (redis_page c ks rd)" for k' t'
      using valid_Del [OF rd, of ks k' t'] by (simp add: redis_page_def)
  qed (simp_all add: rd issued_ops(4))
  show "redis_fit c (fst (redis_FlushContext c rd))"
    using flush_not_cached [OF rd] redis_fitD(2) [OF fit] by (simp add: redis_fit_def)
  show "redis_fit c (fst (redis_Generation c cx k rd))"
  proof (rule redis_fitI [OF fit])
    show "redis_valid c (fst (redis_Generation c cx k rd)) k' t' \<Longrightarrow> redis_valid c rd k' t' \<or> t' \<in> redis_issued (fst (redis_Generation c cx k rd))" for k' t'
      using valid_generation [OF rd, of cx k k' t'] now_issued_ops(2) [of rd c cx k] by metis
  qed (simp_all add: rd issued_ops(2))
  show "redis_fit c (redis_SetIfGeneration c cx k v t rd)"
  proof (rule redis_fitI [OF fit])
    show "redis_valid c (redis_SetIfGeneration c cx k v t rd) k' t' \<Longrightarrow> redis_valid c rd k' t' \<or> t' \<in> redis_issued (redis_SetIfGeneration c cx k v t rd)" for k' t'
      using valid_fill [OF rd, of cx k v t k' t'] by simp
  qed (simp_all add: rd issued_ops(3))
qed

subsection \<open>The interpretation\<close>

interpretation tokens: shared_cache "redis_ops c" "redis_fit c" "redis_holds c" "redis_valid c"
  "redis_gens c" redis_issued "redis_present c" "redis_page c" for c
proof unfold_locales
  fix rd cx k k' v v' t t' ps g f rd' ks
  show "redis_issued rd \<subseteq> redis_issued (fst (ca_Get (redis_ops c) cx k rd))"
    by (simp add: redis_ops_def issued_Get)
  show "redis_issued rd \<subseteq> redis_issued (fst (cg_Generation (redis_gens c) cx k rd))"
    by (simp add: redis_gens_def issued_ops)
  show "redis_issued rd \<subseteq> redis_issued (cg_SetIfGeneration (redis_gens c) cx k v t rd)"
    by (simp add: redis_gens_def issued_ops)
  show "redis_issued rd \<subseteq> redis_issued (ca_Delete (redis_ops c) cx k rd)"
    by (simp add: redis_ops_def issued_ops)
  show "redis_issued rd \<subseteq> redis_issued (redis_page c ks rd)" by (rule issued_ops)
  show "ca_Generations (redis_ops c) = Some (redis_gens c)" by (simp add: redis_ops_def redis_gens_def)
  assume fit: "redis_fit c rd"
  note rd = redis_fitD(1) [OF fit] and keep = redis_keeps_fit [OF fit]
  show "redis_valid c rd k t \<Longrightarrow> t \<in> redis_issued rd" by (rule redis_fitD(3) [OF fit])
  show "redis_holds c rd k v \<Longrightarrow> k |\<in>| redis_present c rd"
    by (auto simp: redis_holds_def cached_def present_iff fmlookup_dom_iff)
  show "redis_valid c rd k t \<Longrightarrow> k |\<in>| redis_present c rd" by (auto simp: redis_valid_def present_iff fmlookup_dom_iff)
  show "redis_valid c (fst (ca_Get (redis_ops c) cx k rd)) k' t \<Longrightarrow> redis_valid c rd k' t"
    by (simp add: redis_ops_def valid_same_items [OF redis_Get_items])
  show "redis_valid c (fst (cg_Generation (redis_gens c) cx k rd)) k' t \<Longrightarrow> redis_valid c rd k' t \<or> t \<notin> redis_issued rd"
    using valid_generation [OF rd, of cx k k' t] fresh_token [OF fit] by (auto simp: redis_gens_def)
  show "redis_valid c (cg_SetIfGeneration (redis_gens c) cx k v t rd) k' t' \<Longrightarrow> redis_valid c rd k' t'"
    using valid_fill [OF rd] by (simp add: redis_gens_def)
  show "redis_valid c (ca_Delete (redis_ops c) cx k rd) k' t \<Longrightarrow> k' \<noteq> k \<and> redis_valid c rd k' t"
    using valid_Del [OF rd, of "[k]"] by (simp add: redis_ops_def redis_Delete_def)
  show "redis_holds c (redis_page c ks rd) k v \<Longrightarrow> k \<notin> set ks \<and> redis_holds c rd k v"
    using holds_Del [OF rd] by (simp add: redis_page_def)
  show "redis_valid c (redis_page c ks rd) k t \<Longrightarrow> k \<notin> set ks \<and> redis_valid c rd k t"
    using valid_Del [OF rd] by (simp add: redis_page_def)
  show "redis_fit c (redis_page c ks rd)" by (rule keep(3))
  show "ca_Get (redis_ops c) cx k rd = (rd', Some v) \<Longrightarrow> redis_holds c rd k v" by (rule redis.get_held [OF rd])
  show "redis_holds c (fst (ca_Get (redis_ops c) cx k rd)) k' v \<Longrightarrow> redis_holds c rd k' v" by (rule redis.get_old [OF rd])
  show "redis_holds c (ca_Set (redis_ops c) cx k (Permissions ps) rd) k' v' \<Longrightarrow>
      if k' = k then v' = Permissions ps else redis_holds c rd k' v'" by (rule redis.set_old [OF rd])
  show "redis_holds c (ca_Delete (redis_ops c) cx k rd) k' v \<Longrightarrow> k' \<noteq> k \<and> redis_holds c rd k' v"
    by (rule redis.delete_old [OF rd])
  show "\<not> redis_holds c (ca_Flush (redis_ops c) cx rd) k v" by (rule redis.flush_all [OF rd])
  show "ca_FlushContext (redis_ops c) = Some f \<Longrightarrow> \<not> redis_holds c (fst (f rd)) k v" by (rule redis.flush_context [OF rd])
  show "ca_Generations (redis_ops c) = Some g \<Longrightarrow> redis_holds c (fst (cg_Generation g cx k rd)) k' v \<Longrightarrow> redis_holds c rd k' v"
    by (rule redis.token_old [OF rd])
  show "ca_Generations (redis_ops c) = Some g \<Longrightarrow> cg_Generation g cx k rd = (rd', Some t) \<Longrightarrow> redis_valid c rd' k t"
    by (rule redis.token_valid [OF rd])
  show "ca_Generations (redis_ops c) = Some g \<Longrightarrow> redis_holds c (cg_SetIfGeneration g cx k (Permissions ps) t rd) k' v' \<Longrightarrow>
      redis_holds c rd k' v' \<or> k' = k \<and> v' = Permissions ps \<and> redis_valid c rd k t" by (rule redis.set_if_old [OF rd])
  show "redis_valid c rd k t \<Longrightarrow> \<not> redis_valid c (ca_Delete (redis_ops c) cx k rd) k t" by (rule redis.delete_token [OF rd])
  show "redis_valid c rd k t \<Longrightarrow> \<not> redis_valid c (ca_Flush (redis_ops c) cx rd) k t" by (rule redis.flush_token [OF rd])
  show "redis_fit c (fst (ca_Get (redis_ops c) cx k rd))" "redis_fit c (ca_Set (redis_ops c) cx k v rd)"
    "redis_fit c (ca_Delete (redis_ops c) cx k rd)" "redis_fit c (ca_Flush (redis_ops c) cx rd)"
    using keep by (simp_all add: redis_ops_def redis_Delete_page redis_Flush_def)
  show "ca_FlushContext (redis_ops c) = Some f \<Longrightarrow> redis_fit c (fst (f rd))" using keep(4) by (auto simp: redis_ops_def)
  show "ca_Generations (redis_ops c) = Some g \<Longrightarrow> redis_fit c (fst (cg_Generation g cx k rd))"
    "ca_Generations (redis_ops c) = Some g \<Longrightarrow> redis_fit c (cg_SetIfGeneration g cx k v t rd)"
    using keep(5,6) by (auto simp: redis_ops_def)
qed

interpretation fleet: shared_engine "sql_ops d" sql_traits sql_ok sql_abs
  "\<lambda>cx role. mutation (sql_UpdateRole d False cx role)" "\<lambda>cx r. mutation (sql_DeleteRole d False cx r)"
  "\<lambda>cx u r. mutation (sql_UnassignRole d False cx u r)" "\<lambda>cx p. answer (sql_ListRolesByPrefix d cx p)"
  "sql_rules_ops d False" "sql_metadata_ops d False" "\<lambda>cx batch. mutation (sql_ApplyPolicyBatch d False cx batch)"
  "redis_ops c" "redis_fit c" "redis_holds c" "redis_valid c" "redis_gens c" redis_issued "redis_present c" "redis_page c" for d c
  by unfold_locales

subsection \<open>Many processes over one database and one Redis\<close>

type_synonym fleet = "(sqldb, redis) cluster"

inductive fleet_run :: "redisLRU \<Rightarrow> (sqldb, redis, 'x) enforcer \<Rightarrow> fleet \<Rightarrow> bool" for c e where
  begun: "sql_ok (cl_store s) \<Longrightarrow> answers c (cl_cache s) \<Longrightarrow> inj (rd_text (cl_cache s)) \<Longrightarrow>
    (\<And>k. redis_key c k |\<notin>| fmdom (rd_items (cl_cache s))) \<Longrightarrow> cl_visitors s = [] \<Longrightarrow> cl_duties s = [] \<Longrightarrow> fleet_run c e s"
| moved: "fleet_run c e s \<Longrightarrow> cluster_step e (redis_present c) (redis_page c) s s' \<Longrightarrow> fleet_run c e s'"

abbreviation fleet_ok :: "redisLRU \<Rightarrow> (sqldb, redis, 'x) enforcer \<Rightarrow> fleet \<Rightarrow> bool" where
  "fleet_ok c e \<equiv> cluster_ok e sql_ok sql_abs (redis_fit c) (redis_holds c) (redis_valid c) redis_issued"

lemma fleet_run_ok:
  assumes "fleet_run c e s" and e: "en_store e = sql_ops d" "en_cache e = Some (redis_ops c)"
  shows "fleet_ok c e s"
  using assms(1)
proof induction
  case (begun s)
  then show ?case
    by (auto simp: cluster_ok_def redis_fit_def redis_holds_def redis_valid_def cached_def fmlookup_dom_iff)
next
  case (moved s s')
  from fleet.cluster_step_ok [OF moved(2,3) e] show ?case .
qed

text \<open>
  C16. However many processes with the same configuration share one SQL database and one Redis that
  answers, and however their lookups, fills, writes, invalidations and the pages of their flushes
  interleave with each other and with expiry and eviction, a decision is exactly as specified for the current policy unless some process still owes the
  user an invalidation: tokens keep every late fill out, so a stale set never outlives the invalidation.
\<close>

theorem fleet_decides:
  assumes "fleet_run c e s" and "en_store e = sql_ops d" and "en_cache e = Some (redis_ops c)" and "en_audit e = None"
    and "shows_cluster st s" and "\<not> st_shutdown st" and "cx_Err cx = None" and "fair_range cx"
    and "\<And>duty. duty \<in> set (cl_duties s) \<Longrightarrow> \<not> obliges e u duty"
  shows "snd (Enforce e cx u res act st) \<longleftrightarrow>
    decision e (sql_abs (cl_store s)) u res act (cx_attrs cx) (may e (sql_abs (cl_store s)) u res act)"
proof -
  have "\<not> owed e (cl_duties s) u" using assms(9) by (auto simp: owed_def)
  from fleet.cluster_decision [OF fleet_run_ok [OF assms(1-3)] assms(2,3,5) this assms(7,8,6,4)]
  show ?thesis .
qed

text \<open>
  A fill that comes late: one process has read that bob holds no role, another assigns him one and drops
  his cached set, and only then the first one fills the cache.
\<close>

definition one_process :: "fleet \<Rightarrow> (sqldb, redis, unit) state" where
  "one_process s = shared_start\<lparr>st_store := cl_store s, st_cache := cl_cache s\<rparr>"

definition viewer_stored :: fleet where
  "viewer_stored = \<lparr>cl_store = fst (so_AddRole (en_store shared_acme) background
     (viewer\<lparr>role_Name := roleKey shared_acme ''viewer''\<rparr>) fresh_db), cl_cache = fresh_redis (\<lambda>_. Answered),
     cl_visitors = [], cl_duties = []\<rparr>"

definition bob_asked :: fleet where
  "bob_asked = viewer_stored\<lparr>cl_cache := st_cache (fst (cacheLookup shared_acme background ''bob'' (one_process viewer_stored))),
     cl_visitors := [Asked ''bob'']\<rparr>"

definition bob_token :: "string option" where
  "bob_token = snd (cacheToken shared_acme background ''bob'' (one_process bob_asked))"

definition bob_read :: fleet where
  "bob_read = bob_asked\<lparr>cl_cache := st_cache (fst (cacheToken shared_acme background ''bob'' (one_process bob_asked))),
     cl_visitors := [Read ''bob'' bob_token fmempty]\<rparr>"

definition bob_assigned :: fleet where
  "bob_assigned = bob_read\<lparr>cl_store := fst (so_AssignRole (en_store shared_acme) background (userKey shared_acme ''bob'')
     (roleKey shared_acme ''viewer'') (cl_store bob_read)), cl_duties := [ToDrop ''bob'']\<rparr>"

definition bob_dropped :: fleet where
  "bob_dropped = bob_assigned\<lparr>cl_cache := st_cache (dropCache shared_acme background ''bob'' (one_process bob_assigned)), cl_duties := []\<rparr>"

definition bob_filled :: fleet where
  "bob_filled = bob_dropped\<lparr>cl_cache := st_cache (cacheFill shared_acme background ''bob'' fmempty 0 bob_token (one_process bob_dropped)),
     cl_visitors := [Finished ''bob'' fmempty]\<rparr>"

lemma shows_one_process: "shows_cluster (one_process s) s"
  by (simp add: shows_cluster_def one_process_def)

lemma bob_filled_run: "fleet_run five_minute_cache shared_acme bob_filled"
proof -
  let ?step = "cluster_step shared_acme (redis_present five_minute_cache) (redis_page five_minute_cache)"
  let ?run = "fleet_run five_minute_cache shared_acme"
  define start :: fleet where
    "start = \<lparr>cl_store = fresh_db, cl_cache = fresh_redis (\<lambda>_. Answered), cl_visitors = [], cl_duties = []\<rparr>"
  have inj: "inj (\<lambda>n. replicate n CHR ''A'')" by (rule injI) simp
  have "?run start"
    by (rule fleet_run.begun)
      (simp_all add: start_def fresh_db_ok answers_def fresh_redis_def sorted_list_of_fset.rep_eq inj)
  moreover have "?step start (viewer_stored\<lparr>cl_duties := [ToFlush]\<rparr>)"
  proof -
    let ?f = "so_AddRole (en_store shared_acme) background (viewer\<lparr>role_Name := roleKey shared_acme ''viewer''\<rparr>)"
    have "snd (?f fresh_db) = None" by code_simp
    then have "?f (cl_store start) = (fst (?f fresh_db), None)" by (simp add: start_def prod_eq_iff)
    from writes [OF store_op.intros(1) this] show ?thesis by (simp add: start_def viewer_stored_def duty_of_def)
  qed
  moreover have "?step (viewer_stored\<lparr>cl_duties := [ToFlush]\<rparr>) (viewer_stored\<lparr>cl_duties := [Flushing {||}]\<rparr>)"
  proof -
    have "redis_present five_minute_cache (cl_cache viewer_stored) = {||}"
      by (rule fset_eqI) (simp add: present_iff viewer_stored_def fresh_redis_def)
    then show ?thesis
      using begins_flush [of "viewer_stored\<lparr>cl_duties := [ToFlush]\<rparr>" "[]" "[]" shared_acme "redis_present five_minute_cache"]
      by simp
  qed
  moreover have "?step (viewer_stored\<lparr>cl_duties := [Flushing {||}]\<rparr>) viewer_stored"
    using ends_flush [of "viewer_stored\<lparr>cl_duties := [Flushing {||}]\<rparr>" "[]" "[]"] by (simp add: viewer_stored_def)
  moreover have "?step viewer_stored bob_asked"
  proof -
    have "snd (cacheLookup shared_acme background ''bob'' (one_process viewer_stored)) = None" by code_simp
    then show ?thesis using looks_up [where c = viewer_stored and e = shared_acme and cx = background and u = "''bob''",
        OF shows_one_process prod.collapse [symmetric]]
      by (simp add: bob_asked_def viewer_stored_def)
  qed
  moreover have "?step bob_asked (bob_read\<lparr>cl_visitors := [Reading ''bob'' bob_token False]\<rparr>)"
    using takes_token [where c = bob_asked and i = 0 and e = shared_acme and cx = background and u = "''bob''",
        OF _ _ shows_one_process prod.collapse [symmetric]]
    by (simp add: bob_asked_def bob_read_def bob_token_def)
  moreover have "?step (bob_read\<lparr>cl_visitors := [Reading ''bob'' bob_token False]\<rparr>) bob_read"
  proof -
    have "loadPermissions shared_acme background ''bob'' (cl_store bob_read) = Inr fmempty" by code_simp
    then show ?thesis
      using reads [of 0 "bob_read\<lparr>cl_visitors := [Reading ''bob'' bob_token False]\<rparr>" "''bob''" bob_token False]
      by (simp add: bob_read_def)
  qed
  moreover have "?step bob_read bob_assigned"
  proof -
    let ?f = "so_AssignRole (en_store shared_acme) background (userKey shared_acme ''bob'') (roleKey shared_acme ''viewer'')"
    have "snd (?f (cl_store bob_read)) = None" by code_simp
    then have "?f (cl_store bob_read) = (fst (?f (cl_store bob_read)), None)" by (simp add: prod_eq_iff)
    from writes [OF store_op.intros(6) this] show ?thesis
      by (simp add: bob_assigned_def duty_of_def bob_read_def bob_asked_def viewer_stored_def)
  qed
  moreover have "?step bob_assigned bob_dropped"
    using drops [where c = bob_assigned and ds = "[]" and ds' = "[]" and u = "''bob''" and e = shared_acme and cx = background,
        OF _ shows_one_process refl]
    by (simp add: bob_dropped_def bob_assigned_def)
  moreover have "?step bob_dropped bob_filled"
    using fills [where c = bob_dropped and i = 0 and u = "''bob''" and t = bob_token and ps = fmempty and e = shared_acme and
        cx = background and g = 0, OF _ _ shows_one_process refl]
    by (simp add: bob_filled_def bob_dropped_def bob_assigned_def bob_read_def)
  ultimately show ?thesis using fleet_run.moved by metis
qed

theorem fleet_decides_witness:
  "decision shared_acme (sql_abs (cl_store bob_filled)) ''bob'' ''doc'' ''read'' (cx_attrs background)
     (may shared_acme (sql_abs (cl_store bob_filled)) ''bob'' ''doc'' ''read'')"
proof -
  have e: "en_store shared_acme = sql_ops Postgres" "en_cache shared_acme = Some (redis_ops five_minute_cache)"
    "en_audit shared_acme = None" by (simp_all add: shared_acme_def)
  have up: "\<not> st_shutdown (one_process bob_filled)" by (simp add: one_process_def shared_start_def)
  have none: "duty \<in> set (cl_duties bob_filled) \<Longrightarrow> \<not> obliges shared_acme ''bob'' duty" for duty
    by (simp add: bob_filled_def bob_dropped_def)
  have "snd (Enforce shared_acme background ''bob'' ''doc'' ''read'' (one_process bob_filled)) = True" by code_simp
  then show ?thesis
    using fleet_decides [OF bob_filled_run e shows_one_process up background_Err fair_background none] by simp
qed

end
