(* ===== verification/Counters.thy ===== *)
theory Counters
  imports Scenario
begin

text \<open>
  The counters of \<^verbatim>\<open>observability.go\<close>: what a snapshot reads, and that the decision counters tell exactly
  which decisions were made.
\<close>

subsection \<open>Snapshots\<close>

text \<open>
  Each counter is loaded atomically, one after the other: \<open>ms i\<close> are the counters at the moment of load
  \<open>i\<close>. Without concurrent calls they are all the same.
\<close>

definition Snapshot :: "(nat \<Rightarrow> metrics) \<Rightarrow> metrics" where
  "Snapshot ms = \<lparr>mt_decisions = mt_decisions (ms 0), mt_allowed = mt_allowed (ms 1), mt_denied = mt_denied (ms 2),
     mt_errors = mt_errors (ms 3), mt_cacheHits = mt_cacheHits (ms 4), mt_cacheMisses = mt_cacheMisses (ms 5),
     mt_mutations = mt_mutations (ms 6), mt_auditErrors = mt_auditErrors (ms 7),
     mt_invalidationErrors = mt_invalidationErrors (ms 8), mt_policyVersionErrors = mt_policyVersionErrors (ms 9),
     mt_decisionNanoseconds = mt_decisionNanoseconds (ms 10)\<rparr>"

subsection \<open>Which calls count decisions\<close>

definition tally :: "('s, 'c, 'x) state \<Rightarrow> 64 word \<times> 64 word \<times> 64 word \<times> 64 word" where
  "tally st = (mt_decisions (st_metrics st), mt_allowed (st_metrics st), mt_denied (st_metrics st), mt_errors (st_metrics st))"

definition tick :: "bool \<Rightarrow> 64 word" where "tick b = (if b then 1 else 0)"

text \<open>The four counters after a decision with this answer.\<close>

definition counted :: "64 word \<times> 64 word \<times> 64 word \<times> 64 word \<Rightarrow> bool \<Rightarrow> bool \<Rightarrow> 64 word \<times> 64 word \<times> 64 word \<times> 64 word" where
  "counted n granted failed = (case n of (d, a, n, er) \<Rightarrow> (d + 1, a + tick granted, n + tick (\<not> granted), er + tick failed))"

lemma tally_logError [simp]: "tally (logError e msg er st) = tally st"
  by (simp add: tally_def logError_def)

lemma tally_emitAudit: "emitAudit e cx ev st = (st', er) \<Longrightarrow> tally st' = tally st"
  by (auto simp: emitAudit_def Let_def tally_def logError_def metric_def split: option.splits prod.splits if_splits)

lemma tally_permissionsFor: "permissionsFor e cx u st = (st', r) \<Longrightarrow> tally st' = tally st"
  by (auto simp: permissionsFor_def cacheLookup_def cacheToken_def cacheFill_def tally_def metric_def Let_def
      split: option.splits prod.splits if_splits sum.splits cache_value.splits)

lemma recordDecision_counts:
  assumes "en_metrics e" and "recordDecision e cx op u res act (st, allowed, err) = (st', allowed', err')"
  shows "tally st' = counted (tally st) (err' = None \<and> allowed') (err' \<noteq> None)"
proof -
  obtain st1 er where emit: "emitAudit e cx (blank_event\<lparr>ae_Operation := op, ae_ActorID := u, ae_Resource := res,
      ae_Action := act, ae_Allowed := (allowed \<and> err = None), ae_Error := err\<rparr>) st = (st1, er)" by force
  from tally_emitAudit [OF emit] have "tally st = tally st1" ..
  with assms emit show ?thesis
    by (cases er) (auto simp: recordDecision_def Let_def metric_def tally_def counted_def tick_def)
qed

lemma EnforceCtx_counts:
  assumes e: "en_metrics e" and run: "EnforceCtx e cx u res act st = (st', ok, err)"
  shows "tally st' = counted (tally st) (err = None \<and> ok) (err \<noteq> None)"
proof -
  obtain st1 r where look: "permissionsFor e cx u st = (st1, r)" by force
  show ?thesis
  proof (cases r)
    case (Inl er)
    with run look have "recordDecision e cx ''enforce'' u res act
        (logError e ''permission lookup failed'' er st1, False, Some er) = (st', ok, err)" by (simp add: EnforceCtx_def)
    from recordDecision_counts [OF e this] tally_permissionsFor [OF look] show ?thesis by simp
  next
    case (Inr ps)
    obtain allowed er where d: "decided st1 (evaluateRules e cx u res act (matchPermission e ps res act) (cx_attrs cx) (st_store st1)) =
        (st1, allowed, er)" using decided_state [of st1] by metis
    with run look Inr have "recordDecision e cx ''enforce'' u res act (st1, allowed, er) = (st', ok, err)"
      by (simp add: EnforceCtx_def)
    from recordDecision_counts [OF e this] tally_permissionsFor [OF look] show ?thesis by simp
  qed
qed

lemma EnforceOwnedCtx_counts:
  assumes e: "en_metrics e" and run: "EnforceOwnedCtx e cx u owner grp res act st = (st', ok, err)"
  shows "tally st' = counted (tally st) (err = None \<and> ok) (err \<noteq> None)"
proof -
  obtain st1 r where look: "permissionsFor e cx u st = (st1, r)" by force
  have "\<exists>st2 allowed er. tally st2 = tally st1 \<and>
      recordDecision e cx ''enforce_owned'' u res act (st2, allowed, er) = (st', ok, err)"
  proof (cases r)
    case (Inl er)
    with run look show ?thesis
      by (intro exI [of _ "logError e ''permission lookup failed'' er st1"] exI [of _ False] exI [of _ "Some er"])
        (simp add: EnforceOwnedCtx_def)
  next
    case (Inr ps)
    let ?m = "ownedMatch e ps u owner grp res act"
    obtain allowed er where "(if \<not> en_rulesEnabled e then (st1, ?m, None) else decided st1 (evaluateRules e cx u res act ?m
        (fmupd ''resource.group'' (GVal (JStr grp)) (fmupd ''resource.owner'' (GVal (JStr owner)) (cx_attrs cx))) (st_store st1))) =
        (st1, allowed, er)" using decided_state [of st1] by (cases "en_rulesEnabled e") (simp, metis, simp)
    with run look Inr show ?thesis
      by (intro exI [of _ st1] exI [of _ allowed] exI [of _ er]) (simp add: EnforceOwnedCtx_def Let_def)
  qed
  with recordDecision_counts [OF e] tally_permissionsFor [OF look] show ?thesis by metis
qed

subsection \<open>A sequence of decisions\<close>

datatype question =
    Plain ctx string string string
  | Owned ctx string string string string string
  | Attributed ctx string string string attributes

fun decide :: "('s, 'c, 'x) enforcer \<Rightarrow> question \<Rightarrow> ('s, 'c, 'x) state \<Rightarrow> ('s, 'c, 'x) state \<times> bool" where
  "decide e (Plain cx u res act) st = Enforce e cx u res act st"
| "decide e (Owned cx u owner grp res act) st = EnforceOwned e cx u owner grp res act st"
| "decide e (Attributed cx u res act attrs) st = EnforceAttributes e cx u res act attrs st"

fun decide_all :: "('s, 'c, 'x) enforcer \<Rightarrow> question list \<Rightarrow> ('s, 'c, 'x) state \<Rightarrow> ('s, 'c, 'x) state \<times> bool list" where
  "decide_all e [] st = (st, [])"
| "decide_all e (q # qs) st = (let (st, ok) = decide e q st; (st, oks) = decide_all e qs st in (st, ok # oks))"

text \<open>Without policy rules \<^verbatim>\<open>EnforceAttributes\<close> denies before it counts anything.\<close>

fun counts :: "('s, 'c, 'x) enforcer \<Rightarrow> question \<Rightarrow> bool" where
  "counts e (Attributed _ _ _ _ _) \<longleftrightarrow> en_rulesEnabled e"
| "counts e _ \<longleftrightarrow> True"

lemma decide_counts:
  assumes e: "en_metrics e" and run: "decide e q st = (st', ok)"
  shows "if counts e q then \<exists>failed. tally st' = counted (tally st) ok failed else st' = st \<and> \<not> ok"
proof -
  have plain: "\<exists>failed. tally st' = counted (tally st) ok failed" if "Enforce e cx u res act st = (st', ok)" for cx u res act
    using that EnforceCtx_counts [OF e] by (auto simp: Enforce_def split: prod.splits)
  show ?thesis
  proof (cases q)
    case (Plain cx u res act)
    with run plain show ?thesis by simp
  next
    case (Owned cx u owner grp res act)
    with run EnforceOwnedCtx_counts [OF e] show ?thesis by (auto simp: EnforceOwned_def split: prod.splits)
  next
    case (Attributed cx u res act attrs)
    then have "en_rulesEnabled e \<Longrightarrow> Enforce e (WithAttributes cx attrs) u res act st = (st', ok)"
      using run by (simp add: EnforceAttributes_def EnforceAttributesCtx_def Enforce_def)
    with Attributed run plain show ?thesis by (auto simp: EnforceAttributes_def EnforceAttributesCtx_def)
  qed
qed

text \<open>
  C31. The decision counters are exact modulo their 64 bits: from any state, with any store, cache and audit
  sink, failing ones included, any sequence of decisions adds to \<^verbatim>\<open>Decisions\<close> the number of decisions, to
  \<^verbatim>\<open>Allowed\<close> the number of those that were answered with a grant, and to \<^verbatim>\<open>Denied\<close> the number of the others;
  only \<^verbatim>\<open>EnforceAttributes\<close> without policy rules denies uncounted.
\<close>

theorem counters_exact:
  assumes "en_metrics e" and "decide_all e qs st = (st', oks)"
  shows "let s = Snapshot (\<lambda>_. st_metrics st'); m = st_metrics st; told = filter (\<lambda>(q, ok). counts e q) (zip qs oks) in
    mt_decisions s = mt_decisions m + of_nat (length (filter (counts e) qs)) \<and>
    mt_allowed s = mt_allowed m + of_nat (count_list oks True) \<and>
    mt_denied s = mt_denied m + of_nat (count_list (map snd told) False)"
proof -
  have "mt_decisions (st_metrics st') = mt_decisions (st_metrics st) + of_nat (length (filter (counts e) qs)) \<and>
      mt_allowed (st_metrics st') = mt_allowed (st_metrics st) + of_nat (count_list oks True) \<and>
      mt_denied (st_metrics st') = mt_denied (st_metrics st) +
        of_nat (count_list (map snd (filter (\<lambda>(q, ok). counts e q) (zip qs oks))) False)"
    using assms(2)
  proof (induction qs arbitrary: st oks)
    case (Cons q qs)
    obtain st1 ok where one: "decide e q st = (st1, ok)" by force
    then obtain oks' where rest: "decide_all e qs st1 = (st', oks')" "oks = ok # oks'"
      using Cons.prems by (auto split: prod.splits)
    from decide_counts [OF assms(1) one] Cons.IH [OF rest(1)] show ?case
      by (cases ok; cases "counts e q") (auto simp: rest(2) tally_def counted_def tick_def)
  qed simp
  then show ?thesis by (simp add: Snapshot_def Let_def)
qed

definition some_questions :: "question list" where
  "some_questions =
     [Plain (at_hour ''9'') ''bob'' ''doc'' ''read'', Plain (at_hour ''20'') ''bob'' ''doc'' ''read'',
      Owned (at_hour ''9'') ''bob'' ''bob'' [] ''doc'' ''edit'', Attributed background ''bob'' ''doc'' ''read'' fmempty]"

theorem counters_exact_witness:
  "let s = Snapshot (\<lambda>_. st_metrics (fst (decide_all acme some_questions acme_state))); m = st_metrics acme_state in
    mt_decisions s = mt_decisions m + 4 \<and> mt_allowed s = mt_allowed m + 2 \<and> mt_denied s = mt_denied m + 2"
proof -
  have oks: "snd (decide_all acme some_questions acme_state) = [True, False, True, False]" by code_simp
  have "en_metrics acme" "en_rulesEnabled acme" by (simp_all add: acme_def)
  with counters_exact [OF _ prod.collapse [symmetric], of acme some_questions acme_state]
  show ?thesis unfolding oks by (simp add: Let_def some_questions_def)
qed

end
