(* ===== verification/Spec2Isabelle.thy ===== *)
theory Spec2Isabelle
  imports PolicyCalls Broker RedisProps ConfigProps SqlProps AuditFile TenancyProps RegistryProps ComponentProps TenantMiddleware
    SharedRedis Counters
begin

text \<open>
  A model of rbacgo, a role-based access control library in Go, and the theorems that make it
  correct. Files and functions are named as under \<^verbatim>\<open>src/\<close>.

  The program. An \<^verbatim>\<open>Enforcer\<close> (\<^verbatim>\<open>enforcer.go\<close>) answers whether a user may perform an action on a
  resource. Roles, their parents, assignments, policy rules and metadata are in a \<^verbatim>\<open>Store\<close>
  (\<^verbatim>\<open>store.go\<close>), the permissions of a user are kept in a \<^verbatim>\<open>CacheBackend\<close> (\<^verbatim>\<open>cache.go\<close>), decisions and
  changes go to an audit sink and to counters (\<^verbatim>\<open>observability.go\<close>), invalidations to other processes
  through a broker (\<^verbatim>\<open>invalidation.go\<close>). One store may serve many tenants: every Enforcer prefixes the
  names it stores with its tenant (\<^verbatim>\<open>options.go\<close>), and a \<^verbatim>\<open>TenantRegistry\<close> (\<^verbatim>\<open>registry.go\<close>) creates,
  leases and retires the Enforcers of many tenants. Middleware for four web frameworks guards requests
  with an Enforcer, or with the one of the tenant of the request.

  Theories, from the bottom up.

  \<^item> \<open>GoPrelude\<close>: Go strings, decimal texts and separators, JSON values, contexts (the clock, the error and the
    attributes of a call, and the order in which the runtime ranges over maps), early returns.
  \<^item> \<open>Model\<close> (\<^verbatim>\<open>model.go\<close>, \<^verbatim>\<open>errors.go\<close>): roles, permissions, the error values.
  \<^item> \<open>Policy\<close> (\<^verbatim>\<open>policy.go\<close>): conditions and rules, their validation, copies and evaluation.
  \<^item> \<open>Hierarchy\<close>: the traversals \<^verbatim>\<open>detectCycle\<close>, \<^verbatim>\<open>collectEffective\<close>, \<^verbatim>\<open>collectRoleNames\<close>.
  \<^item> \<open>Store\<close> (\<^verbatim>\<open>store.go\<close>, \<^verbatim>\<open>batch.go\<close>): the store interface, a record of functions with optional parts,
    and batches over it.
  \<^item> \<open>RbacSpec\<close>: the abstract specification. A state \<open>rbac\<close> holds finite maps of roles and rules and a
    set of assignments; each operation is a function on it with its error; \<open>entitled\<close>, \<open>holds_role\<close> and
    \<open>decision\<close> say who may do what.
  \<^item> \<open>MemoryStore\<close> (\<^verbatim>\<open>memory_store.go\<close>, \<^verbatim>\<open>memory_extensions.go\<close>): the store in memory, which
    implements the specification (an interpretation of the store contract).
  \<^item> \<open>Cache\<close> (\<^verbatim>\<open>cache.go\<close>): the LRU cache with expiry and generations, which implements the cache
    contract.
  \<^item> \<open>Observability\<close>, \<open>Enforcer\<close>, \<open>Admin\<close> (\<^verbatim>\<open>enforcer.go\<close>, \<^verbatim>\<open>policy.go\<close>, \<^verbatim>\<open>admin.go\<close>, \<^verbatim>\<open>batch.go\<close>,
    \<^verbatim>\<open>shutdown.go\<close>): audit and counters, decisions, mutations. The fields of the Go struct that never
    change are the record \<open>enforcer\<close>, the changing ones and the stores behind it the record \<open>state\<close>;
    a method is a function of both.
  \<^item> \<open>Decision\<close>, \<open>Engine\<close>: the locale \<open>engine\<close>, an Enforcer over any store and cache that keep
    their contracts, with the lemmas of all its operations; interpreted on the memory store and LRU.
  \<^item> \<open>Tenancy\<close>, \<open>Deployment\<close>: scoped names, and many Enforcers over one store whose calls interleave.
  \<^item> \<open>Registry\<close>, \<open>RegistryLeases\<close> (\<^verbatim>\<open>registry.go\<close>): the lock sections of the registry as functions, its
    goroutines and waiting callers as steps; their invariant.
  \<^item> \<open>Coherence\<close>: the lookups, fills, mutations and invalidations of one Enforcer that many goroutines use,
    interleaved step by step; its generations keep outdated fills out.
  \<^item> \<open>SharedCache\<close>, \<open>SharedRedis\<close>: the same for many processes that share a store and a cache, with every
    command a step of its own and flushes that delete page by page; only the tokens of the cache can keep
    the fills of one process from undoing the invalidations of another. A locale states what a cache with
    tokens promises, and Redis interprets it.
  \<^item> \<open>PolicyCalls\<close>: every call that changes the policy with its outcome on the specification.
  \<^item> \<open>SqlTables\<close>, \<open>SqlStore\<close>, \<open>SqlRefine\<close>, \<open>SqlContract\<close> (\<^verbatim>\<open>sqlstore.go\<close>, \<^verbatim>\<open>sql_extensions.go\<close>): the
    tables as finite sets and maps, one function per statement, the methods with their transactions in
    three dialects, their refinement of the specification under arbitrary failures of statements, and
    the interpretation of the store contract.
  \<^item> \<open>RedisCache\<close> (\<^verbatim>\<open>redis_cache.go\<close>, \<^verbatim>\<open>redis_policy_version.go\<close>): the cache and the policy version in
    Redis, whose commands fail before or after they take effect; an interpretation of the cache contract.
  \<^item> \<open>AuditFile\<close> (\<^verbatim>\<open>observability.go\<close>): the audit file over a disk that fails as it likes.
  \<^item> \<open>Broker\<close> (\<^verbatim>\<open>invalidation.go\<close>): the receive loop, the subscribers' queues and the closing of the
    Redis invalidation broker.
  \<^item> \<open>Config\<close> (\<^verbatim>\<open>enforcer.go\<close>, \<^verbatim>\<open>options.go\<close>, \<^verbatim>\<open>env.go\<close>, \<^verbatim>\<open>sqlite.go\<close>, \<^verbatim>\<open>shutdown.go\<close>): \<^verbatim>\<open>New\<close>, the options
    and the environment, with what they open and close.
  \<^item> \<open>Middleware\<close>, \<open>TenantMiddleware\<close> (\<^verbatim>\<open>http\<close>, \<^verbatim>\<open>gin\<close>, \<^verbatim>\<open>echo\<close>, \<^verbatim>\<open>fiber\<close>): the handlers, and the life of a
    request that leases the Enforcer of its tenant.
  \<^item> \<open>Counters\<close> (\<^verbatim>\<open>observability.go\<close>): snapshots of the counters and what decisions add to them.
  \<^item> \<open>Scenario\<close>: one concrete tenant, for the examples that follow the properties.
  \<^item> \<open>TenancyProps\<close>, \<open>RegistryProps\<close>, \<open>ComponentProps\<close>, \<open>SqlProps\<close>, \<open>RedisProps\<close>, \<open>ConfigProps\<close>, the ends of
    \<open>Coherence\<close>, \<open>SharedRedis\<close>, \<open>Broker\<close>, \<open>AuditFile\<close>, \<open>Counters\<close> and the middleware theories, and this theory: the properties.

  What the lemmas show. Every store operation refines its abstract one, on every error branch; every
  state that the Enforcer reaches is \<open>good\<close>: the store is well formed and acyclic, and what the cache
  holds agrees with it. From these follow that decisions are exact, that the cache and the order of
  maps change nothing, that refused calls change nothing, and that tenants with disjoint keys are
  isolated. For the registry an invariant over all interleavings counts leases against calls, and a
  measure shows that shutting down ends. The engine is proved once and interpreted on three pairs of a
  store and a cache: memory and LRU, SQL and LRU, SQL and Redis. For processes that interleave, \<open>shared_engine\<close>
  extends it by a cache with tokens, and SQL with Redis interprets that too.

  Choices. The hierarchy traversals are total functions: the set of visited names grows within the
  roles of the store, so they end on cyclic graphs as well and no fuel is needed. The generation
  counters are 64-bit words; where they must not wrap around within one call, the bound is in the
  statement. A context is a value: within one call its error and attributes do not change, its clock
  is one instant, and \<open>fair_range\<close> says that ranging over a map visits every key once. Calls of one
  Enforcer are sequential in \<open>Engine\<close> and \<open>Deployment\<close>; \<open>Coherence\<close> and \<open>SharedCache\<close> interleave them. A method of the SQL
  store is one step, since its transactions exclude other writers; an error of any of its statements
  rolls it back. The rows of a query come in any order the statement leaves open. The commands of Redis and
  the statements of SQL that the code sends are written out after their documentation; what a server,
  a disk or a host answers is an argument of the model, and no theorem assumes that it answers unless
  its statement says so. A loop over the pages of \<^verbatim>\<open>SCAN\<close> runs over the pages of one iteration, which
  ends by the documentation of Redis; where processes interleave, a flush ends when every key that was
  there when it began has been deleted, which is what \<^verbatim>\<open>SCAN\<close> guarantees, and expiry and eviction delete
  keys at any time. The texts that \<^verbatim>\<open>rand.Text\<close> draws for tokens are taken to differ.

  Assumed of the data: names are valid UTF-8, so that JSON and runes keep them, and no longer than the
  key columns of MySQL; text is compared bytewise.

  Not modelled. The bodies of drivers and clients, sockets and files below their interfaces; a resharding
  of Redis, and commands of Redis that fail while processes interleave (alone, failing commands are
  covered by the bound on the age of an answer); the contents of log lines beyond being written; the
  example programs, which only call the library.
\<close>

section \<open>Decisions\<close>

text \<open>
  C1. On every state an Enforcer reaches over the memory store with an LRU cache or none, a decision
  with a live context is exactly the specified one: the permissions of the user's roles and their
  ancestors, with wildcards if enabled, then the policy rules of all held roles. The cache and the
  order in which Go ranges over maps make no difference.
\<close>

theorem Enforce_exact:
  assumes "local_run e st" and "runs_on e mem_ops lru_ops" and "en_audit e = None"
    and "cx_Err cx = None" and "fair_range cx" and "\<not> st_shutdown st"
  shows "snd (Enforce e cx u res act st) \<longleftrightarrow>
    decision e (mem_abs (st_store st)) u res act (cx_attrs cx) (may e (mem_abs (st_store st)) u res act)"
proof -
  note st = local_run_good [OF assms(1,2)]
  obtain st1 where "EnforceCtx e cx u res act st = recordDecision e cx ''enforce'' u res act
      (st1, decision e (mem_abs (st_store st)) u res act (cx_attrs cx)
         (may e (mem_abs (st_store st)) u res act), None)"
    by (rule embedded.EnforceCtx_decision [OF assms(2) st assms(4-6)])
  then have "snd (EnforceCtx e cx u res act st) =
      (decision e (mem_abs (st_store st)) u res act (cx_attrs cx) (may e (mem_abs (st_store st)) u res act), None)"
    by (simp add: recordDecision_off [OF assms(3)])
  then show ?thesis by (simp add: Enforce_def split_beta)
qed

theorem Enforce_exact_witness:
  "decision acme (mem_abs (st_store acme_state)) ''bob'' ''doc'' ''read'' (cx_attrs (at_hour ''9''))
     (may acme (mem_abs (st_store acme_state)) ''bob'' ''doc'' ''read'') \<and>
   \<not> decision acme (mem_abs (st_store acme_state)) ''bob'' ''doc'' ''read'' (cx_attrs (at_hour ''20''))
     (may acme (mem_abs (st_store acme_state)) ''bob'' ''doc'' ''read'')"
proof -
  have "snd (Enforce acme (at_hour ''9'') ''bob'' ''doc'' ''read'' acme_state) = True" by code_simp
  moreover have "snd (Enforce acme (at_hour ''20'') ''bob'' ''doc'' ''read'' acme_state) = False" by code_simp
  ultimately show ?thesis
    using Enforce_exact [OF acme_run acme_runs at_hour_ctx acme_up] by simp
qed

text \<open>
  C2. Errors deny: whatever the context (cancelled or not), the audit sink and the shutdown flag, a
  granted request is one the specification grants, made before a shutdown.
\<close>

theorem Enforce_sound:
  assumes "local_run e st" and "runs_on e mem_ops lru_ops" and "fair_range cx"
    and "snd (Enforce e cx u res act st)"
  shows "\<not> st_shutdown st \<and>
    decision e (mem_abs (st_store st)) u res act (cx_attrs cx) (may e (mem_abs (st_store st)) u res act)"
proof -
  have run: "snd (EnforceCtx e cx u res act st) = (True, None)"
    using assms(4) by (auto simp: Enforce_def prod_eq_iff split_beta)
  from embedded.EnforceCtx_answer [OF assms(2) local_run_good [OF assms(1,2)] assms(3) run]
  show ?thesis by simp
qed

theorem Enforce_sound_witness:
  "decision acme (mem_abs (st_store acme_state)) ''alice'' ''roles'' ''manage'' (cx_attrs background)
     (may acme (mem_abs (st_store acme_state)) ''alice'' ''roles'' ''manage'')"
proof -
  have "snd (Enforce acme background ''alice'' ''roles'' ''manage'' acme_state) = True" by code_simp
  then show ?thesis
    using Enforce_sound [OF acme_run acme_runs(1) fair_background] by blast
qed

text \<open>
  C3. Deny wins, also when it cannot be decided: with rules enabled, a matching deny rule of any
  role the user holds, directly or by inheritance, refuses the request unless one of its conditions
  is known to be false; no permission, wildcard or allow rule overrides it.
\<close>

theorem deny_overrides:
  assumes "local_run e st" and "runs_on e mem_ops lru_ops" and "fair_range cx" and "en_rulesEnabled e"
    and "holds_role (mem_abs (st_store st)) (userKey e u) x"
    and "rule \<in> set (rules_of (mem_abs (st_store st)) x)"
    and "ruleMatches e rule res act" and "rule_Effect rule = EffectDeny"
    and "\<And>c. c \<in> set (rule_Conditions rule) \<Longrightarrow>
      conditionMatches c (add_facts e u (cx_attrs cx)) \<noteq> (False, True)"
  shows "\<not> snd (Enforce e cx u res act st)"
proof
  assume "snd (Enforce e cx u res act st)"
  then have "snd (EnforceCtx e cx u res act st) = (True, None)"
    by (auto simp: Enforce_def prod_eq_iff split_beta)
  from embedded.EnforceCtx_answer(2) [OF assms(2) local_run_good [OF assms(1,2)] assms(3) this]
  have "\<not> denies e res act (add_facts e u (cx_attrs cx)) (rules_of (mem_abs (st_store st)) x)"
    using assms(4,5) by (auto simp: decision_def Let_def)
  with assms(6-9) show False unfolding denies_def by blast
qed

lemma acme_viewer_rules: "rules_of (mem_abs (st_store acme_state)) (roleKey acme ''viewer'') = [after_hours]"
  unfolding rules_of_def mem_abs_rules by code_simp

lemma acme_bob_viewer: "holds_role (mem_abs (st_store acme_state)) (userKey acme ''bob'') (roleKey acme ''viewer'')"
proof -
  have "HasRole acme background ''bob'' ''viewer'' acme_state = Inr True" by code_simp
  then show ?thesis
    using embedded.HasRole_holds [OF acme_runs(1) local_run_good [OF acme_run acme_runs(1)] background_Err acme_up]
    by simp
qed

theorem deny_overrides_witness: "\<not> snd (Enforce acme background ''bob'' ''doc'' ''read'' acme_state)"
proof (rule deny_overrides [OF acme_run acme_runs(1) fair_background _ acme_bob_viewer])
  show "after_hours \<in> set (rules_of (mem_abs (st_store acme_state)) (roleKey acme ''viewer''))"
    by (simp add: acme_viewer_rules)
  show "conditionMatches c (add_facts acme ''bob'' (cx_attrs background)) \<noteq> (False, True)"
    if "c \<in> set (rule_Conditions after_hours)" for c
  proof -
    have "c = \<lparr>cond_Attribute = ''environment.hour'', cond_Operator = ''gt'',
        cond_Value = GVal (JNum ''18''), cond_OtherAttribute = []\<rparr>"
      using that by (simp add: after_hours_def)
    then show ?thesis by (simp add: conditionMatches_missing add_facts_def background_def)
  qed
  show "en_rulesEnabled acme" by (simp add: acme_def)
  show "ruleMatches acme after_hours ''doc'' ''read''"
    by (simp add: ruleMatches_def acme_def after_hours_def)
  show "rule_Effect after_hours = EffectDeny" by (simp add: after_hours_def)
qed

text \<open>
  C4. Ownership-scoped decisions are exactly the documented ones: a plain or \<^verbatim>\<open>:any\<close> permission
  grants for any owner, \<^verbatim>\<open>:self\<close> only to the owner (or for creation), \<^verbatim>\<open>:grp:g\<close> only for a
  resource of the non-empty group \<^verbatim>\<open>g\<close>; then the rules see owner and group as attributes.
\<close>

theorem EnforceOwned_exact:
  assumes "local_run e st" and "runs_on e mem_ops lru_ops" and "en_audit e = None"
    and "cx_Err cx = None" and "fair_range cx" and "\<not> st_shutdown st"
  shows "snd (EnforceOwned e cx u owner grp res act st) \<longleftrightarrow>
    decision e (mem_abs (st_store st)) u res act
      (fmupd ''resource.group'' (GVal (JStr grp)) (fmupd ''resource.owner'' (GVal (JStr owner)) (cx_attrs cx)))
      (let m = may e (mem_abs (st_store st)) u res
       in m act \<or> m (act @ '':any'') \<or> (m (act @ '':self'') \<and> (owner = u \<or> act = ''create'')) \<or>
          (grp \<noteq> [] \<and> m (act @ '':grp:'' @ grp)))"
    (is "_ \<longleftrightarrow> ?d")
proof -
  note st = local_run_good [OF assms(1,2)]
  obtain st1 where "EnforceOwnedCtx e cx u owner grp res act st =
      recordDecision e cx ''enforce_owned'' u res act (st1, ?d, None)"
    by (rule embedded.EnforceOwnedCtx_decision [OF assms(2) st assms(4-6)])
  then have "snd (EnforceOwnedCtx e cx u owner grp res act st) = (?d, None)"
    by (simp add: recordDecision_off [OF assms(3)])
  then show ?thesis by (simp add: EnforceOwned_def split_beta)
qed

theorem EnforceOwned_exact_witness:
  "snd (EnforceOwned acme (at_hour ''9'') ''bob'' ''bob'' [] ''doc'' ''edit'' acme_state) \<and>
   \<not> decision acme (mem_abs (st_store acme_state)) ''bob'' ''doc'' ''edit''
      (fmupd ''resource.group'' (GVal (JStr [])) (fmupd ''resource.owner'' (GVal (JStr ''alice'')) (cx_attrs (at_hour ''9''))))
      (let m = may acme (mem_abs (st_store acme_state)) ''bob'' ''doc''
       in m ''edit'' \<or> m (''edit'' @ '':any'') \<or> (m (''edit'' @ '':self'') \<and> (''alice'' = ''bob'' \<or> ''edit'' = ''create'')) \<or>
          (([] :: string) \<noteq> [] \<and> m (''edit'' @ '':grp:'' @ [])))"
proof
  show "snd (EnforceOwned acme (at_hour ''9'') ''bob'' ''bob'' [] ''doc'' ''edit'' acme_state)" by code_simp
  have "snd (EnforceOwned acme (at_hour ''9'') ''bob'' ''alice'' [] ''doc'' ''edit'' acme_state) = False" by code_simp
  then show "\<not> decision acme (mem_abs (st_store acme_state)) ''bob'' ''doc'' ''edit''
      (fmupd ''resource.group'' (GVal (JStr [])) (fmupd ''resource.owner'' (GVal (JStr ''alice'')) (cx_attrs (at_hour ''9''))))
      (let m = may acme (mem_abs (st_store acme_state)) ''bob'' ''doc''
       in m ''edit'' \<or> m (''edit'' @ '':any'') \<or> (m (''edit'' @ '':self'') \<and> (''alice'' = ''bob'' \<or> ''edit'' = ''create'')) \<or>
          (([] :: string) \<noteq> [] \<and> m (''edit'' @ '':grp:'' @ [])))"
    using EnforceOwned_exact [OF acme_run acme_runs at_hour_ctx acme_up, of "''9''" "''bob''" "''alice''" "[]" "''doc''" "''edit''"]
    by blast
qed

text \<open>
  C5. An audit sink that cannot write denies: if the sink fails on every event, no decision is
  granted, whatever the store and the cache contain.
\<close>

theorem audit_failure_denies:
  fixes e :: "('s, 'c, 'x) enforcer" and st :: "('s, 'c, 'x) state"
  assumes "en_audit e = Some emit" and "\<And>ev x. snd (emit cx ev x) \<noteq> None"
  shows "\<not> snd (Enforce e cx u res act st) \<and> \<not> snd (EnforceOwned e cx u owner grp res act st)"
proof -
  have fails: "snd (emitAudit e cx ev st) \<noteq> None" for ev and st :: "('s, 'c, 'x) state"
  proof -
    let ?ev = "ev\<lparr>ae_ID := cx_rand cx, ae_Time := cx_now cx, ae_Tenant := en_tenant e\<rparr>"
    obtain x er where run: "emit cx ?ev (st_ext st) = (x, er)" by force
    with assms(2) [of ?ev "st_ext st"] obtain c where "er = Some c" by (cases er) auto
    with run assms(1) show ?thesis by (simp add: emitAudit_def Let_def)
  qed
  have "snd (snd (recordDecision e cx op u res act r)) \<noteq> None" for op and r :: "('s, 'c, 'x) state \<times> bool \<times> err option"
    by (cases r) (auto simp: recordDecision_result split: option.splits dest: notE [OF fails])
  then show ?thesis
    by (auto simp: Enforce_def EnforceOwned_def EnforceCtx_def EnforceOwnedCtx_def split_beta)
qed

theorem audit_failure_denies_witness:
  "\<not> snd (Enforce (acme\<lparr>en_audit := Some (\<lambda>cx ev x. (x, Some (ErrBackend ''disk full'')))\<rparr>)
     (at_hour ''9'') ''bob'' ''doc'' ''read'' acme_state)"
  using audit_failure_denies
    [of "acme\<lparr>en_audit := Some (\<lambda>cx ev x. (x, Some (ErrBackend ''disk full'')))\<rparr>"
      "\<lambda>cx ev x. (x, Some (ErrBackend ''disk full''))" "at_hour ''9''" "''bob''" "''doc''" "''read''" acme_state]
  by simp

text \<open>
  C6. A shutdown is terminal for the policy: once the flag is set, every decision is denied with an
  error, every provisioning call is refused with \<^verbatim>\<open>ErrEnforcerClosed\<close>, and every call on behalf of
  an actor fails; none of them changes the store.
\<close>

theorem shutdown_refuses:
  assumes "st_shutdown st"
  shows "\<not> snd (Enforce e cx u res act st) \<and> (\<forall>b. snd (EnforceCtx e cx u res act st) \<noteq> (b, None)) \<and>
    RegisterRole e cx role st = (st, Some ErrEnforcerClosed) \<and>
    RegisterRoles e cx roles st = (st, Some ErrEnforcerClosed) \<and>
    AssignRole e cx u r st = (st, Some ErrEnforcerClosed) \<and>
    ListRoles e cx st = Inl ErrEnforcerClosed \<and> HasRole e cx u r st = Inl ErrEnforcerClosed \<and>
    PermissionView e cx u st = (st, Inl ErrEnforcerClosed) \<and>
    (\<forall>f \<in> managed_calls e cx actor. snd (f st) \<noteq> None \<and> st_store (fst (f st)) = st_store st)"
proof -
  have "snd (f st) \<noteq> None \<and> st_store (fst (f st)) = st_store st" if f: "f \<in> managed_calls e cx actor" for f
  proof -
    obtain st1 er where "requireManagement e cx actor st = (st1, Some er)" and same: "st_store st1 = st_store st"
      using shutdown_management [OF assms, of e cx actor] by blast
    then have "guarded e cx actor g st = (st1, Some er)" for g by (intro guarded_failed)
    with same managed_calls_guarded [OF f] show ?thesis by (metis fst_conv option.distinct(1) snd_conv)
  qed
  moreover have "\<not> snd (Enforce e cx u res act st)"
    using shutdown_decision(1) [OF assms, of e cx u res act True]
    by (auto simp: Enforce_def split_beta prod_eq_iff)
  ultimately show ?thesis
    using shutdown_decision(1) [OF assms, of e cx u res act] assms
    by (auto simp: RegisterRole_def RegisterRoles_def AssignRole_def ListRoles_def HasRole_def PermissionView_def)
qed

theorem shutdown_refuses_witness:
  "snd (Enforce acme background ''alice'' ''roles'' ''manage'' acme_state) \<and>
   \<not> snd (Enforce acme background ''alice'' ''roles'' ''manage'' (fst (Shutdown acme True background acme_state)))"
proof
  show "snd (Enforce acme background ''alice'' ''roles'' ''manage'' acme_state)" by code_simp
  have "st_shutdown (fst (Shutdown acme True background acme_state))" by (simp add: Shutdown_def)
  then show "\<not> snd (Enforce acme background ''alice'' ''roles'' ''manage'' (fst (Shutdown acme True background acme_state)))"
    using shutdown_refuses by blast
qed

text \<open>
  C7. The cache is transparent: an Enforcer decides as the same Enforcer without a cache would in
  the same state, however the calls before filled, dropped and flushed the cache.
\<close>

theorem cache_transparent:
  assumes "local_run e st" and "runs_on e mem_ops lru_ops" and "en_audit e = None"
    and "cx_Err cx = None" and "fair_range cx"
  shows "snd (Enforce e cx u res act st) = snd (Enforce (e\<lparr>en_cache := None\<rparr>) cx u res act st)"
proof (cases "st_shutdown st")
  case True
  have "\<not> snd (Enforce e' cx u res act st)" for e' :: "(mem, lru, 'a) enforcer"
    using shutdown_decision(1) [OF True, of e' cx u res act True]
    by (auto simp: Enforce_def split_beta prod_eq_iff)
  then show ?thesis by simp
next
  case False
  let ?e = "e\<lparr>en_cache := None\<rparr>" and ?A = "mem_abs (st_store st)"
  have runs: "runs_on ?e mem_ops lru_ops" using assms(2) by (simp add: runs_on_def)
  have st: "good e mem_ok mem_abs lru_ok lru_holds st" by (rule local_run_good [OF assms(1,2)])
  then have st': "good ?e mem_ok mem_abs lru_ok lru_holds st" by (simp add: good_def)
  have same: "decision ?e ?A u res act (cx_attrs cx) (may ?e ?A u res act) =
      decision e ?A u res act (cx_attrs cx) (may e ?A u res act)"
    by (simp add: decision_def may_def permitted_def userKey_def add_facts_def denies_def allows_def ruleMatches_def)
  have exact: "snd (Enforce e' cx u res act st) = decision e' ?A u res act (cx_attrs cx) (may e' ?A u res act)"
    if e': "runs_on e' mem_ops lru_ops" "good e' mem_ok mem_abs lru_ok lru_holds st" "en_audit e' = None"
    for e' :: "(mem, lru, 'a) enforcer"
    by (rule embedded.EnforceCtx_decision [OF e'(1,2) assms(4,5) False, of u res act])
      (simp add: Enforce_def split_beta recordDecision_off [OF e'(3)])
  show ?thesis
    using exact [OF assms(2) st assms(3)] exact [OF runs st'] assms(3) same by simp
qed

theorem cache_transparent_witness:
  "snd (Enforce (acme\<lparr>en_cache := None\<rparr>) (at_hour ''9'') ''bob'' ''doc'' ''read'' acme_state)"
proof -
  have "snd (Enforce acme (at_hour ''9'') ''bob'' ''doc'' ''read'' acme_state) = True" by code_simp
  then show ?thesis using cache_transparent [OF acme_run acme_runs at_hour_ctx] by simp
qed

section \<open>Changes of the policy\<close>

text \<open>
  C8. An actor without the role-management capability changes nothing: each of the nine calls on
  behalf of an actor returns an error and leaves the store exactly as it was, on any context.
\<close>

theorem unauthorized_changes_nothing:
  assumes "local_run e st" and "runs_on e mem_ops lru_ops" and "fair_range cx"
    and "\<not> manages e (mem_abs (st_store st)) cx actor" and "f \<in> managed_calls e cx actor"
  shows "snd (f st) \<noteq> None \<and> st_store (fst (f st)) = st_store st"
proof -
  note no = embedded.unauthorized_guarded [OF assms(2) local_run_good [OF assms(1,2)] assms(3,4)]
  have "snd (guarded e cx actor g st) \<noteq> None \<and> st_store (fst (guarded e cx actor g st)) = st_store st" for g
    using no [of g] by auto
  with managed_calls_guarded [OF assms(5)] show ?thesis by (metis fst_conv option.distinct(1) snd_conv)
qed

theorem unauthorized_changes_nothing_witness:
  "snd (DeleteRole acme background ''bob'' ''editor'' acme_state) \<noteq> None \<and>
   st_store (fst (DeleteRole acme background ''bob'' ''editor'' acme_state)) = st_store acme_state"
proof (rule unauthorized_changes_nothing [OF acme_run acme_runs(1) fair_background])
  have "snd (requireManagement acme background ''bob'' acme_state) = Some ErrPermissionDenied" by code_simp
  then show "\<not> manages acme (mem_abs (st_store acme_state)) background ''bob''"
    using embedded.requireManagement_live [OF acme_runs(1) local_run_good [OF acme_run acme_runs(1)]
        background_Err fair_background acme_up acme_runs(2), of "''bob''"] by (simp split: if_splits)
  show "DeleteRole acme background ''bob'' ''editor'' \<in> managed_calls acme background ''bob''"
    by (simp add: managed_calls_def)
qed

text \<open>
  C9. Every call that changes the policy has exactly its specified outcome, errors included: the trusted
  registration and assignment, and behind the capability check the same on behalf of an actor, updates,
  deletions, unassignments, rules, metadata and batches. A refused call returns its error (invalid or
  unknown or taken role, missing parent, cycle, role in use, invalid or disabled rules, missing
  capability) and changes nothing; a batch applies all its operations in the documented order or none.
  Registering several roles does what registering one after the other does: it stops at the first error
  and returns it, and the roles before it stay.
\<close>

theorem policy_calls_exact:
  assumes "local_run e st" and "runs_on e mem_ops lru_ops" and "en_audit e = None"
    and "cx_Err cx = None" and "fair_range cx" and "\<not> st_shutdown st"
    and "(f, g) \<in> policy_calls e mem_traits cx actor"
  shows "meets mem_abs f st (g (mem_abs (st_store st)))"
  by (rule embedded.policy_call_outcome [OF assms(2) local_run_good [OF assms(1,2)] assms(4-6,3,7)])

definition new_hires :: "role list" where
  "new_hires = [a_role ''auditor'' [] [''viewer''], a_role ''viewer'' [] [], a_role ''clerk'' [] []]"

theorem policy_calls_exact_witness:
  "(let f = UpdateRole acme background ''alice'' (a_role ''viewer'' [] [''admin'']); A = mem_abs (st_store acme_state)
    in meets mem_abs f acme_state (managed acme background ''alice''
         (settled (spec_Update acme (a_role ''viewer'' [] [''admin'']))) A) \<and> snd (f acme_state) = Some ErrCycleDetected) \<and>
   (let f = ApplyPolicyBatch acme background ''alice'' move_bob; A = mem_abs (st_store acme_state)
    in meets mem_abs f acme_state (managed acme background ''alice''
         (settled (spec_Batch acme mem_traits background move_bob)) A) \<and> snd (f acme_state) = None) \<and>
   (let f = RegisterRolesAs acme background ''alice'' new_hires; A = mem_abs (st_store acme_state)
    in meets mem_abs f acme_state (managed acme background ''alice'' (spec_RegisterRoles acme mem_traits new_hires) A) \<and>
       snd (f acme_state) = Some ErrRoleExists \<and>
       fmhas (m_roles (st_store (fst (f acme_state)))) ''acme::auditor'' \<and>
       \<not> fmhas (m_roles (st_store (fst (f acme_state)))) ''acme::clerk'')"
proof -
  note exact = policy_calls_exact [OF acme_run acme_runs background_Err fair_background acme_up, where actor = "''alice''"]
  have "snd (UpdateRole acme background ''alice'' (a_role ''viewer'' [] [''admin'']) acme_state) = Some ErrCycleDetected"
    and "snd (ApplyPolicyBatch acme background ''alice'' move_bob acme_state) = None"
    and "snd (RegisterRolesAs acme background ''alice'' new_hires acme_state) = Some ErrRoleExists"
    and "fmhas (m_roles (st_store (fst (RegisterRolesAs acme background ''alice'' new_hires acme_state)))) ''acme::auditor''"
    and "\<not> fmhas (m_roles (st_store (fst (RegisterRolesAs acme background ''alice'' new_hires acme_state)))) ''acme::clerk''"
    by code_simp+
  moreover have "meets mem_abs (UpdateRole acme background ''alice'' role) acme_state
      (managed acme background ''alice'' (settled (spec_Update acme role)) (mem_abs (st_store acme_state)))" for role
    by (rule exact) (unfold policy_calls_def, blast)
  moreover have "meets mem_abs (ApplyPolicyBatch acme background ''alice'' b) acme_state
      (managed acme background ''alice'' (settled (spec_Batch acme mem_traits background b)) (mem_abs (st_store acme_state)))" for b
    by (rule exact) (unfold policy_calls_def, blast)
  moreover have "meets mem_abs (RegisterRolesAs acme background ''alice'' roles) acme_state
      (managed acme background ''alice'' (spec_RegisterRoles acme mem_traits roles) (mem_abs (st_store acme_state)))" for roles
    by (rule exact) (unfold policy_calls_def, blast)
  ultimately show ?thesis unfolding Let_def by blast
qed

section \<open>The memory store\<close>

text \<open>
  C10. In every state an Enforcer reaches, the memory store is sound: roles are stored under their
  names, the hierarchy is acyclic and has no dangling parent, the lists of the users and the reverse
  index describe the same assignments without duplicates, and only existing roles are assigned or
  carry rules.
\<close>

theorem memory_store_sound:
  assumes "local_run e st" and "runs_on e mem_ops lru_ops" and "s = st_store st"
  shows "acyclic_roles (m_roles s) \<and>
    (\<forall>n r. fmlookup (m_roles s) n = Some r \<longrightarrow> role_Name r = n \<and> validRole r \<and>
       (\<forall>p \<in> set (role_Parents r). fmhas (m_roles s) p)) \<and>
    (\<forall>u r. r \<in> set (user_roles s u) \<longleftrightarrow> u |\<in>| role_users s r) \<and>
    (\<forall>u. distinct (user_roles s u)) \<and>
    (\<forall>u r. r \<in> set (user_roles s u) \<longrightarrow> fmhas (m_roles s) r) \<and>
    (\<forall>n rules. fmlookup (m_rules s) n = Some rules \<longrightarrow> fmhas (m_roles s) n \<and> validateRules rules = None)"
proof -
  have ok: "mem_ok s" using local_run_good [OF assms(1,2)] assms(3) by (simp add: good_def)
  note wf = wf_rbacD [OF mem_okD(4) [OF ok], simplified]
  have parents: "fmhas (m_roles s) p" if "fmlookup (m_roles s) n = Some r" "p \<in> set (role_Parents r)" for n r p
    using wf(2) [of n p] that by (simp add: parent_def)
  have rules: "validateRules rules = None" if "cloneRules rules = Inr rules" for rules
    using that by (simp add: cloneRules_def split: option.splits)
  show ?thesis
    using wf(1,3,4) parents rules mem_okD(1-3) [OF ok] by blast
qed

theorem memory_store_sound_witness:
  "acyclic_roles (m_roles (st_store acme_state)) \<and> distinct (user_roles (st_store acme_state) ''acme::bob'')"
  using memory_store_sound [OF acme_run acme_runs(1) refl] by blast

end
